(* ===== verification/OS_Prelude.thy ===== *)
theory OS_Prelude
  imports Main "HOL-Library.Word" "HOL-Library.Char_ord" "HOL-Library.List_Lexorder"
    "HOL-Library.Multiset"
begin

text \<open>
  Shared vocabulary of the development.

  A Go \<^verbatim>\<open>string\<close> and a Go \<^verbatim>\<open>[]byte\<close> are both byte sequences; an Isabelle
  \<^typ>\<open>char\<close> is a byte, so both are \<^typ>\<open>string\<close>, and \<^const>\<open>length\<close> is Go's
  \<^verbatim>\<open>len\<close>. Strings are ordered byte-wise (\<^verbatim>\<open>HOL-Library.Char_ord\<close> and
  \<^verbatim>\<open>HOL-Library.List_Lexorder\<close>), which is Go's \<^verbatim>\<open><\<close> on strings.

  A Go \<^verbatim>\<open>map\<close> has no order of its own: \<^verbatim>\<open>range\<close> visits it in an order chosen
  afresh on every run. It is an association list with distinct keys, the list being the order in
  which this run visits the map, so that independence of that order is something to be proved.

  A function that returns \<^verbatim>\<open>(T, error)\<close> returns a sum, \<^const>\<open>Inl\<close> being the error.
\<close>

subsection \<open>Types\<close>

type_synonym bytes = string
type_synonym 'v gomap = "(string \<times> 'v) list"
type_synonym 'a result = "string + 'a"
type_synonym u64 = "64 word"

named_theorems go_simps \<open>evaluation of the modelled library functions\<close>
named_theorems wf_intros \<open>well-formedness introduction rules\<close>

subsection \<open>Bytes, slices and maps\<close>

definition byte :: "nat \<Rightarrow> char" where
  "byte n = char_of n"

definition code :: "char \<Rightarrow> nat" where
  "code c = of_char c"

text \<open>\<^verbatim>\<open>s[a:b]\<close>, which panics unless \<open>a \<le> b \<le> len s\<close>.\<close>

definition go_slice :: "string \<Rightarrow> nat \<Rightarrow> nat \<Rightarrow> string option" where
  "go_slice s a b = (if a \<le> b \<and> b \<le> length s then Some (take (b - a) (drop a s)) else None)"

text \<open>\<^verbatim>\<open>m[k]\<close> on a map with a zero value for missing keys.\<close>

definition map_get :: "'v \<Rightarrow> 'v gomap \<Rightarrow> string \<Rightarrow> 'v" where
  "map_get zero m k = (case map_of m k of None \<Rightarrow> zero | Some v \<Rightarrow> v)"

text \<open>\<^verbatim>\<open>m[k] = v\<close>: replaces the value of a key that is present, adds the key otherwise.\<close>

fun map_put :: "string \<Rightarrow> 'v \<Rightarrow> 'v gomap \<Rightarrow> 'v gomap" where
  "map_put k v [] = [(k, v)]"
| "map_put k v ((k', v') # m) = (if k' = k then (k, v) # m else (k', v') # map_put k v m)"

definition keys :: "'v gomap \<Rightarrow> string list" where
  "keys m = map fst m"

subsection \<open>Signed 64-bit integers\<close>

definition int64_min :: int where "int64_min = - (2 ^ 63)"
definition int64_max :: int where "int64_max = 2 ^ 63 - 1"

definition in_int64 :: "int \<Rightarrow> bool" where
  "in_int64 n \<longleftrightarrow> int64_min \<le> n \<and> n \<le> int64_max"

text \<open>The value an \<^verbatim>\<open>int64\<close> operation delivers when the exact result is \<open>n\<close>.\<close>

definition wrap64 :: "int \<Rightarrow> int" where
  "wrap64 n = (n + 2 ^ 63) mod 2 ^ 64 - 2 ^ 63"

subsection \<open>Facts on bytes\<close>

lemma code_byte: "n < 256 \<Longrightarrow> code (byte n) = n"
  by (simp add: code_def byte_def)

lemma byte_code [simp]: "byte (code c) = c"
  by (simp add: code_def byte_def)

lemma code_less: "code c < 256"
  by (simp add: code_def)

lemma code_inj: "code a = code b \<longleftrightarrow> a = b"
  by (simp add: code_def)

subsection \<open>Facts on slices and maps\<close>

lemma go_slice_Some: "a \<le> b \<Longrightarrow> b \<le> length s \<Longrightarrow> go_slice s a b = Some (take (b - a) (drop a s))"
  by (simp add: go_slice_def)

lemma go_slice_length: "go_slice s a b = Some t \<Longrightarrow> length t = b - a"
  by (auto simp: go_slice_def split: if_splits)

lemma map_put_keys: "set (keys (map_put k v m)) = insert k (set (keys m))"
  by (induction k v m rule: map_put.induct) (auto simp: keys_def)

lemma map_put_distinct [wf_intros]: "distinct (keys m) \<Longrightarrow> distinct (keys (map_put k v m))"
  by (induction k v m rule: map_put.induct) 
    (auto simp: keys_def map_put_keys [unfolded keys_def set_map] image_iff)

lemma map_of_put: "map_of (map_put k v m) = (map_of m)(k \<mapsto> v)"
  by (induction k v m rule: map_put.induct) (auto simp: fun_eq_iff)

lemma map_put_new: "k \<notin> set (keys m) \<Longrightarrow> map_put k v m = m @ [(k, v)]"
  by (induction k v m rule: map_put.induct) (auto simp: keys_def)

lemma map_get_put: "map_get z (map_put k v m) j = (if j = k then v else map_get z m j)"
  by (simp add: map_get_def map_of_put)

text \<open>Looking a key up does not depend on the order in which the map is visited.\<close>

lemma map_of_perm:
  assumes "mset m = mset m'" "distinct (keys m)"
  shows "map_of m = map_of m'"
proof
  fix k
  have set: "set m = set m'" and "mset (map fst m) = mset (map fst m')"
    using assms(1) by (auto dest: mset_eq_setD)
  then have "distinct (map fst m)" "distinct (map fst m')"
    using assms(2) by (metis keys_def mset_eq_imp_distinct_iff)+
  then show "map_of m k = map_of m' k"
    using set by (metis map_of_eq_Some_iff option.exhaust)
qed

lemma keys_perm:
  assumes "mset m = mset m'"
  shows "mset (keys m) = mset (keys m')"
  using assms by (simp add: keys_def)

subsection \<open>Facts on 64-bit integers\<close>

lemma wrap64_in_range [simp]: "in_int64 (wrap64 n)"
  by (simp add: in_int64_def wrap64_def int64_min_def int64_max_def)

lemma wrap64_id: "in_int64 n \<Longrightarrow> wrap64 n = n"
  by (simp add: in_int64_def wrap64_def int64_min_def int64_max_def)

end
