(* ===== verification/Go_Strings.thy ===== *)
theory Go_Strings
  imports OS_Prelude
begin

text \<open>
  The parts of Go's \<^verbatim>\<open>strconv\<close>, \<^verbatim>\<open>strings\<close>, \<^verbatim>\<open>encoding/hex\<close>,
  \<^verbatim>\<open>encoding/binary\<close> and \<^verbatim>\<open>encoding/base64\<close> packages that the program calls, with
  the facts the components use: decimal and base64 round trips, injectivity of hexadecimal and of
  the fixed-width big-endian length, and what splitting at a separator returns.
\<close>

subsection \<open>strconv: decimal integers\<close>

definition digit :: "nat \<Rightarrow> char" where
  "digit d = byte (48 + d)"

definition is_digit :: "char \<Rightarrow> bool" where
  "is_digit c \<longleftrightarrow> 48 \<le> code c \<and> code c \<le> 57"

definition digit_val :: "char \<Rightarrow> nat" where
  "digit_val c = code c - 48"

fun dec_of_nat :: "nat \<Rightarrow> string" where
  "dec_of_nat n = (if n < 10 then [digit n] else dec_of_nat (n div 10) @ [digit (n mod 10)])"

declare dec_of_nat.simps [simp del]

text \<open>\<^verbatim>\<open>strconv.Itoa\<close> and \<^verbatim>\<open>strconv.FormatInt(n, 10)\<close>.\<close>

definition itoa :: "int \<Rightarrow> string" where
  "itoa n = (if n < 0 then ''-'' @ dec_of_nat (nat (- n)) else dec_of_nat (nat n))"

definition nat_of_dec :: "string \<Rightarrow> nat" where
  "nat_of_dec s = foldl (\<lambda>acc c. 10 * acc + digit_val c) 0 s"

text \<open>
  \<^verbatim>\<open>strconv.ParseInt(s, 10, 64)\<close>, which \<^verbatim>\<open>strconv.Atoi\<close> is on a 64-bit platform: an
  optional sign, at least one digit and nothing else, and a value that fits.
\<close>

definition parse_int :: "string \<Rightarrow> int option" where
  "parse_int s =
     (let (neg, ds) = (case s of [] \<Rightarrow> (False, [])
                       | c # cs \<Rightarrow> if c = CHR ''+'' then (False, cs)
                                   else if c = CHR ''-'' then (True, cs) else (False, c # cs))
      in if ds = [] \<or> \<not> list_all is_digit ds then None
         else let v = (if neg then - int (nat_of_dec ds) else int (nat_of_dec ds))
              in if in_int64 v then Some v else None)"

subsection \<open>strings\<close>

text \<open>\<^verbatim>\<open>strings.Split(s, sep)\<close> for a separator of one byte.\<close>

fun split_on :: "char \<Rightarrow> string \<Rightarrow> string list" where
  "split_on c [] = [[]]"
| "split_on c (x # xs) =
     (if x = c then [] # split_on c xs
      else case split_on c xs of [] \<Rightarrow> [[x]] | p # ps \<Rightarrow> (x # p) # ps)"

text \<open>\<^verbatim>\<open>strings.Join(parts, sep)\<close>.\<close>

fun join :: "string \<Rightarrow> string list \<Rightarrow> string" where
  "join sep [] = []"
| "join sep [p] = p"
| "join sep (p # q # ps) = p @ sep @ join sep (q # ps)"

definition has_prefix :: "string \<Rightarrow> string \<Rightarrow> bool" where
  "has_prefix s p \<longleftrightarrow> take (length p) s = p"

definition has_suffix :: "string \<Rightarrow> string \<Rightarrow> bool" where
  "has_suffix s p \<longleftrightarrow> length p \<le> length s \<and> drop (length s - length p) s = p"

definition trim_prefix :: "string \<Rightarrow> string \<Rightarrow> string" where
  "trim_prefix s p = (if has_prefix s p then drop (length p) s else s)"

text \<open>\<^verbatim>\<open>strings.ReplaceAll(s, old, new)\<close> for an \<^verbatim>\<open>old\<close> of one byte.\<close>

definition replace_all :: "char \<Rightarrow> string \<Rightarrow> string \<Rightarrow> string" where
  "replace_all c new s = concat (map (\<lambda>x. if x = c then new else [x]) s)"

subsection \<open>log/slog: levels\<close>

text \<open>
  \<^verbatim>\<open>Level.UnmarshalText\<close>: a name in any case, and an optional offset behind it. Of the names' letters only I is
  the upper case of a letter that is no ASCII letter, the dotless i.
\<close>

fun upper_name :: "string \<Rightarrow> string" where
  "upper_name (c # d # s) =
     (if c = CHR 0xC4 \<and> d = CHR 0xB1 then CHR ''I'' # upper_name s
      else (if 97 \<le> code c \<and> code c \<le> 122 then byte (code c - 32) else c) # upper_name (d # s))"
| "upper_name [c] = [if 97 \<le> code c \<and> code c \<le> 122 then byte (code c - 32) else c]"
| "upper_name [] = []"

definition level_names :: "(string \<times> int) list" where
  "level_names = [(''DEBUG'', -4), (''INFO'', 0), (''WARN'', 4), (''ERROR'', 8)]"

definition parse_level :: "string \<Rightarrow> int option" where
  "parse_level s =
     (let name = takeWhile (\<lambda>c. c \<noteq> CHR ''+'' \<and> c \<noteq> CHR ''-'') s;
          rest = drop (length name) s
      in case (if rest = [] then Some 0 else parse_int rest) of
           None \<Rightarrow> None
         | Some offset \<Rightarrow> map_option (\<lambda>l. wrap64 (l + offset)) (map_of level_names (upper_name name)))"

subsection \<open>encoding/hex and encoding/binary\<close>

definition hex_digit :: "nat \<Rightarrow> char" where
  "hex_digit n = (if n < 10 then byte (48 + n) else byte (87 + n))"

definition hex_encode :: "bytes \<Rightarrow> string" where
  "hex_encode bs = concat (map (\<lambda>b. [hex_digit (code b div 16), hex_digit (code b mod 16)]) bs)"

text \<open>\<^verbatim>\<open>binary.BigEndian.PutUint64\<close>: the eight bytes of a word, most significant first.\<close>

definition put_uint64 :: "u64 \<Rightarrow> bytes" where
  "put_uint64 w = map (\<lambda>i. byte (unat (drop_bit (8 * i) w) mod 256)) [7, 6, 5, 4, 3, 2, 1, 0]"

subsection \<open>encoding/base64, RawURLEncoding\<close>

definition b64_char :: "nat \<Rightarrow> char" where
  "b64_char n = (if n < 26 then byte (65 + n)
                 else if n < 52 then byte (71 + n)
                 else if n < 62 then byte (n - 4)
                 else if n = 62 then CHR ''-'' else CHR ''_'')"

definition b64_val :: "char \<Rightarrow> nat option" where
  "b64_val c = (let n = code c in
     if 65 \<le> n \<and> n \<le> 90 then Some (n - 65)
     else if 97 \<le> n \<and> n \<le> 122 then Some (n - 71)
     else if 48 \<le> n \<and> n \<le> 57 then Some (n + 4)
     else if c = CHR ''-'' then Some 62
     else if c = CHR ''_'' then Some 63 else None)"

fun b64_encode :: "bytes \<Rightarrow> string" where
  "b64_encode [] = []"
| "b64_encode [a] = [b64_char (code a div 4), b64_char (code a mod 4 * 16)]"
| "b64_encode [a, b] =
     [b64_char (code a div 4), b64_char (code a mod 4 * 16 + code b div 16),
      b64_char (code b mod 16 * 4)]"
| "b64_encode (a # b # c # bs) =
     [b64_char (code a div 4), b64_char (code a mod 4 * 16 + code b div 16),
      b64_char (code b mod 16 * 4 + code c div 64), b64_char (code c mod 64)] @ b64_encode bs"

text \<open>
  The decoder drops carriage returns and line feeds, rejects every other byte outside the alphabet,
  and does not insist that the unused bits of the last digit are zero (the encoding is not strict).
\<close>

fun b64_groups :: "nat list \<Rightarrow> bytes option" where
  "b64_groups [] = Some []"
| "b64_groups [a] = None"
| "b64_groups [a, b] = Some [byte (a * 4 + b div 16)]"
| "b64_groups [a, b, c] = Some [byte (a * 4 + b div 16), byte (b mod 16 * 16 + c div 4)]"
| "b64_groups (a # b # c # d # vs) =
     (case b64_groups vs of None \<Rightarrow> None
      | Some bs \<Rightarrow> Some ([byte (a * 4 + b div 16), byte (b mod 16 * 16 + c div 4),
                           byte (c mod 4 * 64 + d)] @ bs))"

definition b64_decode :: "string \<Rightarrow> bytes option" where
  "b64_decode s =
     (let cs = filter (\<lambda>c. c \<noteq> CHR 0x0D \<and> c \<noteq> CHR 0x0A) s
      in if list_all (\<lambda>c. b64_val c \<noteq> None) cs
         then b64_groups (map (\<lambda>c. the (b64_val c)) cs) else None)"

subsection \<open>Decimal round trip\<close>

lemma digit_facts:
  assumes "d < 10"
  shows "is_digit (digit d)" "digit_val (digit d) = d"
  using assms by (simp_all add: digit_def is_digit_def digit_val_def code_byte)

lemma dec_of_nat_digits: "list_all is_digit (dec_of_nat n)"
  by (induction n rule: dec_of_nat.induct, subst dec_of_nat.simps) (simp add: digit_facts)

lemma dec_of_nat_nonempty [simp]: "dec_of_nat n \<noteq> []"
  by (subst dec_of_nat.simps) simp

lemma nat_of_dec_snoc: "nat_of_dec (s @ [c]) = 10 * nat_of_dec s + digit_val c"
  by (simp add: nat_of_dec_def)

lemma nat_of_dec_of_nat [simp]: "nat_of_dec (dec_of_nat n) = n"
proof (induction n rule: dec_of_nat.induct)
  case (1 n)
  then show ?case
    by (subst dec_of_nat.simps) (simp add: nat_of_dec_snoc digit_facts nat_of_dec_def)
qed

lemma dec_of_nat_inj: "dec_of_nat a = dec_of_nat b \<longleftrightarrow> a = b"
  by (metis nat_of_dec_of_nat)

lemma dec_of_nat_no_zero: "length (dec_of_nat n) > 1 \<Longrightarrow> hd (dec_of_nat n) \<noteq> CHR ''0''"
proof (induction n rule: dec_of_nat.induct)
  case (1 n)
  then have big: "\<not> n < 10" by (subst (asm) (2) dec_of_nat.simps) (auto split: if_splits)
  have "hd (dec_of_nat (n div 10)) \<noteq> CHR ''0''"
  proof (cases "length (dec_of_nat (n div 10)) > 1")
    case True
    then show ?thesis using 1 big by simp
  next
    case False
    then have small: "n div 10 < 10" by (subst (asm) dec_of_nat.simps) (auto split: if_splits)
    then have "dec_of_nat (n div 10) = [digit (n div 10)]" by (subst dec_of_nat.simps) simp
    moreover have "digit (n div 10) \<noteq> CHR ''0''"
      using big small code_byte [of "48 + n div 10"] by (auto simp: digit_def code_def)
    ultimately show ?thesis by simp
  qed
  then show ?case using big by (subst dec_of_nat.simps) (simp add: hd_append)
qed

lemma digit_not_sign:
  assumes "is_digit c"
  shows "c \<noteq> CHR ''+''" "c \<noteq> CHR ''-''" "c \<noteq> CHR ''.''"
  using assms by (auto simp: is_digit_def code_def)

lemma itoa_not_dot: "CHR ''.'' \<notin> set (itoa n)"
  using dec_of_nat_digits digit_not_sign(3) by (auto simp: itoa_def list_all_iff)

lemma parse_digits:
  assumes "ds \<noteq> []" "list_all is_digit ds"
  shows "parse_int ds = (if in_int64 (int (nat_of_dec ds)) then Some (int (nat_of_dec ds)) else None)"
    and "parse_int (CHR ''-'' # ds) =
      (if in_int64 (- int (nat_of_dec ds)) then Some (- int (nat_of_dec ds)) else None)"
  using assms digit_not_sign by (cases ds; auto simp: parse_int_def Let_def)+

lemma parse_itoa: "in_int64 n \<Longrightarrow> parse_int (itoa n) = Some n"
  using parse_digits [OF dec_of_nat_nonempty dec_of_nat_digits] by (simp add: itoa_def)

subsection \<open>Splitting and joining\<close>

lemma split_on_nonempty [simp]: "split_on c s \<noteq> []"
  by (induction s) (auto split: list.splits)

lemma split_on_no_sep: "c \<notin> set s \<Longrightarrow> split_on c s = [s]"
  by (induction s) auto

lemma split_on_sep: "c \<notin> set s \<Longrightarrow> split_on c (s @ c # t) = s # split_on c t"
  by (induction s) auto

lemma split_on_parts: "p \<in> set (split_on c s) \<Longrightarrow> c \<notin> set p"
  by (induction s arbitrary: p) (auto split: if_splits list.splits)

lemma join_split_on: "join [c] (split_on c s) = s"
proof (induction s)
  case (Cons x xs)
  obtain p ps where ps: "split_on c xs = p # ps"
    using split_on_nonempty by (metis list.exhaust)
  with Cons show ?case by (cases ps) auto
qed simp

subsection \<open>Hexadecimal and big-endian lengths\<close>

lemma hex_digit_inj:
  assumes "a < 16" "b < 16"
  shows "hex_digit a = hex_digit b \<longleftrightarrow> a = b"
proof -
  have *: "code (hex_digit n) = (if n < 10 then 48 + n else 87 + n)" if "n < 16" for n
    using that by (simp add: hex_digit_def code_byte)
  have "code (hex_digit a) = code (hex_digit b) \<longleftrightarrow> a = b"
    unfolding * [OF assms(1)] * [OF assms(2)] by auto
  then show ?thesis by (simp add: code_inj)
qed

lemma hex_byte_inj:
  assumes "hex_digit (code a div 16) = hex_digit (code b div 16)"
    "hex_digit (code a mod 16) = hex_digit (code b mod 16)"
  shows "a = b"
proof -
  have "code a div 16 < 16" "code b div 16 < 16"
    using code_less [of a] code_less [of b] by auto
  then have "code a div 16 = code b div 16" "code a mod 16 = code b mod 16"
    using assms hex_digit_inj by auto
  then have "code a = code b"
    by (metis div_mult_mod_eq)
  then show ?thesis by (simp add: code_inj)
qed

lemma hex_encode_inj: "hex_encode a = hex_encode b \<longleftrightarrow> a = b"
proof
  show "hex_encode a = hex_encode b \<Longrightarrow> a = b"
  proof (induction a arbitrary: b)
    case Nil
    then show ?case by (cases b) (auto simp: hex_encode_def)
  next
    case (Cons x xs)
    then obtain y ys where "b = y # ys" by (cases b) (auto simp: hex_encode_def)
    with Cons show ?case by (auto simp: hex_encode_def dest: hex_byte_inj)
  qed
qed simp

lemma length_hex_encode: "length (hex_encode bs) = 2 * length bs"
  by (induction bs) (auto simp: hex_encode_def)

lemma length_put_uint64 [simp]: "length (put_uint64 w) = 8"
  by (simp add: put_uint64_def)

lemma put_uint64_inj: "put_uint64 a = put_uint64 b \<longleftrightarrow> a = b"
proof
  assume "put_uint64 a = put_uint64 b"
  then have "\<forall>i \<in> {0..<8}. byte (unat (drop_bit (8 * i) a) mod 256) = byte (unat (drop_bit (8 * i) b) mod 256)"
    by (simp add: put_uint64_def atLeastLessThan_nat_numeral)
  then have *: "unat (drop_bit (8 * i) a) mod 256 = unat (drop_bit (8 * i) b) mod 256" if "i < 8" for i
    using that code_byte by (metis atLeastLessThan_iff mod_less_divisor zero_le zero_less_numeral)
  show "a = b"
  proof (rule bit_word_eqI)
    fix n
    assume "n < LENGTH(64)"
    then have "n div 8 < 8" by auto
    have "bit w n = bit (take_bit 8 (unat (drop_bit (8 * (n div 8)) w))) (n mod 8)" for w :: u64
      using \<open>n < LENGTH(64)\<close> by (simp add: bit_take_bit_iff bit_unsigned_iff bit_drop_bit_eq)
    then have "bit w n = bit (unat (drop_bit (8 * (n div 8)) w) mod 256) (n mod 8)" for w :: u64
      by (simp add: take_bit_eq_mod)
    then show "bit a n = bit b n"
      using * [OF \<open>n div 8 < 8\<close>] by simp
  qed
qed simp

subsection \<open>Base64 round trip\<close>

lemma b64_val_char: "n < 64 \<Longrightarrow> b64_val (b64_char n) = Some n"
proof -
  assume "n < 64"
  then consider "n < 26" | "26 \<le> n" "n < 52" | "52 \<le> n" "n < 62" | "n = 62" | "n = 63"
    by linarith
  then show ?thesis
    by cases (simp_all add: b64_char_def b64_val_def code_byte Let_def, auto simp: code_def)
qed

lemma b64_char_alphabet:
  "b64_char n \<noteq> CHR ''.''" "b64_char n \<noteq> CHR 0x0D" "b64_char n \<noteq> CHR 0x0A"
proof -
  have "code (b64_char n) \<ge> 45 \<and> code (b64_char n) \<noteq> 46"
  proof -
    consider "n < 26" | "26 \<le> n" "n < 52" | "52 \<le> n" "n < 62" | "n \<ge> 62" by linarith
    then show ?thesis
      by cases (simp_all add: b64_char_def code_byte, auto simp: code_def)
  qed
  then show "b64_char n \<noteq> CHR ''.''" "b64_char n \<noteq> CHR 0x0D" "b64_char n \<noteq> CHR 0x0A"
    by (auto simp: code_def)
qed

lemma b64_encode_alphabet:
  "c \<in> set (b64_encode bs) \<Longrightarrow> c \<noteq> CHR ''.'' \<and> c \<noteq> CHR 0x0D \<and> c \<noteq> CHR 0x0A"
  by (induction bs rule: b64_encode.induct) (auto simp: b64_char_alphabet)

lemma b64_filter_encode:
  "filter (\<lambda>c. c \<noteq> CHR 0x0D \<and> c \<noteq> CHR 0x0A) (b64_encode bs) = b64_encode bs"
  by (rule filter_True) (use b64_encode_alphabet in blast)

lemma code_bounds:
  "code c div 4 < 64" "code c mod 4 * 16 < 64" "code c mod 16 * 4 < 64"
  "code a mod 4 * 16 + code c div 16 < 64" "code a mod 16 * 4 + code c div 64 < 64"
  using code_less [of c] by auto

lemma code_regroup:
  "code c div 16 div 16 = 0" "code c div 64 div 4 = 0"
  "code c div 16 mod 16 = code c div 16" "code c div 64 mod 4 = code c div 64"
  using code_less [of c] by auto

lemma b64_vals_encode:
  "list_all (\<lambda>c. \<exists>y. b64_val c = Some y) (b64_encode bs)"
  "b64_groups (map (\<lambda>c. the (b64_val c)) (b64_encode bs)) = Some bs"
  by (induction bs rule: b64_encode.induct)
    (simp_all add: b64_val_char code_bounds code_regroup)

lemma b64_decode_encode: "b64_decode (b64_encode bs) = Some bs"
  by (simp add: b64_decode_def Let_def b64_filter_encode b64_vals_encode)

end
