(* ===== verification/Go_Utf8.thy ===== *)
theory Go_Utf8
  imports Go_Strings
begin

text \<open>
  Go's \<^verbatim>\<open>unicode/utf8\<close>, and the two functions of \<^verbatim>\<open>strings\<close> that go through it,
  \<^verbatim>\<open>strings.TrimSpace\<close> and \<^verbatim>\<open>strings.Map\<close>. Ranging over a string yields one rune
  per well-formed sequence and \<^verbatim>\<open>utf8.RuneError\<close> (U+FFFD) of width one for every byte that
  starts no well-formed sequence. The facts: the chunks of a string concatenate to it, encoding and
  decoding are inverse on valid runes, and re-encoding the runes of a string makes it valid.
\<close>

subsection \<open>Decoding one rune\<close>

definition rune_error :: nat where
  "rune_error = 0xFFFD"

definition in_range :: "nat \<Rightarrow> nat \<Rightarrow> char \<Rightarrow> bool" where
  "in_range lo hi c \<longleftrightarrow> lo \<le> code c \<and> code c \<le> hi"

definition cont_byte :: "char \<Rightarrow> bool" where
  "cont_byte c \<longleftrightarrow> in_range 0x80 0xBF c"

text \<open>The admissible second byte after a given first byte.\<close>

definition second_ok :: "nat \<Rightarrow> char \<Rightarrow> bool" where
  "second_ok x c \<longleftrightarrow>
     in_range (if x = 0xE0 then 0xA0 else if x = 0xF0 then 0x90 else 0x80)
              (if x = 0xED then 0x9F else if x = 0xF4 then 0x8F else 0xBF) c"

text \<open>\<^verbatim>\<open>utf8.DecodeRuneInString\<close>: the rune and its width in bytes.\<close>

definition decode_rune :: "string \<Rightarrow> nat \<times> nat" where
  "decode_rune s =
     (case s of
        [] \<Rightarrow> (rune_error, 0)
      | a # t \<Rightarrow>
         let x = code a; bad = (rune_error, 1) in
         if x < 0x80 then (x, 1)
         else if 0xC2 \<le> x \<and> x \<le> 0xDF then
           (case t of b # _ \<Rightarrow>
              if cont_byte b then ((x - 0xC0) * 64 + (code b - 0x80), 2) else bad
            | _ \<Rightarrow> bad)
         else if 0xE0 \<le> x \<and> x \<le> 0xEF then
           (case t of b # c # _ \<Rightarrow>
              if second_ok x b \<and> cont_byte c
              then ((x - 0xE0) * 4096 + (code b - 0x80) * 64 + (code c - 0x80), 3) else bad
            | _ \<Rightarrow> bad)
         else if 0xF0 \<le> x \<and> x \<le> 0xF4 then
           (case t of b # c # d # _ \<Rightarrow>
              if second_ok x b \<and> cont_byte c \<and> cont_byte d
              then ((x - 0xF0) * 262144 + (code b - 0x80) * 4096 + (code c - 0x80) * 64
                    + (code d - 0x80), 4) else bad
            | _ \<Rightarrow> bad)
         else bad)"

subsection \<open>Encoding one rune\<close>

definition valid_rune :: "nat \<Rightarrow> bool" where
  "valid_rune r \<longleftrightarrow> r < 0xD800 \<or> (0xE000 \<le> r \<and> r < 0x110000)"

text \<open>\<^verbatim>\<open>utf8.AppendRune\<close>: a rune that is not a valid code point is written as U+FFFD.\<close>

definition encode_rune :: "nat \<Rightarrow> string" where
  "encode_rune q =
     (let r = (if valid_rune q then q else rune_error) in
      if r < 0x80 then [byte r]
      else if r < 0x800 then [byte (0xC0 + r div 64), byte (0x80 + r mod 64)]
      else if r < 0x10000 then
        [byte (0xE0 + r div 4096), byte (0x80 + r div 64 mod 64), byte (0x80 + r mod 64)]
      else [byte (0xF0 + r div 262144), byte (0x80 + r div 4096 mod 64),
            byte (0x80 + r div 64 mod 64), byte (0x80 + r mod 64)])"

subsection \<open>Ranging over a string\<close>

lemma decode_rune_width:
  "s \<noteq> [] \<Longrightarrow> 1 \<le> snd (decode_rune s) \<and> snd (decode_rune s) \<le> length s"
  by (simp add: decode_rune_def Let_def split: list.splits)

function utf8_chunks :: "string \<Rightarrow> (nat \<times> string) list" where
  "utf8_chunks s =
     (if s = [] then []
      else let w = snd (decode_rune s)
           in (fst (decode_rune s), take w s) # utf8_chunks (drop w s))"
  by pat_completeness auto
termination
proof (relation "measure length")
  fix s :: string and w
  assume "s \<noteq> []" "w = snd (decode_rune s)"
  then have "1 \<le> w" "w \<le> length s" using decode_rune_width by auto
  then show "(drop w s, s) \<in> measure length" by simp
qed simp

declare utf8_chunks.simps [simp del]

definition chunk_ok :: "nat \<times> string \<Rightarrow> bool" where
  "chunk_ok rc \<longleftrightarrow> \<not> (fst rc = rune_error \<and> length (snd rc) = 1)"

text \<open>\<^verbatim>\<open>utf8.ValidString\<close>.\<close>

definition utf8_valid :: "string \<Rightarrow> bool" where
  "utf8_valid s \<longleftrightarrow> list_all chunk_ok (utf8_chunks s)"

text \<open>The runes of a string written back: every ill-formed byte has become U+FFFD.\<close>

definition utf8_coerce :: "string \<Rightarrow> string" where
  "utf8_coerce s = concat (map (\<lambda>rc. encode_rune (fst rc)) (utf8_chunks s))"

text \<open>\<^verbatim>\<open>strings.Map(f, s)\<close> for an \<^verbatim>\<open>f\<close> that drops no rune.\<close>

definition strings_map :: "(nat \<Rightarrow> nat) \<Rightarrow> string \<Rightarrow> string" where
  "strings_map f s = concat (map (\<lambda>rc. encode_rune (f (fst rc))) (utf8_chunks s))"

text \<open>\<^verbatim>\<open>unicode.IsSpace\<close>.\<close>

definition is_space_rune :: "nat \<Rightarrow> bool" where
  "is_space_rune r \<longleftrightarrow>
     r \<in> {0x09, 0x0A, 0x0B, 0x0C, 0x0D, 0x20, 0x85, 0xA0, 0x1680, 0x2028, 0x2029, 0x202F, 0x205F, 0x3000}
     \<or> (0x2000 \<le> r \<and> r \<le> 0x200A)"

text \<open>\<^verbatim>\<open>strings.TrimSpace\<close>.\<close>

definition trim_space :: "string \<Rightarrow> string" where
  "trim_space s =
     (let sp = (\<lambda>rc :: nat \<times> string. is_space_rune (fst rc))
      in concat (map snd (rev (dropWhile sp (rev (dropWhile sp (utf8_chunks s)))))))"

definition ascii :: "string \<Rightarrow> bool" where
  "ascii s \<longleftrightarrow> list_all (\<lambda>c. code c < 0x80) s"

definition lower_ascii :: "char \<Rightarrow> char" where
  "lower_ascii c = (if 65 \<le> code c \<and> code c \<le> 90 then byte (code c + 32) else c)"

text \<open>
  \<^verbatim>\<open>strings.ToLower\<close>. The parameter is \<^verbatim>\<open>unicode.ToLower\<close>, the case table of the
  Unicode standard, which the function consults only for strings that are not plain ASCII.
\<close>

definition to_lower :: "(nat \<Rightarrow> nat) \<Rightarrow> string \<Rightarrow> string" where
  "to_lower lower s = (if ascii s then map lower_ascii s else strings_map lower s)"

text \<open>
  \<^verbatim>\<open>%q\<close>, which is \<^verbatim>\<open>strconv.Quote\<close>. Which runes beyond ASCII are printable is a table of
  the Unicode standard, the parameter.
\<close>

definition quote_rune :: "(nat \<Rightarrow> bool) \<Rightarrow> nat \<times> string \<Rightarrow> string" where
  "quote_rune printable rc =
     (let r = fst rc; bs = CHR 0x5C; hex = (\<lambda>k. map (\<lambda>i. hex_digit (r div 16 ^ i mod 16)) (rev [0..<k])) in
      if \<not> chunk_ok rc then bs # CHR ''x'' # hex_encode (snd rc)
      else if r = 0x22 \<or> r = 0x5C then [bs, byte r]
      else if (if r < 0x80 then 0x20 \<le> r \<and> r < 0x7F else printable r) then snd rc
      else if r = 7 then [bs, CHR ''a''] else if r = 8 then [bs, CHR ''b'']
      else if r = 12 then [bs, CHR ''f''] else if r = 10 then [bs, CHR ''n'']
      else if r = 13 then [bs, CHR ''r''] else if r = 9 then [bs, CHR ''t'']
      else if r = 11 then [bs, CHR ''v'']
      else if r < 0x20 \<or> r = 0x7F then bs # CHR ''x'' # hex 2
      else if r < 0x10000 then bs # CHR ''u'' # hex 4
      else bs # CHR ''U'' # hex 8)"

definition go_quote :: "(nat \<Rightarrow> bool) \<Rightarrow> string \<Rightarrow> string" where
  "go_quote printable s = CHR 0x22 # concat (map (quote_rune printable) (utf8_chunks s)) @ [CHR 0x22]"

subsection \<open>Chunks of a string\<close>

lemma utf8_chunks_Nil [simp]: "utf8_chunks [] = []"
  by (simp add: utf8_chunks.simps)

lemma utf8_chunks_step:
  assumes "decode_rune s = (r, w)" "s \<noteq> []"
  shows "utf8_chunks s = (r, take w s) # utf8_chunks (drop w s)"
  using assms by (subst utf8_chunks.simps) simp

lemma concat_chunks: "concat (map snd (utf8_chunks s)) = s"
proof (induction s rule: utf8_chunks.induct)
  case (1 s)
  then show ?case
    by (cases "s = []") (simp_all add: utf8_chunks.simps [of s] Let_def)
qed

subsection \<open>Encoding and decoding are inverse\<close>

lemma six_bits:
  fixes a b c d :: nat
  assumes "b < 64" "c < 64" "d < 64"
  shows "(a * 64 + b) div 64 = a" "(a * 64 + b) mod 64 = b"
    "(a * 4096 + b * 64 + c) div 4096 = a" "(a * 4096 + b * 64 + c) div 64 mod 64 = b"
    "(a * 4096 + b * 64 + c) mod 64 = c"
    "(a * 262144 + b * 4096 + c * 64 + d) div 262144 = a"
    "(a * 262144 + b * 4096 + c * 64 + d) div 4096 mod 64 = b"
    "(a * 262144 + b * 4096 + c * 64 + d) div 64 mod 64 = c"
    "(a * 262144 + b * 4096 + c * 64 + d) mod 64 = d"
proof -
  have *: "(q * 64 + x) div 64 = q" "(q * 64 + x) mod 64 = x" if "x < 64" for q x :: nat
    using that by simp_all
  have e: "a * 4096 + b * 64 + c = (a * 64 + b) * 64 + c"
    "a * 262144 + b * 4096 + c * 64 + d = ((a * 64 + b) * 64 + c) * 64 + d"
    by simp_all
  have d: "n div 4096 = n div 64 div 64" "n div 262144 = n div 64 div 64 div 64" for n :: nat
    by (simp_all add: div_mult2_eq [symmetric])
  show "(a * 64 + b) div 64 = a" "(a * 64 + b) mod 64 = b"
    "(a * 4096 + b * 64 + c) div 4096 = a" "(a * 4096 + b * 64 + c) div 64 mod 64 = b"
    "(a * 4096 + b * 64 + c) mod 64 = c"
    "(a * 262144 + b * 4096 + c * 64 + d) div 262144 = a"
    "(a * 262144 + b * 4096 + c * 64 + d) div 4096 mod 64 = b"
    "(a * 262144 + b * 4096 + c * 64 + d) div 64 mod 64 = c"
    "(a * 262144 + b * 4096 + c * 64 + d) mod 64 = d"
    unfolding e d * [OF assms(1)] * [OF assms(2)] * [OF assms(3)] by (rule refl)+
qed

lemma cont_byteE:
  assumes "cont_byte c"
  obtains n where "n < 64" "c = byte (0x80 + n)" "code c = 0x80 + n"
proof -
  have "0x80 \<le> code c" "code c \<le> 0xBF"
    using assms by (auto simp: cont_byte_def in_range_def)
  then show thesis
    using that [of "code c - 0x80"] by simp
qed

lemma cont_byteI: "n < 64 \<Longrightarrow> cont_byte (byte (0x80 + n))"
  by (simp add: cont_byte_def in_range_def code_byte)

lemma second_ok_cont: "second_ok x c \<Longrightarrow> cont_byte c"
  by (auto simp: second_ok_def cont_byte_def in_range_def split: if_splits)

lemma leadE:
  assumes "lo \<le> code a"
  obtains n where "a = byte (lo + n)" "code a = lo + n"
  using that [of "code a - lo"] assms by simp

lemma decode_encode_2:
  assumes "0xC2 \<le> code a" "code a \<le> 0xDF" "cont_byte b"
  shows "valid_rune ((code a - 0xC0) * 64 + (code b - 0x80))"
    and "encode_rune ((code a - 0xC0) * 64 + (code b - 0x80)) = [a, b]"
proof -
  obtain m where m: "a = byte (0xC0 + m)" "code a = 0xC0 + m"
    by (rule leadE [of "0xC0" a]) (use assms(1) in auto)
  obtain n where n: "n < 64" "b = byte (0x80 + n)" "code b = 0x80 + n"
    using assms(3) by (rule cont_byteE)
  show "valid_rune ((code a - 0xC0) * 64 + (code b - 0x80))"
    using assms m n by (simp add: valid_rune_def)
  then show "encode_rune ((code a - 0xC0) * 64 + (code b - 0x80)) = [a, b]"
    using assms m n by (simp add: encode_rune_def Let_def six_bits)
qed

lemma decode_encode_3:
  assumes "0xE0 \<le> code a" "code a \<le> 0xEF" "second_ok (code a) b" "cont_byte c"
  shows "valid_rune ((code a - 0xE0) * 4096 + (code b - 0x80) * 64 + (code c - 0x80))"
    and "encode_rune ((code a - 0xE0) * 4096 + (code b - 0x80) * 64 + (code c - 0x80)) = [a, b, c]"
proof -
  obtain l where l: "a = byte (0xE0 + l)" "code a = 0xE0 + l"
    using assms(1) by (auto elim: leadE [of "0xE0" a])
  obtain m where m: "m < 64" "b = byte (0x80 + m)" "code b = 0x80 + m"
    using assms(3) second_ok_cont by (blast elim: cont_byteE)
  obtain n where n: "n < 64" "c = byte (0x80 + n)" "code c = 0x80 + n"
    using assms(4) by (rule cont_byteE)
  have lm: "l < 16" "l = 0 \<longrightarrow> 32 \<le> m" "l = 13 \<longrightarrow> m < 32"
    using assms(2,3) l m by (auto simp: second_ok_def in_range_def split: if_splits)
  then consider "l = 0" "32 \<le> m" | "1 \<le> l" "l < 13" | "l = 13" "m < 32" | "14 \<le> l" "l < 16"
    by linarith
  then have "valid_rune (l * 4096 + m * 64 + n) \<and> 0x800 \<le> l * 4096 + m * 64 + n
      \<and> l * 4096 + m * 64 + n < 0x10000"
    by cases (use m(1) n(1) in \<open>simp_all add: valid_rune_def\<close>)
  then show "valid_rune ((code a - 0xE0) * 4096 + (code b - 0x80) * 64 + (code c - 0x80))"
    "encode_rune ((code a - 0xE0) * 4096 + (code b - 0x80) * 64 + (code c - 0x80)) = [a, b, c]"
    using l m n by (simp_all add: encode_rune_def Let_def six_bits)
qed

lemma decode_encode_4:
  assumes "0xF0 \<le> code a" "code a \<le> 0xF4" "second_ok (code a) b" "cont_byte c" "cont_byte d"
  defines "r \<equiv> (code a - 0xF0) * 262144 + (code b - 0x80) * 4096 + (code c - 0x80) * 64
     + (code d - 0x80)"
  shows "valid_rune r" and "encode_rune r = [a, b, c, d]"
proof -
  obtain l where l: "a = byte (0xF0 + l)" "code a = 0xF0 + l"
    using assms(1) by (auto elim: leadE [of "0xF0" a])
  obtain m where m: "m < 64" "b = byte (0x80 + m)" "code b = 0x80 + m"
    using assms(3) second_ok_cont by (blast elim: cont_byteE)
  obtain n where n: "n < 64" "c = byte (0x80 + n)" "code c = 0x80 + n"
    using assms(4) by (rule cont_byteE)
  obtain k where k: "k < 64" "d = byte (0x80 + k)" "code d = 0x80 + k"
    using assms(5) by (rule cont_byteE)
  have lm: "l < 5" "l = 0 \<longrightarrow> 16 \<le> m" "l = 4 \<longrightarrow> m < 16"
    using assms(2,3) l m by (auto simp: second_ok_def in_range_def split: if_splits)
  have r: "r = l * 262144 + m * 4096 + n * 64 + k"
    using l m n k by (simp add: r_def)
  from lm consider "l = 0" "16 \<le> m" | "1 \<le> l" "l < 4" | "l = 4" "m < 16" by linarith
  then have "0x10000 \<le> r \<and> r < 0x110000"
    by cases (use m(1) n(1) k(1) in \<open>simp_all add: r\<close>)
  then show "valid_rune r" "encode_rune r = [a, b, c, d]"
    using l m n k unfolding r by (simp_all add: valid_rune_def encode_rune_def Let_def six_bits)
qed

lemmas decode_encode = decode_encode_2 decode_encode_3 decode_encode_4

text \<open>A string starts with an ill-formed byte or with the encoding of a valid rune.\<close>

lemma decode_rune_cases:
  assumes "s \<noteq> []" "decode_rune s = (r, w)"
  shows "r = rune_error \<and> w = 1 \<or> valid_rune r \<and> take w s = encode_rune r"
proof -
  obtain a t where s: "s = a # t" using assms(1) by (cases s) auto
  have ascii: "valid_rune (code a) \<and> encode_rune (code a) = [a]" if "code a < 128"
    using that by (simp add: valid_rune_def encode_rune_def)
  show ?thesis
    using assms(2) ascii unfolding s decode_rune_def
    by (simp add: Let_def split: if_splits list.splits)
       (use decode_encode in \<open>fastforce+\<close>)
qed

text \<open>And conversely: decoding reads an encoded rune back, whatever follows it.\<close>

lemma second_okI:
  "l < 16 \<Longrightarrow> n < 64 \<Longrightarrow> (l = 0 \<longrightarrow> 32 \<le> n) \<Longrightarrow> (l = 13 \<longrightarrow> n < 32) \<Longrightarrow>
     second_ok (0xE0 + l) (byte (0x80 + n))"
  "l < 5 \<Longrightarrow> n < 64 \<Longrightarrow> (l = 0 \<longrightarrow> 16 \<le> n) \<Longrightarrow> (l = 4 \<longrightarrow> n < 16) \<Longrightarrow>
     second_ok (0xF0 + l) (byte (0x80 + n))"
  by (auto simp: second_ok_def in_range_def code_byte)

lemma rune_digits:
  "(r :: nat) = r div 4096 * 4096 + r div 64 mod 64 * 64 + r mod 64"
  "(r :: nat) = r div 262144 * 262144 + r div 4096 mod 64 * 4096 + r div 64 mod 64 * 64 + r mod 64"
proof -
  have *: "n = n div 64 * 64 + n mod 64" for n :: nat by simp
  have d: "n div 4096 = n div 64 div 64" "n div 262144 = n div 64 div 64 div 64" for n :: nat
    by (simp_all add: div_mult2_eq [symmetric])
  show "r = r div 4096 * 4096 + r div 64 mod 64 * 64 + r mod 64"
    unfolding d using * [of r] * [of "r div 64"] by linarith
  show "r = r div 262144 * 262144 + r div 4096 mod 64 * 4096 + r div 64 mod 64 * 64 + r mod 64"
    unfolding d using * [of r] * [of "r div 64"] * [of "r div 64 div 64"] by linarith
qed

lemma decode_rune_encode:
  assumes "valid_rune r"
  shows "decode_rune (encode_rune r @ t) = (r, length (encode_rune r))"
proof -
  consider "r < 0x80" | "0x80 \<le> r" "r < 0x800" | "0x800 \<le> r" "r < 0x10000" | "0x10000 \<le> r" "r < 0x110000"
    using assms unfolding valid_rune_def by linarith
  then show ?thesis
  proof cases
    case 1
    then show ?thesis using assms by (simp add: encode_rune_def decode_rune_def code_byte)
  next
    case 2
    then have "2 \<le> r div 64" "r div 64 < 32" by auto
    with 2 show ?thesis
      using assms by (simp add: encode_rune_def decode_rune_def code_byte cont_byteI)
  next
    case 3
    define l m n where lmn: "l = r div 4096" "m = r div 64 mod 64" "n = r mod 64"
    have r: "r = l * 4096 + m * 64 + n" and mn: "m < 64" "n < 64"
      using rune_digits(1) [of r] by (simp_all add: lmn)
    have "l < 16" using 3 r by linarith
    moreover have "l = 0 \<longrightarrow> 32 \<le> m" using 3 r mn by auto
    moreover have "l = 13 \<longrightarrow> m < 32" using assms r mn unfolding valid_rune_def by auto
    moreover have "encode_rune r = [byte (0xE0 + l), byte (0x80 + m), byte (0x80 + n)]"
      using assms 3 by (simp add: encode_rune_def lmn)
    ultimately show ?thesis
      using mn r by (simp add: decode_rune_def code_byte cont_byteI second_okI)
  next
    case 4
    define l m n k where lmn: "l = r div 262144" "m = r div 4096 mod 64" "n = r div 64 mod 64" "k = r mod 64"
    have r: "r = l * 262144 + m * 4096 + n * 64 + k" and mn: "m < 64" "n < 64" "k < 64"
      using rune_digits(2) [of r] by (simp_all add: lmn)
    have "l < 5" using 4 r by linarith
    moreover have "l = 0 \<longrightarrow> 16 \<le> m" "l = 4 \<longrightarrow> m < 16" using 4 r mn by auto
    moreover have "encode_rune r = [byte (0xF0 + l), byte (0x80 + m), byte (0x80 + n), byte (0x80 + k)]"
      using assms 4 by (simp add: encode_rune_def lmn)
    ultimately show ?thesis
      using mn r by (simp add: decode_rune_def code_byte cont_byteI second_okI)
  qed
qed

lemma encode_rune_nonempty [simp]: "encode_rune r \<noteq> []"
  by (simp add: encode_rune_def Let_def)

lemma utf8_chunks_encode:
  "valid_rune r \<Longrightarrow> utf8_chunks (encode_rune r @ t) = (r, encode_rune r) # utf8_chunks t"
  by (simp add: utf8_chunks_step [OF decode_rune_encode])

lemma utf8_chunks_runes:
  "list_all valid_rune rs \<Longrightarrow>
     utf8_chunks (concat (map encode_rune rs)) = map (\<lambda>r. (r, encode_rune r)) rs"
  by (induction rs) (simp_all add: utf8_chunks_encode)

lemma chunk_ok_encode: "valid_rune r \<Longrightarrow> chunk_ok (r, encode_rune r)"
  by (auto simp: chunk_ok_def encode_rune_def Let_def rune_error_def)

text \<open>Every chunk holds a valid rune, and a chunk that is not an error holds its encoding.\<close>

lemma utf8_chunks_cases:
  assumes "(r, c) \<in> set (utf8_chunks s)"
  shows "valid_rune r" "chunk_ok (r, c) \<Longrightarrow> c = encode_rune r"
proof -
  have "valid_rune r \<and> (chunk_ok (r, c) \<longrightarrow> c = encode_rune r)"
    using assms
  proof (induction s rule: utf8_chunks.induct)
    case (1 s)
    show ?case
    proof (cases "s = []")
      case False
      obtain q w where qw: "decode_rune s = (q, w)" by fastforce
      have "length (take w s) = w" using decode_rune_width [OF False] qw by simp
      moreover have "valid_rune rune_error" by (simp add: valid_rune_def rune_error_def)
      ultimately show ?thesis
        using 1 False qw decode_rune_cases [OF False qw]
        by (auto simp: utf8_chunks_step [OF qw False] chunk_ok_def)
    qed (use 1 in simp)
  qed
  then show "valid_rune r" "chunk_ok (r, c) \<Longrightarrow> c = encode_rune r" by auto
qed

lemma utf8_coerce_valid [simp]: "utf8_valid (utf8_coerce s)"
proof -
  have "list_all valid_rune (map fst (utf8_chunks s))"
    using utf8_chunks_cases(1) by (auto simp: list_all_iff)
  from utf8_chunks_runes [OF this] show ?thesis
    using utf8_chunks_cases(1) by (auto simp: utf8_valid_def utf8_coerce_def list_all_iff comp_def
        intro!: chunk_ok_encode)
qed

lemma utf8_coerce_id: "utf8_valid s \<Longrightarrow> utf8_coerce s = s"
proof -
  assume "utf8_valid s"
  then have "map (\<lambda>rc. encode_rune (fst rc)) (utf8_chunks s) = map snd (utf8_chunks s)"
    using utf8_chunks_cases(2) by (auto simp: utf8_valid_def list_all_iff)
  then show ?thesis unfolding utf8_coerce_def by (metis concat_chunks)
qed

text \<open>Induction over the runes of a valid string.\<close>

lemma utf8_valid_Nil [simp]: "utf8_valid []"
  by (simp add: utf8_valid_def)

lemma utf8_valid_encode: "valid_rune r \<Longrightarrow> utf8_valid (encode_rune r @ t) \<longleftrightarrow> utf8_valid t"
  by (simp add: utf8_valid_def utf8_chunks_encode chunk_ok_encode)

lemma utf8_valid_runes:
  assumes "utf8_valid s"
  obtains rs where "list_all valid_rune rs" "s = concat (map encode_rune rs)"
proof
  show "list_all valid_rune (map fst (utf8_chunks s))"
    using utf8_chunks_cases(1) by (auto simp: list_all_iff)
  show "s = concat (map encode_rune (map fst (utf8_chunks s)))"
    using utf8_coerce_id [OF assms] by (simp add: utf8_coerce_def comp_def)
qed

lemma utf8_valid_concat: "list_all valid_rune rs \<Longrightarrow> utf8_valid (concat (map encode_rune rs))"
  by (induction rs) (simp_all add: utf8_valid_encode)

lemma utf8_valid_append:
  assumes "utf8_valid s" "utf8_valid t"
  shows "utf8_valid (s @ t)"
proof -
  obtain rs where "list_all valid_rune rs" "s = concat (map encode_rune rs)"
    using assms(1) by (rule utf8_valid_runes)
  moreover obtain qs where "list_all valid_rune qs" "t = concat (map encode_rune qs)"
    using assms(2) by (rule utf8_valid_runes)
  ultimately show ?thesis
    using utf8_valid_concat [of "rs @ qs"] by simp
qed

lemma utf8_valid_ascii: "ascii s \<Longrightarrow> utf8_valid s"
proof (induction s)
  case (Cons c s)
  then have "[c] = encode_rune (code c)" "valid_rune (code c)"
    by (simp_all add: ascii_def encode_rune_def valid_rune_def)
  then show ?case
    using Cons utf8_valid_encode [of "code c" s] by (metis append_Cons append_Nil ascii_def list.pred_inject(2))
qed simp

subsection \<open>Printable ASCII\<close>

lemma utf8_chunks_ascii: "ascii s \<Longrightarrow> utf8_chunks s = map (\<lambda>c. (code c, [c])) s"
proof (induction s)
  case (Cons c s)
  then have "decode_rune (c # s) = (code c, 1)" by (simp add: ascii_def decode_rune_def)
  from utf8_chunks_step [OF this] show ?case using Cons by (simp add: ascii_def)
qed simp

definition graphic :: "string \<Rightarrow> bool" where
  "graphic s \<longleftrightarrow> list_all (\<lambda>c. 0x20 < code c \<and> code c < 0x7F) s"

lemma graphic_chunks:
  assumes "graphic s"
  shows "utf8_chunks s = map (\<lambda>c. (code c, [c])) s" "\<And>c. c \<in> set s \<Longrightarrow> \<not> is_space_rune (code c)"
proof -
  show "utf8_chunks s = map (\<lambda>c. (code c, [c])) s"
    using assms by (intro utf8_chunks_ascii) (auto simp: graphic_def ascii_def list_all_iff)
  show "\<not> is_space_rune (code c)" if "c \<in> set s" for c
    using assms that by (auto simp: graphic_def list_all_iff is_space_rune_def)
qed

lemma concat_singles: "concat (map (\<lambda>c. [c]) s) = s"
  by (induction s) auto

lemma trim_space_graphic: "graphic s \<Longrightarrow> trim_space s = s"
proof -
  assume g: "graphic s"
  have drop: "dropWhile (\<lambda>rc. is_space_rune (fst rc)) (map (\<lambda>c. (code c, [c])) t) = map (\<lambda>c. (code c, [c])) t"
    if "set t \<subseteq> set s" for t
    using graphic_chunks(2) [OF g] that by (cases t) auto
  show ?thesis
    unfolding trim_space_def Let_def graphic_chunks(1) [OF g] drop [OF subset_refl] rev_map
    using drop [of "rev s"] by (simp add: rev_map [symmetric] comp_def concat_singles)
qed

end
