(* ===== verification/Go_Json.thy ===== *)
theory Go_Json
  imports Go_Utf8
begin

text \<open>
  Go's \<^verbatim>\<open>encoding/json\<close> as the program uses it: marshalling of the dynamic values an audit
  payload holds, and decoding with \<^verbatim>\<open>UseNumber\<close>.

  A value of Go's type \<^verbatim>\<open>any\<close> is a \<open>goval\<close>. A floating-point number is represented
  by the text \<^verbatim>\<open>encoding/json\<close> writes for it (the shortest decimal that reads back as the
  same number), and by \<^const>\<open>None\<close> when it is not finite, which the encoder rejects. A value of
  any type the program does not name (a struct, a named type, a slice of strings) is represented by
  what \<^verbatim>\<open>json.Marshal\<close> makes of it, \<^const>\<open>None\<close> when it cannot be marshalled.
\<close>

datatype goval =
    GNil
  | GBool bool
  | GString string
  | GNumber string
  | GFloat "string option"
  | GInt int
  | GSlice "goval list"
  | GNilSlice
  | GMap "(string \<times> goval) list"
  | GStrMap "(string \<times> string) list"
  | GNilMap
  | GOther "string option"

datatype json_error = EmptyNumber | UnsupportedValue | SyntaxError | NotObject

subsection \<open>Strings\<close>

definition backslash :: char where "backslash = CHR 0x5C"
definition dquote :: char where "dquote = CHR 0x22"

definition u_escape :: "nat \<Rightarrow> string" where
  "u_escape r = [backslash, CHR ''u'', hex_digit (r div 4096), hex_digit (r div 256 mod 16),
                 hex_digit (r div 16 mod 16), hex_digit (r mod 16)]"

text \<open>
  One rune of a quoted string. The flag is the encoder's \<^verbatim>\<open>escapeHTML\<close>, on for
  \<^verbatim>\<open>json.Marshal\<close> and switched off by \<^verbatim>\<open>SetEscapeHTML(false)\<close>.
\<close>

definition quote_ascii :: "bool \<Rightarrow> nat \<Rightarrow> string" where
  "quote_ascii html r =
     (if r = 0x5C \<or> r = 0x22 then [backslash, byte r]
      else if r = 8 then [backslash, CHR ''b''] else if r = 12 then [backslash, CHR ''f'']
      else if r = 10 then [backslash, CHR ''n''] else if r = 13 then [backslash, CHR ''r'']
      else if r = 9 then [backslash, CHR ''t'']
      else if r < 0x20 \<or> html \<and> (r = 0x3C \<or> r = 0x3E \<or> r = 0x26) then u_escape r
      else [byte r])"

definition quote_chunk :: "bool \<Rightarrow> nat \<times> string \<Rightarrow> string" where
  "quote_chunk html rc =
     (if fst rc < 0x80 then quote_ascii html (fst rc)
      else if \<not> chunk_ok rc then u_escape 0xFFFD
      else if fst rc = 0x2028 \<or> fst rc = 0x2029 then u_escape (fst rc)
      else snd rc)"

definition quote_body :: "bool \<Rightarrow> string \<Rightarrow> string" where
  "quote_body html s = concat (map (quote_chunk html) (utf8_chunks s))"

definition json_quote :: "bool \<Rightarrow> string \<Rightarrow> string" where
  "json_quote html s = dquote # quote_body html s @ [dquote]"

definition hex_val :: "char \<Rightarrow> nat option" where
  "hex_val c = (let n = code c in
     if 48 \<le> n \<and> n \<le> 57 then Some (n - 48)
     else if 97 \<le> n \<and> n \<le> 102 then Some (n - 87)
     else if 65 \<le> n \<and> n \<le> 70 then Some (n - 55) else None)"

fun hex4 :: "string \<Rightarrow> (nat \<times> string) option" where
  "hex4 (a # b # c # d # s) =
     (case (hex_val a, hex_val b, hex_val c, hex_val d) of
        (Some w, Some x, Some y, Some z) \<Rightarrow> Some (w * 4096 + x * 256 + y * 16 + z, s)
      | _ \<Rightarrow> None)"
| "hex4 _ = None"

definition unescape :: "char \<Rightarrow> nat option" where
  "unescape e =
     (if e = dquote then Some 0x22 else if e = backslash then Some 0x5C
      else if e = CHR ''/'' then Some 0x2F else if e = CHR ''b'' then Some 8
      else if e = CHR ''f'' then Some 12 else if e = CHR ''n'' then Some 10
      else if e = CHR ''r'' then Some 13 else if e = CHR ''t'' then Some 9 else None)"

text \<open>The second half of a surrogate pair, when the text continues with one.\<close>

definition low_surrogate :: "string \<Rightarrow> (nat \<times> string) option" where
  "low_surrogate s =
     (case s of a # b # t \<Rightarrow>
        if a = backslash \<and> b = CHR ''u''
        then (case hex4 t of Some (r, u) \<Rightarrow> if 0xDC00 \<le> r \<and> r < 0xE000 then Some (r, u) else None
              | None \<Rightarrow> None)
        else None
      | _ \<Rightarrow> None)"

text \<open>One rune of a quoted string and the text after it; \<^const>\<open>None\<close> on a syntax error.\<close>

definition next_rune :: "string \<Rightarrow> (nat \<times> string) option" where
  "next_rune s =
     (case s of [] \<Rightarrow> None
      | c # t \<Rightarrow>
         if c = backslash then
           (case t of [] \<Rightarrow> None
            | e # u \<Rightarrow>
               if e = CHR ''u'' then
                 (case hex4 u of None \<Rightarrow> None
                  | Some (r, v) \<Rightarrow>
                     if 0xD800 \<le> r \<and> r < 0xE000 then
                       (case low_surrogate v of
                          Some (q, w) \<Rightarrow>
                            if r < 0xDC00 then Some ((r - 0xD800) * 1024 + (q - 0xDC00) + 0x10000, w)
                            else Some (rune_error, v)
                        | None \<Rightarrow> Some (rune_error, v))
                     else Some (r, v))
               else map_option (\<lambda>r. (r, u)) (unescape e))
         else if c = dquote \<or> code c < 0x20 then None
         else Some (fst (decode_rune s), drop (snd (decode_rune s)) s))"

lemma hex4_length: "hex4 s = Some (r, t) \<Longrightarrow> length s = length t + 4"
  by (cases s rule: hex4.cases) (auto split: option.splits)

lemma low_surrogate_length: "low_surrogate s = Some (r, t) \<Longrightarrow> length t < length s"
  by (auto simp: low_surrogate_def split: list.splits if_splits option.splits dest!: hex4_length)

lemma next_rune_length: "next_rune s = Some (r, t) \<Longrightarrow> length t < length s"
  using decode_rune_width [of s]
  by (auto simp: next_rune_def split: list.splits if_splits option.splits
      dest!: hex4_length low_surrogate_length)

text \<open>The rest of a quoted string after its opening quote, decoded, and the text after it.\<close>

function parse_str :: "string \<Rightarrow> (string \<times> string) option" where
  "parse_str s =
     (if s \<noteq> [] \<and> hd s = dquote then Some ([], tl s)
      else case next_rune s of None \<Rightarrow> None
           | Some (r, t) \<Rightarrow> map_option (\<lambda>(u, v). (encode_rune r @ u, v)) (parse_str t))"
  by pat_completeness auto
termination
  by (relation "measure length") (auto dest: next_rune_length)

declare parse_str.simps [simp del]

subsection \<open>Numbers\<close>

definition int_part :: "string \<Rightarrow> (string \<times> string) option" where
  "int_part s = (case s of [] \<Rightarrow> None
     | c # t \<Rightarrow> if c = CHR ''0'' then Some (''0'', t)
                else if is_digit c then Some (c # takeWhile is_digit t, dropWhile is_digit t)
                else None)"

definition frac_part :: "string \<Rightarrow> (string \<times> string) option" where
  "frac_part s = (case s of c # t \<Rightarrow>
       if c = CHR ''.'' then
         (if takeWhile is_digit t = [] then None
          else Some (c # takeWhile is_digit t, dropWhile is_digit t))
       else Some ([], s)
     | [] \<Rightarrow> Some ([], []))"

definition exp_sign :: "string \<Rightarrow> string \<times> string" where
  "exp_sign s = (case s of c # t \<Rightarrow> if c = CHR ''+'' \<or> c = CHR ''-'' then ([c], t) else ([], s)
                 | [] \<Rightarrow> ([], []))"

definition exp_part :: "string \<Rightarrow> (string \<times> string) option" where
  "exp_part s = (case s of c # t \<Rightarrow>
       if c = CHR ''e'' \<or> c = CHR ''E'' then
         (let (sg, u) = exp_sign t in
          if takeWhile is_digit u = [] then None
          else Some (c # sg @ takeWhile is_digit u, dropWhile is_digit u))
       else Some ([], s)
     | [] \<Rightarrow> Some ([], []))"

definition minus_sign :: "string \<Rightarrow> string \<times> string" where
  "minus_sign s = (case s of c # t \<Rightarrow> if c = CHR ''-'' then ([c], t) else ([], s) | [] \<Rightarrow> ([], []))"

definition scan_number :: "string \<Rightarrow> (string \<times> string) option" where
  "scan_number s =
     (let (sg, s1) = minus_sign s in
      case int_part s1 of None \<Rightarrow> None
      | Some (ip, s2) \<Rightarrow>
         (case frac_part s2 of None \<Rightarrow> None
          | Some (fp, s3) \<Rightarrow>
             (case exp_part s3 of None \<Rightarrow> None
              | Some (ep, s4) \<Rightarrow> Some (sg @ ip @ fp @ ep, s4))))"

definition valid_number :: "string \<Rightarrow> bool" where
  "valid_number n \<longleftrightarrow> scan_number n = Some (n, [])"

subsection \<open>Decoding\<close>

definition is_ws :: "char \<Rightarrow> bool" where
  "is_ws c \<longleftrightarrow> c = CHR '' '' \<or> c = CHR 0x09 \<or> c = CHR 0x0A \<or> c = CHR 0x0D"

definition skip_ws :: "string \<Rightarrow> string" where
  "skip_ws s = dropWhile is_ws s"

definition max_depth :: nat where
  "max_depth = 10000"

definition parse_literal :: "string \<Rightarrow> (goval \<times> string) option" where
  "parse_literal s =
     (if has_prefix s ''null'' then Some (GNil, drop 4 s)
      else if has_prefix s ''true'' then Some (GBool True, drop 4 s)
      else if has_prefix s ''false'' then Some (GBool False, drop 5 s)
      else map_option (\<lambda>(n, t). (GNumber n, t)) (scan_number s))"

lemma skip_ws_length: "length (skip_ws s) \<le> length s"
  by (simp add: skip_ws_def length_dropWhile_le)

lemma parse_str_length: "parse_str s = Some (u, t) \<Longrightarrow> length t < length s"
proof (induction s arbitrary: u rule: parse_str.induct)
  case (1 s)
  show ?case
  proof (cases "s \<noteq> [] \<and> hd s = dquote")
    case True
    with "1.prems" have "t = tl s" by (simp add: parse_str.simps [of s])
    with True show ?thesis by (cases s) auto
  next
    case False
    with "1.prems" obtain r v w where "next_rune s = Some (r, v)" "parse_str v = Some (w, t)"
      by (auto simp: parse_str.simps [of s] split: option.splits if_splits)
    with 1(1) [OF False] show ?thesis by (fastforce dest: next_rune_length)
  qed
qed

text \<open>
  A value, the elements of an array, the members of an object, each with the text that follows. The
  first argument is the nesting depth, which the decoder bounds. The tests \<open>length t < length s\<close>
  on what a nested call leaves over always hold, a value being at least one byte long; they only make
  the recursion evidently well-founded.
\<close>

function parse_value :: "nat \<Rightarrow> string \<Rightarrow> (goval \<times> string) option"
  and parse_elems :: "nat \<Rightarrow> goval list \<Rightarrow> string \<Rightarrow> (goval list \<times> string) option"
  and parse_members :: "nat \<Rightarrow> goval gomap \<Rightarrow> string \<Rightarrow> (goval gomap \<times> string) option" where
  "parse_value d s =
     (case skip_ws s of [] \<Rightarrow> None
      | c # t \<Rightarrow>
         if c = dquote then map_option (\<lambda>(u, r). (GString u, r)) (parse_str t)
         else if c = CHR ''{'' then
           (if d \<ge> max_depth then None
            else case skip_ws t of [] \<Rightarrow> None
                 | e # u \<Rightarrow> if e = CHR ''}'' then Some (GMap [], u)
                             else map_option (\<lambda>(m, r). (GMap m, r)) (parse_members (Suc d) [] t))
         else if c = CHR ''['' then
           (if d \<ge> max_depth then None
            else case skip_ws t of [] \<Rightarrow> None
                 | e # u \<Rightarrow> if e = CHR '']'' then Some (GSlice [], u)
                             else map_option (\<lambda>(m, r). (GSlice m, r)) (parse_elems (Suc d) [] t))
         else parse_literal (c # t))"
| "parse_elems d acc s =
     (case parse_value d s of None \<Rightarrow> None
      | Some (v, r) \<Rightarrow>
         (case skip_ws r of [] \<Rightarrow> None
          | c # t \<Rightarrow> if c = CHR '']'' then Some (acc @ [v], t)
                      else if c = CHR '','' \<and> length t < length s then parse_elems d (acc @ [v]) t
                      else None))"
| "parse_members d m s =
     (case skip_ws s of [] \<Rightarrow> None
      | c # t \<Rightarrow>
         if c \<noteq> dquote then None
         else case parse_str t of None \<Rightarrow> None
              | Some (k, r) \<Rightarrow>
                 (case skip_ws r of [] \<Rightarrow> None
                  | e # u \<Rightarrow>
                     if e \<noteq> CHR '':'' then None
                     else case parse_value d u of None \<Rightarrow> None
                          | Some (v, w) \<Rightarrow>
                             (case skip_ws w of [] \<Rightarrow> None
                              | f # x \<Rightarrow>
                                 if f = CHR ''}'' then Some (map_put k v m, x)
                                 else if f = CHR '','' \<and> length x < length s
                                 then parse_members d (map_put k v m) x else None)))"
  by pat_completeness auto
termination
proof (relation "measures [\<lambda>x. case x of Inl (d, s) \<Rightarrow> length s
      | Inr (Inl (d, acc, s)) \<Rightarrow> length s | Inr (Inr (d, m, s)) \<Rightarrow> length s,
    \<lambda>x. case x of Inl (d, s) \<Rightarrow> 0 | Inr (Inl (d, acc, s)) \<Rightarrow> 1 | Inr (Inr (d, m, s)) \<Rightarrow> 1]",
    goal_cases)
  case (2 d s c t)
  then show ?case using skip_ws_length [of s] by (simp add: less_le_trans)
next
  case (3 d s c t)
  then show ?case using skip_ws_length [of s] by (simp add: less_le_trans)
next
  case (6 d m s c t p k r e u)
  then show ?case
    using skip_ws_length [of s] skip_ws_length [of r] parse_str_length [of t k r] by simp
qed auto

declare parse_value.simps [simp del] parse_elems.simps [simp del] parse_members.simps [simp del]

text \<open>
  \<^verbatim>\<open>json.Unmarshal\<close> accepts one value surrounded by white space; \<^verbatim>\<open>Decoder.Decode\<close>
  accepts one value and leaves what follows it unread.
\<close>

definition decode_any :: "string \<Rightarrow> goval option" where
  "decode_any s = map_option fst (parse_value 0 s)"

subsection \<open>Marshalling\<close>

fun collect :: "('e + 'a) list \<Rightarrow> 'e + 'a list" where
  "collect [] = Inr []"
| "collect (Inl e # rs) = Inl e"
| "collect (Inr x # rs) = (case collect rs of Inl e \<Rightarrow> Inl e | Inr xs \<Rightarrow> Inr (x # xs))"

definition marshal_number :: "string \<Rightarrow> json_error + string" where
  "marshal_number n = (if n = [] then Inr ''0'' else if valid_number n then Inr n else Inl SyntaxError)"

definition option_text :: "string option \<Rightarrow> json_error + string" where
  "option_text t = (case t of None \<Rightarrow> Inl UnsupportedValue | Some u \<Rightarrow> Inr u)"

definition member :: "bool \<Rightarrow> string \<times> (json_error + string) \<Rightarrow> json_error + string" where
  "member html kr = (case snd kr of Inl e \<Rightarrow> Inl e
                     | Inr b \<Rightarrow> Inr (json_quote html (fst kr) @ '':'' @ b))"

definition wrap_list :: "json_error + string list \<Rightarrow> json_error + string" where
  "wrap_list r = (case r of Inl e \<Rightarrow> Inl e | Inr ps \<Rightarrow> Inr (''['' @ join '','' ps @ '']''))"

definition wrap_object :: "json_error + string list \<Rightarrow> json_error + string" where
  "wrap_object r = (case r of Inl e \<Rightarrow> Inl e | Inr ps \<Rightarrow> Inr (''{'' @ join '','' ps @ ''}''))"

text \<open>An object, its members in the byte order of their keys.\<close>

definition encode_object :: "bool \<Rightarrow> (string \<times> (json_error + string)) list \<Rightarrow> json_error + string" where
  "encode_object html m = wrap_object (collect (map (member html) (sort_key fst m)))"

text \<open>\<^verbatim>\<open>json.Marshal\<close>.\<close>

fun marshal :: "goval \<Rightarrow> json_error + string" where
  "marshal GNil = Inr ''null''"
| "marshal (GBool b) = Inr (if b then ''true'' else ''false'')"
| "marshal (GString s) = Inr (json_quote True s)"
| "marshal (GNumber n) = marshal_number n"
| "marshal (GFloat t) = option_text t"
| "marshal (GInt n) = Inr (itoa n)"
| "marshal (GSlice vs) = wrap_list (collect (map marshal vs))"
| "marshal GNilSlice = Inr ''null''"
| "marshal (GMap m) = encode_object True (map (\<lambda>kv. (fst kv, marshal (snd kv))) m)"
| "marshal (GStrMap m) = encode_object True (map (\<lambda>kv. (fst kv, Inr (json_quote True (snd kv)))) m)"
| "marshal GNilMap = Inr ''null''"
| "marshal (GOther t) = option_text t"

end
