(* ===== verification/Json_Facts.thy ===== *)
theory Json_Facts
  imports Go_Json
begin

text \<open>
  Facts on the JSON model: a quoted string reads back as itself (with ill-formed bytes coerced), a
  valid number literal reads back as itself, and whatever the decoder accepts is a normal value:
  nested objects with distinct keys, well-formed strings, valid number literals and a bounded depth.
\<close>

subsection \<open>Normal values\<close>

fun jnormal :: "goval \<Rightarrow> bool" where
  "jnormal GNil = True"
| "jnormal (GBool b) = True"
| "jnormal (GString s) = utf8_valid s"
| "jnormal (GNumber n) = valid_number n"
| "jnormal (GSlice vs) = list_all jnormal vs"
| "jnormal (GMap m) =
     (distinct (keys m) \<and> list_all (\<lambda>kv. utf8_valid (fst kv) \<and> jnormal (snd kv)) m)"
| "jnormal _ = False"

fun depth :: "goval \<Rightarrow> nat" where
  "depth (GSlice vs) = Suc (foldr max (map depth vs) 0)"
| "depth (GMap m) = Suc (foldr max (map (\<lambda>kv. depth (snd kv)) m) 0)"
| "depth _ = 0"

text \<open>What may follow a number without becoming part of it.\<close>

definition num_stop :: "string \<Rightarrow> bool" where
  "num_stop s \<longleftrightarrow> s = [] \<or>
     (\<not> is_digit (hd s) \<and> hd s \<noteq> CHR ''.'' \<and> hd s \<noteq> CHR ''e'' \<and> hd s \<noteq> CHR ''E'')"

lemma foldr_max_le: "foldr max ns (0 :: nat) \<le> k \<longleftrightarrow> (\<forall>n \<in> set ns. n \<le> k)"
  by (induction ns) auto

lemma depth_slice: "depth (GSlice vs) \<le> k \<longleftrightarrow> (\<exists>j. k = Suc j \<and> (\<forall>v \<in> set vs. depth v \<le> j))"
  by (cases k) (auto simp: foldr_max_le)

lemma depth_map:
  "depth (GMap m) \<le> k \<longleftrightarrow> (\<exists>j. k = Suc j \<and> (\<forall>kv \<in> set m. depth (snd kv) \<le> j))"
  by (cases k) (auto simp: foldr_max_le)

subsection \<open>Quoted strings read back\<close>

lemma hex_val_digit: "n < 16 \<Longrightarrow> hex_val (hex_digit n) = Some n"
  by (cases "n < 10") (simp_all add: hex_val_def hex_digit_def code_byte Let_def)

lemma hex4_u_escape:
  assumes "r < 0x10000"
  shows "hex4 (drop 2 (u_escape r) @ t) = Some (r, t)"
proof -
  have "r div 4096 < 16" using assms by auto
  moreover have "r div 4096 * 4096 + r div 256 mod 16 * 256 + r div 16 mod 16 * 16 + r mod 16 = r"
  proof -
    have *: "n = n div 16 * 16 + n mod 16" for n :: nat by simp
    have d: "n div 256 = n div 16 div 16" "n div 4096 = n div 16 div 16 div 16" for n :: nat
      by (simp_all add: div_mult2_eq [symmetric])
    show ?thesis
      unfolding d using * [of r] * [of "r div 16"] * [of "r div 16 div 16"] by linarith
  qed
  ultimately show ?thesis by (simp add: u_escape_def hex_val_digit)
qed

lemma next_rune_u_escape:
  assumes "r < 0xD800 \<or> 0xE000 \<le> r \<and> r < 0x10000"
  shows "next_rune (u_escape r @ t) = Some (r, t)"
proof -
  obtain u where u: "u_escape r = backslash # CHR ''u'' # u" "drop 2 (u_escape r) = u"
    by (simp add: u_escape_def)
  have "hex4 (u @ t) = Some (r, t)" using hex4_u_escape [of r t] assms u by auto
  then show ?thesis using assms by (auto simp: next_rune_def u)
qed

lemma next_rune_plain:
  assumes "valid_rune r" "0x20 \<le> r" "r \<noteq> 0x22" "r \<noteq> 0x5C"
  shows "next_rune (encode_rune r @ t) = Some (r, t)"
proof -
  obtain c cs where c: "encode_rune r = c # cs" by (metis encode_rune_nonempty list.exhaust)
  have "code c = r \<or> 0x80 \<le> code c"
    using assms(1) c by (auto simp: encode_rune_def Let_def code_byte valid_rune_def split: if_splits)
  then have "0x20 \<le> code c" "c \<noteq> backslash" "c \<noteq> dquote"
    using assms(2-4) by (auto simp: backslash_def dquote_def code_def)
  then have "next_rune (encode_rune r @ t)
      = Some (fst (decode_rune (encode_rune r @ t)), drop (snd (decode_rune (encode_rune r @ t))) (encode_rune r @ t))"
    by (simp add: next_rune_def c)
  then show ?thesis by (simp add: decode_rune_encode [OF assms(1)])
qed

lemma next_rune_quote_ascii:
  assumes "r < 0x80"
  shows "next_rune (quote_ascii html r @ t) = Some (r, t)"
proof -
  have b: "byte 0x5C = backslash" "byte 0x22 = dquote"
    by (simp_all add: code_byte backslash_def dquote_def flip: code_inj) (simp_all add: code_def)
  have esc: "next_rune (backslash # e # t) = Some (q, t)" if "unescape e = Some q" "e \<noteq> CHR ''u''" for e q
    using that by (simp add: next_rune_def)
  have escs: "next_rune (backslash # dquote # t) = Some (0x22, t)"
    "next_rune (backslash # backslash # t) = Some (0x5C, t)"
    "next_rune (backslash # CHR ''b'' # t) = Some (8, t)"
    "next_rune (backslash # CHR ''f'' # t) = Some (12, t)"
    "next_rune (backslash # CHR ''n'' # t) = Some (10, t)"
    "next_rune (backslash # CHR ''r'' # t) = Some (13, t)"
    "next_rune (backslash # CHR ''t'' # t) = Some (9, t)"
    by (rule esc; simp add: unescape_def dquote_def backslash_def)+
  have plain: "[byte r] = encode_rune r" "valid_rune r"
    using assms by (simp_all add: encode_rune_def valid_rune_def)
  have "next_rune ([byte r] @ t) = Some (r, t)" if "0x20 \<le> r" "r \<noteq> 0x22" "r \<noteq> 0x5C"
    using next_rune_plain [OF plain(2) that] plain(1) by simp
  moreover have "next_rune (u_escape r @ t) = Some (r, t)"
    using assms by (intro next_rune_u_escape) auto
  ultimately show ?thesis
    unfolding quote_ascii_def
    by (auto simp: b escs)
qed

lemma next_rune_quote_chunk:
  assumes "rc \<in> set (utf8_chunks s)"
  shows "next_rune (quote_chunk html rc @ t) = Some (fst rc, t)"
proof -
  obtain r c where rc: "rc = (r, c)" by fastforce
  note valid = utf8_chunks_cases [OF assms [unfolded rc]]
  consider "r < 0x80" | "0x80 \<le> r" "\<not> chunk_ok (r, c)" | "0x80 \<le> r" "chunk_ok (r, c)" "r = 0x2028 \<or> r = 0x2029"
    | "0x80 \<le> r" "chunk_ok (r, c)" "r \<noteq> 0x2028" "r \<noteq> 0x2029"
    by linarith
  then show ?thesis
  proof cases
    case 1
    then show ?thesis by (simp add: rc quote_chunk_def next_rune_quote_ascii)
  next
    case 2
    then have "r = 0xFFFD" by (simp add: chunk_ok_def rune_error_def)
    then show ?thesis using 2 by (simp add: rc quote_chunk_def next_rune_u_escape)
  next
    case 3
    then show ?thesis by (auto simp: rc quote_chunk_def next_rune_u_escape)
  next
    case 4
    then show ?thesis
      using valid next_rune_plain [of r t] by (simp add: rc quote_chunk_def)
  qed
qed

lemma quote_chunk_not_dquote:
  assumes "rc \<in> set (utf8_chunks s)"
  shows "quote_chunk html rc @ t \<noteq> [] \<and> hd (quote_chunk html rc @ t) \<noteq> dquote"
proof -
  have "next_rune (quote_chunk html rc @ t) \<noteq> None"
    using next_rune_quote_chunk [OF assms] by simp
  then show ?thesis
    by (auto simp: next_rune_def dquote_def backslash_def split: list.splits)
qed

lemma parse_str_chunks:
  assumes "set cs \<subseteq> set (utf8_chunks s)"
  shows "parse_str (concat (map (quote_chunk html) cs) @ dquote # t)
    = Some (concat (map (\<lambda>rc. encode_rune (fst rc)) cs), t)"
  using assms
proof (induction cs)
  case Nil
  then show ?case by (simp add: parse_str.simps)
next
  case (Cons rc cs)
  then have "rc \<in> set (utf8_chunks s)" by simp
  then show ?case
    using Cons next_rune_quote_chunk quote_chunk_not_dquote
    by (subst parse_str.simps) simp
qed

theorem parse_str_quote: "parse_str (quote_body html s @ dquote # t) = Some (utf8_coerce s, t)"
  using parse_str_chunks [of "utf8_chunks s" s html t]
  by (simp add: quote_body_def utf8_coerce_def)

subsection \<open>Numbers read back\<close>

definition stops :: "(char \<Rightarrow> bool) \<Rightarrow> string \<Rightarrow> bool" where
  "stops p x \<longleftrightarrow> x = [] \<or> \<not> p (hd x)"

lemma takeWhile_stops:
  assumes "list_all p a" "stops p x"
  shows "takeWhile p (a @ x) = a" "dropWhile p (a @ x) = x"
proof -
  have "takeWhile p x = []" "dropWhile p x = x"
    using assms(2) by (cases x; simp add: stops_def)+
  then show "takeWhile p (a @ x) = a" "dropWhile p (a @ x) = x"
    using assms(1) by (simp_all add: list_all_iff takeWhile_append dropWhile_append)
qed

lemma takeWhile_all: "list_all p (takeWhile p s)"
  by (auto simp: list_all_iff dest: set_takeWhileD)

lemma int_part_out:
  assumes "int_part s = Some (ip, r)"
  shows "s = ip @ r" "stops is_digit x \<Longrightarrow> int_part (ip @ x) = Some (ip, x)"
    "ip \<noteq> []" "is_digit (hd ip)"
  using assms takeWhile_stops [OF takeWhile_all]
  by (auto simp: int_part_def is_digit_def code_def split: list.splits if_splits)

lemma frac_part_out:
  assumes "frac_part s = Some (fp, r)"
  shows "s = fp @ r" "stops (\<lambda>c. is_digit c \<or> c = CHR ''.'') x \<Longrightarrow> frac_part (fp @ x) = Some (fp, x)"
    "fp = [] \<or> hd fp = CHR ''.''"
proof -
  show "s = fp @ r" "fp = [] \<or> hd fp = CHR ''.''"
    using assms by (auto simp: frac_part_def split: list.splits if_splits)
  assume x: "stops (\<lambda>c. is_digit c \<or> c = CHR ''.'') x"
  then have "stops is_digit x" by (auto simp: stops_def)
  then show "frac_part (fp @ x) = Some (fp, x)"
    using assms x takeWhile_stops [OF takeWhile_all, of is_digit x]
    by (auto simp: frac_part_def stops_def split: list.splits if_splits)
qed

lemma exp_sign_out:
  "s = fst (exp_sign s) @ snd (exp_sign s)"
  "x \<noteq> [] \<Longrightarrow> is_digit (hd x) \<Longrightarrow> exp_sign (fst (exp_sign s) @ x) = (fst (exp_sign s), x)"
  by (auto simp: exp_sign_def is_digit_def code_def split: list.splits)

lemma exp_part_out:
  assumes "exp_part s = Some (ep, r)"
  shows "s = ep @ r" "num_stop x \<Longrightarrow> exp_part (ep @ x) = Some (ep, x)"
    "ep = [] \<or> hd ep = CHR ''e'' \<or> hd ep = CHR ''E''"
proof -
  consider "ep = []" "r = s" "s = [] \<or> hd s \<noteq> CHR ''e'' \<and> hd s \<noteq> CHR ''E''"
    | c t ds where "s = c # t" "c = CHR ''e'' \<or> c = CHR ''E''" "ds = takeWhile is_digit (snd (exp_sign t))"
        "ds \<noteq> []" "ep = c # fst (exp_sign t) @ ds" "r = dropWhile is_digit (snd (exp_sign t))"
    using assms by (cases s) (auto simp: exp_part_def Let_def split: if_splits prod.splits)
  then have "s = ep @ r \<and> (num_stop x \<longrightarrow> exp_part (ep @ x) = Some (ep, x)) \<and>
      (ep = [] \<or> hd ep = CHR ''e'' \<or> hd ep = CHR ''E'')"
  proof cases
    case 1
    then show ?thesis by (cases x) (auto simp: exp_part_def num_stop_def)
  next
    case (2 c t ds)
    have digits: "list_all is_digit ds" "is_digit (hd ds)"
      using takeWhile_all 2(3,4) by (metis, metis hd_in_set list_all_iff takeWhile_all)
    have "exp_sign (fst (exp_sign t) @ ds @ x) = (fst (exp_sign t), ds @ x)"
      using exp_sign_out(2) [of "ds @ x" t] 2(4) digits by simp
    moreover have "stops is_digit x" if "num_stop x"
      using that by (auto simp: num_stop_def stops_def)
    ultimately have "exp_part (ep @ x) = Some (ep, x)" if "num_stop x"
      using that 2 takeWhile_stops [OF digits(1), of x] by (auto simp: exp_part_def)
    moreover have "t = fst (exp_sign t) @ ds @ r"
      using exp_sign_out(1) [of t] 2(3,6) by simp
    ultimately show ?thesis using 2 by auto
  qed
  then show "s = ep @ r" "num_stop x \<Longrightarrow> exp_part (ep @ x) = Some (ep, x)"
    "ep = [] \<or> hd ep = CHR ''e'' \<or> hd ep = CHR ''E''" by auto
qed

lemma minus_sign_out:
  "s = fst (minus_sign s) @ snd (minus_sign s)"
  "x \<noteq> [] \<Longrightarrow> is_digit (hd x) \<Longrightarrow> minus_sign (fst (minus_sign s) @ x) = (fst (minus_sign s), x)"
  "fst (minus_sign s) = [] \<or> fst (minus_sign s) = ''-''"
  by (auto simp: minus_sign_def is_digit_def code_def split: list.splits)

lemma scan_number_out:
  assumes "scan_number s = Some (n, r)"
  shows "s = n @ r" "num_stop t \<Longrightarrow> scan_number (n @ t) = Some (n, t)"
    "n \<noteq> []" "is_digit (hd n) \<or> hd n = CHR ''-''"
proof -
  obtain ip s2 fp s3 ep where parts: "int_part (snd (minus_sign s)) = Some (ip, s2)"
    "frac_part s2 = Some (fp, s3)" "exp_part s3 = Some (ep, r)"
    and n: "n = fst (minus_sign s) @ ip @ fp @ ep"
    using assms by (auto simp: scan_number_def Let_def split: option.splits prod.splits)
  note ip = int_part_out [OF parts(1)] and fp = frac_part_out [OF parts(2)]
    and ep = exp_part_out [OF parts(3)]
  show "s = n @ r" using minus_sign_out(1) [of s] ip(1) fp(1) ep(1) n by simp
  show "n \<noteq> []" using ip(3) n by simp
  show "is_digit (hd n) \<or> hd n = CHR ''-''"
    using ip(3,4) minus_sign_out(3) [of s] n by (auto simp: hd_append)
  assume t: "num_stop t"
  have "stops (\<lambda>c. is_digit c \<or> c = CHR ''.'') (ep @ t)"
    using ep(3) t by (auto simp: stops_def num_stop_def hd_append is_digit_def code_def)
  moreover from this have "stops is_digit (fp @ ep @ t)"
    using fp(3) by (auto simp: stops_def hd_append is_digit_def code_def)
  moreover have "minus_sign (fst (minus_sign s) @ ip @ fp @ ep @ t)
      = (fst (minus_sign s), ip @ fp @ ep @ t)"
    using minus_sign_out(2) ip(3,4) by simp
  ultimately show "scan_number (n @ t) = Some (n, t)"
    using ip(2) fp(2) ep(2) [OF t] by (simp add: scan_number_def n)
qed

lemma valid_number_read:
  assumes "valid_number n" "num_stop t"
  shows "scan_number (n @ t) = Some (n, t)"
  using assms scan_number_out(2) unfolding valid_number_def by blast

lemma scan_number_valid: "scan_number s = Some (n, r) \<Longrightarrow> valid_number n"
  using scan_number_out(2) [of s n r "[]"] by (simp add: valid_number_def num_stop_def)

subsection \<open>What the decoder accepts is normal\<close>

lemma valid_number_nonempty: "valid_number n \<Longrightarrow> n \<noteq> []"
  using scan_number_out(3) unfolding valid_number_def by blast

lemma valid_number_head:
  assumes "valid_number n"
  obtains c t where "n = c # t" "is_digit c \<or> c = CHR ''-''"
  using scan_number_out(3,4) [of n n "[]"] assms by (cases n) (auto simp: valid_number_def)

lemma skip_ws_head: "\<not> is_ws c \<Longrightarrow> skip_ws (c # t) = c # t"
  by (simp add: skip_ws_def)

lemma skip_ws_simps [simp]:
  "skip_ws (dquote # t) = dquote # t" "skip_ws (CHR ''{'' # t) = CHR ''{'' # t"
  "skip_ws (CHR ''}'' # t) = CHR ''}'' # t" "skip_ws (CHR ''['' # t) = CHR ''['' # t"
  "skip_ws (CHR '']'' # t) = CHR '']'' # t" "skip_ws (CHR '','' # t) = CHR '','' # t"
  "skip_ws (CHR '':'' # t) = CHR '':'' # t"
  by (simp_all add: skip_ws_def is_ws_def dquote_def)

lemma num_stop_simps [simp]: "num_stop []" "num_stop (CHR '','' # t)" "num_stop (CHR '']'' # t)" "num_stop (CHR ''}'' # t)"
  by (simp_all add: num_stop_def is_digit_def code_def)

lemma sort_key_map_Inr:
  "sort_key fst (map (\<lambda>kv. (fst kv, g (snd kv))) m) = map (\<lambda>kv. (fst kv, g (snd kv))) (sort_key fst m)"
proof -
  have insort: "insort_key fst (fst x, g (snd x)) (map (\<lambda>kv. (fst kv, g (snd kv))) ys)
      = map (\<lambda>kv. (fst kv, g (snd kv))) (insort_key fst x ys)" for x ys
    by (induction ys) auto
  show ?thesis by (induction m) (simp_all add: insort)
qed

lemma map_fst_sort_key: "map fst (sort_key fst m) = sort (map fst m)"
  by (metis mset_map mset_sort properties_for_sort sorted_sort_key)

lemma encode_rune_valid: "utf8_valid (encode_rune r)"
proof -
  have "encode_rune r = encode_rune (if valid_rune r then r else rune_error)"
    by (simp add: encode_rune_def rune_error_def valid_rune_def)
  moreover have "valid_rune (if valid_rune r then r else rune_error)"
    by (simp add: rune_error_def valid_rune_def)
  ultimately show ?thesis
    using utf8_valid_encode [of "if valid_rune r then r else rune_error" "[]"] by (simp only: append_Nil2) simp
qed

lemma parse_str_valid: "parse_str s = Some (u, t) \<Longrightarrow> utf8_valid u"
proof (induction s arbitrary: u rule: parse_str.induct)
  case (1 s)
  show ?case
  proof (cases "s \<noteq> [] \<and> hd s = dquote")
    case True
    with "1.prems" show ?thesis by (auto simp: parse_str.simps [of s])
  next
    case False
    with "1.prems" obtain r v w where r: "next_rune s = Some (r, v)" "parse_str v = Some (w, t)"
      and u: "u = encode_rune r @ w"
      by (auto simp: parse_str.simps [of s] split: option.splits if_splits)
    have "utf8_valid w" using 1(1) [OF False r(1) refl r(2)] .
    then show ?thesis by (simp add: u utf8_valid_append encode_rune_valid)
  qed
qed

text \<open>A normal value that nests at most \<open>k\<close> deep, and an object of such values.\<close>

definition good :: "nat \<Rightarrow> goval \<Rightarrow> bool" where
  "good k v \<longleftrightarrow> jnormal v \<and> depth v \<le> k"

definition good_map :: "nat \<Rightarrow> goval gomap \<Rightarrow> bool" where
  "good_map k m \<longleftrightarrow> distinct (keys m) \<and> (\<forall>kv \<in> set m. utf8_valid (fst kv) \<and> good k (snd kv))"

lemma good_map_iff: "good (Suc k) (GMap m) \<longleftrightarrow> good_map k m"
  by (auto simp: good_def good_map_def depth_map list_all_iff simp del: depth.simps)

lemma good_slice_iff: "good (Suc k) (GSlice vs) \<longleftrightarrow> (\<forall>v \<in> set vs. good k v)"
  by (auto simp: good_def depth_slice list_all_iff simp del: depth.simps)

lemma good_map_put:
  assumes "good_map k m" "utf8_valid key" "good k v"
  shows "good_map k (map_put key v m)"
proof -
  have "kv \<in> set (map_put key v m) \<Longrightarrow> kv = (key, v) \<or> kv \<in> set m" for kv
    by (induction key v m rule: map_put.induct) (auto split: if_splits)
  then show ?thesis
    using assms map_put_distinct unfolding good_map_def by (metis fst_conv snd_conv)
qed

lemma good_scalar:
  "good k GNil" "good k (GBool b)" "good k (GString s) \<longleftrightarrow> utf8_valid s"
  "good k (GNumber n) \<longleftrightarrow> valid_number n"
  by (simp_all add: good_def)

lemma parse_literal_good: "parse_literal s = Some (v, r) \<Longrightarrow> good k v"
  by (auto simp: parse_literal_def good_scalar split: if_splits dest: scan_number_valid)

theorem parse_good:
  "parse_value d s = Some (v, r) \<Longrightarrow> d \<le> max_depth \<Longrightarrow> good (max_depth - d) v"
  "parse_elems d acc s = Some (vs, r') \<Longrightarrow> d \<le> max_depth \<Longrightarrow> \<forall>v \<in> set acc. good (max_depth - d) v \<Longrightarrow>
     \<forall>v \<in> set vs. good (max_depth - d) v"
  "parse_members d m s = Some (m', r'') \<Longrightarrow> d \<le> max_depth \<Longrightarrow> good_map (max_depth - d) m \<Longrightarrow>
     good_map (max_depth - d) m'"
proof (induction d s and d acc s and d m s arbitrary: v r and vs r' and m' r''
    rule: parse_value_parse_elems_parse_members.induct)
  case (1 d s)
  obtain c t where ct: "skip_ws s = c # t"
    using "1.prems"(1) by (auto simp: parse_value.simps [of d s] split: list.splits)
  have Suc: "max_depth - d = Suc (max_depth - Suc d)" if "\<not> d \<ge> max_depth"
    using that by simp
  consider "c = dquote" | "c = CHR ''{''" | "c = CHR ''[''" | "c \<noteq> dquote" "c \<noteq> CHR ''{''" "c \<noteq> CHR ''[''"
    by blast
  then show ?case
  proof cases
    case 1
    then show ?thesis
      using "1.prems"(1) ct parse_str_valid by (auto simp: parse_value.simps [of d s] good_scalar)
  next
    case 2
    have empty: "good_map k []" for k by (simp add: good_map_def keys_def)
    from 2 show ?thesis
      using "1.prems" ct "1.IH"(1) [OF ct _ 2] empty
      by (auto simp: parse_value.simps [of d s] Suc good_map_iff dquote_def split: if_splits list.splits)
  next
    case 3
    then show ?thesis
      using "1.prems" ct "1.IH"(2) [OF ct _ _ 3]
      by (auto simp: parse_value.simps [of d s] Suc good_slice_iff dquote_def split: if_splits list.splits)
  next
    case 4
    then show ?thesis
      using "1.prems" ct parse_literal_good by (auto simp: parse_value.simps [of d s])
  qed
next
  case (2 d acc s)
  from "2.prems"(1) obtain w q c t where w: "parse_value d s = Some (w, q)" "skip_ws q = c # t"
    by (auto simp: parse_elems.simps [of d acc s] split: option.splits list.splits)
  have "good (max_depth - d) w" using "2.IH"(1) [OF w(1) "2.prems"(2)] .
  then have acc: "\<forall>v \<in> set (acc @ [w]). good (max_depth - d) v" using "2.prems"(3) by simp
  show ?case
  proof (cases "c = CHR '']''")
    case True
    then have "vs = acc @ [w]" using "2.prems"(1) w by (simp add: parse_elems.simps [of d acc s])
    then show ?thesis using acc by blast
  next
    case False
    then have "parse_elems d (acc @ [w]) t = Some (vs, r')" "c = CHR '','' \<and> length t < length s"
      using "2.prems"(1) w by (auto simp: parse_elems.simps [of d acc s] split: if_splits)
    then show ?thesis
      using "2.IH"(2) [OF w(1) refl w(2) False] "2.prems"(2) acc by simp
  qed
next
  case (3 d m s)
  from "3.prems"(1) obtain t k q u w x f y where
    s: "skip_ws s = dquote # t" and k: "parse_str t = Some (k, q)" and q: "skip_ws q = CHR '':'' # u"
    and w: "parse_value d u = Some (w, x)" and x: "skip_ws x = f # y"
    by (auto simp: parse_members.simps [of d m s] split: option.splits list.splits if_splits)
  have "good (max_depth - d) w"
    using "3.IH"(1) [OF s _ k refl q _ w "3.prems"(2)] by simp
  then have put: "good_map (max_depth - d) (map_put k w m)"
    using good_map_put "3.prems"(3) parse_str_valid [OF k] by blast
  show ?case
  proof (cases "f = CHR ''}''")
    case True
    then show ?thesis using put "3.prems"(1) s k q w x by (simp add: parse_members.simps [of d m s])
  next
    case False
    then have "parse_members d (map_put k w m) y = Some (m', r'')" "f = CHR '','' \<and> length y < length s"
      using "3.prems"(1) s k q w x by (auto simp: parse_members.simps [of d m s] split: if_splits)
    then show ?thesis
      using "3.IH"(2) [OF s _ k refl q _ w refl x False] "3.prems"(2) put by simp
  qed
qed

end
