(* ===== verification/Canonical.thy ===== *)
theory Canonical
  imports Json_Facts
begin

text \<open>
  \<^verbatim>\<open>internal/model/canonical.go\<close>: the canonical JSON encoding the audit hash is computed
  over, the normalisation of a payload before it is sealed, and the decoding of a stored payload.

  The main results: payloads that are equal as data have the same canonical bytes, whatever order
  their maps are visited in; two normal payloads with the same canonical bytes are equal as data; and
  a normalised payload survives being stored as its canonical bytes and read back.
\<close>

subsection \<open>The encoder\<close>

definition writeCanonicalString :: "string \<Rightarrow> json_error + string" where
  "writeCanonicalString s = Inr (json_quote False s)"

text \<open>
  The members of an object are written in the byte order of their keys. The argument maps every key
  to the outcome of writing its value, so that an error surfaces when its key is reached.
\<close>

definition writeCanonicalObject :: "(json_error + string) gomap \<Rightarrow> json_error + string" where
  "writeCanonicalObject obj =
     wrap_object (collect (map (\<lambda>k. member False (k, map_get (Inl UnsupportedValue) obj k))
                               (sort (keys obj))))"

definition write_number :: "string \<Rightarrow> json_error + string" where
  "write_number n = (if n = [] then Inl EmptyNumber else Inr n)"

text \<open>
  The type switch, with the outcome of its default branch as the first argument: the default branch
  recurses on a freshly decoded value, which never reaches that branch again.
\<close>

fun write_with :: "(string option \<Rightarrow> json_error + string) \<Rightarrow> goval \<Rightarrow> json_error + string" where
  "write_with other GNil = Inr ''null''"
| "write_with other (GBool b) = Inr (if b then ''true'' else ''false'')"
| "write_with other (GString s) = writeCanonicalString s"
| "write_with other (GNumber n) = write_number n"
| "write_with other (GFloat t) = option_text t"
| "write_with other (GInt n) = Inr (itoa n)"
| "write_with other (GSlice vs) = wrap_list (collect (map (write_with other) vs))"
| "write_with other GNilSlice = Inr ''[]''"
| "write_with other (GMap m) =
     writeCanonicalObject (map (\<lambda>kv. (fst kv, write_with other (snd kv))) m)"
| "write_with other (GStrMap m) =
     writeCanonicalObject (map (\<lambda>kv. (fst kv, writeCanonicalString (snd kv))) m)"
| "write_with other GNilMap = Inr ''{}''"
| "write_with other (GOther t) = other t"

definition normalizeValue :: "goval \<Rightarrow> json_error + goval" where
  "normalizeValue v =
     (case marshal v of Inl e \<Rightarrow> Inl e
      | Inr raw \<Rightarrow> (case decode_any raw of None \<Rightarrow> Inl SyntaxError | Some w \<Rightarrow> Inr w))"

text \<open>The default branch: a scalar is marshalled as it is, an object or array is written canonically.\<close>

definition write_other :: "string option \<Rightarrow> json_error + string" where
  "write_other t =
     (case normalizeValue (GOther t) of Inl e \<Rightarrow> Inl e
      | Inr (GMap m) \<Rightarrow> write_with (\<lambda>_. Inl UnsupportedValue) (GMap m)
      | Inr (GSlice vs) \<Rightarrow> write_with (\<lambda>_. Inl UnsupportedValue) (GSlice vs)
      | Inr w \<Rightarrow> marshal w)"

definition writeCanonical :: "goval \<Rightarrow> json_error + string" where
  "writeCanonical v = write_with write_other v"

definition CanonicalJSON :: "goval \<Rightarrow> json_error + string" where
  "CanonicalJSON v = (case writeCanonical v of Inl e \<Rightarrow> Inl e | Inr b \<Rightarrow> Inr b)"

subsection \<open>Payloads\<close>

text \<open>A \<^verbatim>\<open>map[string]any\<close>, \<^const>\<open>None\<close> being the nil map.\<close>

type_synonym payload = "goval gomap option"

definition payload_value :: "payload \<Rightarrow> goval" where
  "payload_value p = (case p of None \<Rightarrow> GNilMap | Some m \<Rightarrow> GMap m)"

definition NormalizePayload :: "payload \<Rightarrow> json_error + payload" where
  "NormalizePayload p =
     (case p of None \<Rightarrow> Inr (Some [])
      | Some m \<Rightarrow>
         (case normalizeValue (GMap m) of Inl e \<Rightarrow> Inl e
          | Inr (GMap obj) \<Rightarrow> Inr (Some obj)
          | Inr _ \<Rightarrow> Inl NotObject))"

definition DecodeJSONPayload :: "string \<Rightarrow> json_error + payload" where
  "DecodeJSONPayload raw =
     (if raw = [] then Inr (Some [])
      else case decode_any raw of None \<Rightarrow> Inl SyntaxError
           | Some (GMap out) \<Rightarrow> Inr (Some out)
           | Some GNil \<Rightarrow> Inr (Some [])
           | Some _ \<Rightarrow> Inl NotObject)"

subsection \<open>Equality as data\<close>

text \<open>
  Two values are the same data when they differ only in the order in which their maps are visited.
\<close>

inductive same_data :: "goval \<Rightarrow> goval \<Rightarrow> bool" where
  same_refl: "same_data v v"
| same_slice: "list_all2 same_data vs ws \<Longrightarrow> same_data (GSlice vs) (GSlice ws)"
| same_map: "(\<And>k. rel_option same_data (map_of m k) (map_of m' k)) \<Longrightarrow> same_data (GMap m) (GMap m')"
| same_str_map: "map_of s = map_of s' \<Longrightarrow> same_data (GStrMap s) (GStrMap s')"
  monos option.rel_mono list.rel_mono

text \<open>Every map in a value has distinct keys, as Go's maps do.\<close>

fun wf_val :: "goval \<Rightarrow> bool" where
  "wf_val (GSlice vs) = list_all wf_val vs"
| "wf_val (GMap m) = (distinct (keys m) \<and> list_all (\<lambda>kv. wf_val (snd kv)) m)"
| "wf_val (GStrMap m) = distinct (keys m)"
| "wf_val _ = True"

text \<open>The value with every map in the order of its keys: what decoding the canonical bytes yields.\<close>

fun sort_maps :: "goval \<Rightarrow> goval" where
  "sort_maps (GSlice vs) = GSlice (map sort_maps vs)"
| "sort_maps (GMap m) = GMap (sort_key fst (map (\<lambda>kv. (fst kv, sort_maps (snd kv))) m))"
| "sort_maps v = v"

subsection \<open>Independence of the order of maps\<close>

lemma map_of_map_snd: "map_of (map (\<lambda>kv. (fst kv, f (snd kv))) m) k = map_option f (map_of m k)"
  by (induction m) auto

lemma keys_map_snd [simp]: "keys (map (\<lambda>kv. (fst kv, f (snd kv))) m) = keys m"
  by (simp add: keys_def)

lemma dom_map_of_keys: "dom (map_of m) = set (keys m)"
  by (simp add: keys_def dom_map_of_conv_image_fst)

lemma sort_keys_cong:
  assumes "distinct (keys m)" "distinct (keys m')" "dom (map_of m) = dom (map_of m')"
  shows "sort (keys m) = sort (keys m')"
  using assms by (intro sorted_distinct_set_unique) (auto simp: dom_map_of_keys)

lemma writeCanonicalObject_cong:
  assumes "distinct (keys m)" "distinct (keys m')" "map_of m = map_of m'"
  shows "writeCanonicalObject m = writeCanonicalObject m'"
  using sort_keys_cong [OF assms(1,2)] assms(3) by (simp add: writeCanonicalObject_def map_get_def)

lemma map_of_wf: "list_all (\<lambda>kv. P (snd kv)) m \<Longrightarrow> map_of m k = Some v \<Longrightarrow> P v"
  by (induction m) (auto split: if_splits)

lemma write_same:
  "same_data v w \<Longrightarrow> wf_val v \<Longrightarrow> wf_val w \<Longrightarrow> write_with other v = write_with other w"
proof (induction rule: same_data.induct)
  case (same_slice vs ws)
  then have "map (write_with other) vs = map (write_with other) ws"
    by (auto simp: list_all2_conv_all_nth list_all_iff intro!: nth_equalityI)
  then show ?case by simp
next
  case (same_map m m')
  have "map_option (write_with other) (map_of m k) = map_option (write_with other) (map_of m' k)" for k
    using same_map.IH [of k] same_map.prems
    by (cases "map_of m k"; cases "map_of m' k") (auto dest: map_of_wf)
  then show ?case
    using same_map.prems by (auto simp: map_of_map_snd fun_eq_iff intro!: writeCanonicalObject_cong)
next
  case (same_str_map s s')
  then show ?case by (auto simp: map_of_map_snd fun_eq_iff intro!: writeCanonicalObject_cong)
qed simp

subsection \<open>Normal values\<close>

text \<open>The bytes of a normal value, with or without HTML escaping.\<close>

fun enc :: "bool \<Rightarrow> goval \<Rightarrow> string" where
  "enc html GNil = ''null''"
| "enc html (GBool b) = (if b then ''true'' else ''false'')"
| "enc html (GString s) = json_quote html s"
| "enc html (GNumber n) = n"
| "enc html (GSlice vs) = ''['' @ join '','' (map (enc html) vs) @ '']''"
| "enc html (GMap m) =
     ''{'' @ join '','' (map (\<lambda>kv. json_quote html (fst kv) @ '':'' @ snd kv)
                           (sort_key fst (map (\<lambda>kv. (fst kv, enc html (snd kv))) m))) @ ''}''"
| "enc html _ = []"

lemma sort_key_fst_perm: "mset (sort_key fst m) = mset m"
  by simp

lemma map_get_sort_key:
  assumes "distinct (keys m)"
  shows "map (\<lambda>k. (k, map_get z m k)) (sort (keys m)) = sort_key fst m"
proof -
  let ?s = "sort_key fst m"
  have "map_get z m (fst kv) = snd kv" if "kv \<in> set ?s" for kv
  proof -
    have "map_of m (fst kv) = Some (snd kv)"
      using that assms by (intro map_of_is_SomeI) (simp_all add: keys_def)
    then show ?thesis by (simp add: map_get_def)
  qed
  then have "map ((\<lambda>k. (k, map_get z m k)) \<circ> fst) ?s = map (\<lambda>kv. kv) ?s"
    by (intro map_cong) auto
  then have "map (\<lambda>k. (k, map_get z m k)) (map fst ?s) = ?s" by simp
  then show ?thesis by (simp only: map_fst_sort_key keys_def)
qed

lemma writeCanonicalObject_encode:
  assumes "distinct (keys m)"
  shows "writeCanonicalObject m = encode_object False m"
  unfolding encode_object_def
  by (simp add: writeCanonicalObject_def o_def flip: map_get_sort_key [OF assms, of "Inl UnsupportedValue"])

lemma collect_Inr: "collect (map (\<lambda>x. Inr (f x)) xs) = Inr (map f xs)"
  by (induction xs) auto

lemma encode_object_Inr:
  "encode_object html (map (\<lambda>kv. (fst kv, Inr (snd kv))) m)
     = Inr (''{'' @ join '','' (map (\<lambda>kv. json_quote html (fst kv) @ '':'' @ snd kv) (sort_key fst m)) @ ''}'')"
  unfolding encode_object_def sort_key_map_Inr [of Inr m]
  by (simp add: member_def o_def wrap_object_def collect_Inr)

lemma enc_slice:
  assumes "\<And>v. v \<in> set vs \<Longrightarrow> f v = Inr (enc html v)"
  shows "wrap_list (collect (map f vs)) = Inr (enc html (GSlice vs))"
proof -
  have "map f vs = map (\<lambda>v. Inr (enc html v)) vs" using assms by simp
  then show ?thesis by (simp only: collect_Inr wrap_list_def sum.case enc.simps)
qed

lemma enc_map:
  assumes "\<And>kv. kv \<in> set m \<Longrightarrow> f (snd kv) = Inr (enc html (snd kv))"
  shows "encode_object html (map (\<lambda>kv. (fst kv, f (snd kv))) m) = Inr (enc html (GMap m))"
proof -
  have "map (\<lambda>kv. (fst kv, f (snd kv))) m
      = map (\<lambda>kv. (fst kv, Inr (snd kv))) (map (\<lambda>kv. (fst kv, enc html (snd kv))) m)"
    using assms by simp
  then show ?thesis by (simp only: encode_object_Inr enc.simps)
qed

lemma marshal_enc: "jnormal v \<Longrightarrow> marshal v = Inr (enc True v)"
proof (induction v rule: marshal.induct)
  case (7 vs)
  then have "wrap_list (collect (map marshal vs)) = Inr (enc True (GSlice vs))"
    by (intro enc_slice) (auto simp: list_all_iff)
  then show ?case by (simp only: marshal.simps)
next
  case (9 m)
  then have "encode_object True (map (\<lambda>kv. (fst kv, marshal (snd kv))) m) = Inr (enc True (GMap m))"
    by (intro enc_map) (auto simp: list_all_iff)
  then show ?case by (simp only: marshal.simps)
qed (auto simp: marshal_number_def dest: valid_number_nonempty)

lemma write_enc: "jnormal v \<Longrightarrow> write_with other v = Inr (enc False v)"
proof (induction v rule: marshal.induct)
  case (7 vs)
  then have "wrap_list (collect (map (write_with other) vs)) = Inr (enc False (GSlice vs))"
    by (intro enc_slice) (auto simp: list_all_iff)
  then show ?case by (simp only: write_with.simps)
next
  case (9 m)
  then have "encode_object False (map (\<lambda>kv. (fst kv, write_with other (snd kv))) m)
      = Inr (enc False (GMap m))"
    by (intro enc_map) (auto simp: list_all_iff)
  then show ?case using 9(2) by (simp only: write_with.simps) (simp add: writeCanonicalObject_encode)
qed (auto simp: write_number_def writeCanonicalString_def dest: valid_number_nonempty)

lemma CanonicalJSON_enc: "jnormal v \<Longrightarrow> CanonicalJSON v = Inr (enc False v)"
  by (simp add: CanonicalJSON_def writeCanonical_def write_enc)

subsection \<open>Reading the bytes back\<close>

lemma enc_head:
  assumes "jnormal v"
  obtains c t where "enc html v = c # t" "\<not> is_ws c" "c \<noteq> CHR '']''"
proof -
  have number: "\<exists>c t. n = c # t \<and> \<not> is_ws c \<and> c \<noteq> CHR '']''" if "valid_number n" for n
    by (rule valid_number_head [OF that]) (auto simp: is_ws_def is_digit_def code_def)
  have "\<exists>c t. enc html v = c # t \<and> \<not> is_ws c \<and> c \<noteq> CHR '']''"
    using assms number by (cases v) (auto simp: is_ws_def json_quote_def dquote_def)
  then show thesis using that by blast
qed

lemma parse_value_literal:
  assumes "parse_literal s = Some (v, r)" "s = c # t" "\<not> is_ws c"
    "c \<noteq> dquote" "c \<noteq> CHR ''{''" "c \<noteq> CHR ''[''"
  shows "parse_value d s = Some (v, r)"
  using assms by (simp add: parse_value.simps [of d "c # t"] skip_ws_head)

lemma parse_value_number:
  assumes "valid_number n" "num_stop rest"
  shows "parse_value d (n @ rest) = Some (GNumber n, rest)"
proof -
  have scan: "scan_number n = Some (n, [])" using assms(1) by (simp add: valid_number_def)
  note head = scan_number_out(3,4) [OF scan]
  then obtain c t where n: "n = c # t" by (cases n) auto
  have c: "is_digit c \<or> c = CHR ''-''" using head n by simp
  then have "parse_literal (n @ rest) = Some (GNumber n, rest)"
    using valid_number_read [OF assms]
    by (auto simp: parse_literal_def n has_prefix_def is_digit_def code_def)
  then show ?thesis
    using c n by (intro parse_value_literal [of _ _ _ c "t @ rest"])
      (auto simp: is_ws_def is_digit_def code_def dquote_def)
qed

lemma parse_elems_join:
  assumes "vs \<noteq> []" "\<And>v r. v \<in> set vs \<Longrightarrow> num_stop r \<Longrightarrow> parse_value d (f v @ r) = Some (g v, r)"
  shows "parse_elems d acc (join '','' (map f vs) @ '']'' @ rest) = Some (acc @ map g vs, rest)"
  using assms
proof (induction vs arbitrary: acc rule: induct_list012)
  case (2 v)
  then show ?case by (simp add: parse_elems.simps [of d acc])
next
  case (3 v w vs)
  have "parse_elems d (acc @ [g v]) (join '','' (map f (w # vs)) @ '']'' @ rest)
      = Some ((acc @ [g v]) @ map g (w # vs), rest)"
    using 3 by (intro "3.IH"(2)) auto
  then show ?case
    using "3.prems" by (simp add: parse_elems.simps [of d acc])
qed simp

lemma parse_members_join:
  assumes "kvs \<noteq> []"
    "\<And>kv r. kv \<in> set kvs \<Longrightarrow> num_stop r \<Longrightarrow> parse_value d (f (snd kv) @ r) = Some (g (snd kv), r)"
    "\<And>kv. kv \<in> set kvs \<Longrightarrow> utf8_valid (fst kv)" "distinct (keys m @ keys kvs)"
  shows "parse_members d m
      (join '','' (map (\<lambda>kv. json_quote html (fst kv) @ '':'' @ f (snd kv)) kvs) @ ''}'' @ rest)
    = Some (m @ map (\<lambda>kv. (fst kv, g (snd kv))) kvs, rest)"
  using assms
proof (induction kvs arbitrary: m rule: induct_list012)
  case (2 kv)
  then show ?case
    by (simp add: parse_members.simps [of d m] json_quote_def parse_str_quote utf8_coerce_id map_put_new keys_def)
next
  case (3 kv kw kvs)
  let ?m = "m @ [(fst kv, g (snd kv))]"
  have put: "map_put (fst kv) (g (snd kv)) m = ?m"
    using "3.prems"(4) by (intro map_put_new) (simp add: keys_def)
  have "parse_members d ?m (join '','' (map (\<lambda>kv. json_quote html (fst kv) @ '':'' @ f (snd kv)) (kw # kvs)) @ ''}'' @ rest)
    = Some (?m @ map (\<lambda>kv. (fst kv, g (snd kv))) (kw # kvs), rest)"
    using "3.prems" by (intro "3.IH"(2)) (auto simp: keys_def)
  then show ?case
    using "3.prems"
    by (simp add: parse_members.simps [of d m] json_quote_def parse_str_quote utf8_coerce_id put)
qed simp

lemma enc_map_sorted:
  "enc html (GMap m) = ''{'' @ join '','' (map (\<lambda>kv. json_quote html (fst kv) @ '':'' @ enc html (snd kv))
     (sort_key fst m)) @ ''}''"
  unfolding enc.simps sort_key_map_Inr by (simp add: o_def)

lemma sort_maps_map:
  "sort_maps (GMap m) = GMap (map (\<lambda>kv. (fst kv, sort_maps (snd kv))) (sort_key fst m))"
  unfolding sort_maps.simps sort_key_map_Inr ..

lemma parse_value_slice:
  assumes "vs \<noteq> []" "d < max_depth" "\<And>v. v \<in> set vs \<Longrightarrow> jnormal v"
    "\<And>v r. v \<in> set vs \<Longrightarrow> num_stop r \<Longrightarrow> parse_value (Suc d) (enc html v @ r) = Some (sort_maps v, r)"
  shows "parse_value d (enc html (GSlice vs) @ rest) = Some (sort_maps (GSlice vs), rest)"
proof -
  let ?body = "join '','' (map (enc html) vs) @ '']'' @ rest"
  obtain v ws where vs: "vs = v # ws" using assms(1) by (cases vs) auto
  obtain c t where c: "enc html v = c # t" "\<not> is_ws c" "c \<noteq> CHR '']''"
    using enc_head assms(3) vs by (metis list.set_intros(1))
  have "\<exists>u. ?body = c # u" using c(1) vs by (cases ws) auto
  then obtain u where u: "?body = c # u" by blast
  have "parse_elems (Suc d) [] ?body = Some ([] @ map sort_maps vs, rest)"
    using assms(1,4) by (intro parse_elems_join) auto
  then show ?thesis
    using assms(2) u c by (simp add: parse_value.simps [of d "CHR ''['' # x" for x] dquote_def skip_ws_head)
qed

lemma parse_value_map:
  assumes "m \<noteq> []" "d < max_depth" "distinct (keys m)" "\<And>kv. kv \<in> set m \<Longrightarrow> utf8_valid (fst kv)"
    "\<And>kv r. kv \<in> set m \<Longrightarrow> num_stop r \<Longrightarrow>
       parse_value (Suc d) (enc html (snd kv) @ r) = Some (sort_maps (snd kv), r)"
  shows "parse_value d (enc html (GMap m) @ rest) = Some (sort_maps (GMap m), rest)"
proof -
  let ?kvs = "sort_key fst m"
  let ?body = "join '','' (map (\<lambda>kv. json_quote html (fst kv) @ '':'' @ enc html (snd kv)) ?kvs) @ ''}'' @ rest"
  have ne: "?kvs \<noteq> []" using assms(1) by (metis length_0_conv length_sort)
  then obtain kv kws where "?kvs = kv # kws" by (cases ?kvs) auto
  then have "\<exists>u. ?body = dquote # u" by (cases kws) (auto simp: json_quote_def)
  then obtain u where u: "?body = dquote # u" by blast
  have "distinct (keys ?kvs)" using assms(3) by (simp add: keys_def map_fst_sort_key)
  then have "parse_members (Suc d) [] ?body
      = Some ([] @ map (\<lambda>kv. (fst kv, sort_maps (snd kv))) ?kvs, rest)"
    using assms(4,5) ne by (intro parse_members_join) (auto simp: keys_def)
  then have "parse_value d (CHR ''{'' # dquote # u) = Some (GMap (map (\<lambda>kv. (fst kv, sort_maps (snd kv))) ?kvs), rest)"
    unfolding u using assms(2) by (simp add: parse_value.simps [of d "CHR ''{'' # x" for x]) (simp add: dquote_def)
  then have "parse_value d (CHR ''{'' # ?body) = Some (GMap (map (\<lambda>kv. (fst kv, sort_maps (snd kv))) ?kvs), rest)"
    by (simp only: u)
  then show ?thesis by (simp only: enc_map_sorted sort_maps_map append.simps append_assoc)
qed

theorem parse_enc:
  "jnormal v \<Longrightarrow> d + depth v \<le> max_depth \<Longrightarrow> num_stop rest \<Longrightarrow>
     parse_value d (enc html v @ rest) = Some (sort_maps v, rest)"
proof (induction v arbitrary: d rest rule: marshal.induct)
  case 1
  show ?case by (rule parse_value_literal) (auto simp: parse_literal_def has_prefix_def is_ws_def dquote_def)
next
  case (2 b)
  show ?case
    by (cases b; rule parse_value_literal) (auto simp: parse_literal_def has_prefix_def is_ws_def dquote_def)
next
  case (3 s)
  then show ?case
    by (simp add: json_quote_def parse_value.simps [of d "dquote # x" for x] parse_str_quote utf8_coerce_id)
next
  case (4 n)
  then show ?case by (simp add: parse_value_number)
next
  case (7 vs)
  obtain j where j: "max_depth - d = Suc j" "\<forall>v \<in> set vs. depth v \<le> j"
    using "7.prems"(2) depth_slice [of vs "max_depth - d"] by auto
  show ?case
  proof (cases "vs = []")
    case True
    then show ?thesis using j by (simp add: parse_value.simps [of d "CHR ''['' # x" for x] dquote_def)
  next
    case False
    then show ?thesis
      using j "7.prems"(1) by (intro parse_value_slice "7.IH") (auto simp: list_all_iff)
  qed
next
  case (9 m)
  obtain j where j: "max_depth - d = Suc j" "\<forall>kv \<in> set m. depth (snd kv) \<le> j"
    using "9.prems"(2) depth_map [of m "max_depth - d"] by auto
  show ?case
  proof (cases "m = []")
    case True
    then show ?thesis using j by (simp add: parse_value.simps [of d "CHR ''{'' # x" for x] dquote_def)
  next
    case False
    then show ?thesis
      using j "9.prems"(1) by (intro parse_value_map "9.IH") (auto simp: list_all_iff)
  qed
qed auto

lemma decode_enc: "jnormal v \<Longrightarrow> depth v \<le> max_depth \<Longrightarrow> decode_any (enc html v) = Some (sort_maps v)"
  using parse_enc [of v 0 "[]" html] by (simp add: decode_any_def)

lemma same_data_sort: "jnormal v \<Longrightarrow> same_data v (sort_maps v)"
proof (induction v rule: sort_maps.induct)
  case (1 vs)
  then show ?case
    by (auto simp: list_all2_conv_all_nth list_all_iff intro!: same_slice)
next
  case (2 m)
  let ?n = "map (\<lambda>kv. (fst kv, sort_maps (snd kv))) m"
  have d: "distinct (keys m)" using 2(2) by simp
  then have "map_of (sort_key fst ?n) = map_of ?n"
    by (intro map_of_perm) (simp_all add: keys_def o_def map_fst_sort_key)
  moreover have "same_data v (sort_maps v)" if "(k, v) \<in> set m" for k v
    using 2(1) [OF that] 2(2) that by (auto simp: list_all_iff)
  then have "rel_option same_data (map_of m k) (map_of ?n k)" for k
    by (cases "map_of m k") (auto simp: map_of_map_snd dest: map_of_SomeD)
  ultimately show ?case by (auto intro!: same_map)
qed (auto intro: same_refl)

lemma jnormal_wf: "jnormal v \<Longrightarrow> wf_val v"
  by (induction v rule: jnormal.induct) (auto simp: list_all_iff)

lemma same_data_sym: "same_data v w \<Longrightarrow> same_data w v"
proof (induction rule: same_data.induct)
  case (same_slice vs ws)
  then show ?case by (auto simp: list_all2_conv_all_nth intro!: same_data.same_slice)
next
  case (same_map m m')
  have "rel_option same_data (map_of m' k) (map_of m k)" for k
    using same_map [of k] by (auto simp: option.rel_sel)
  then show ?case by (rule same_data.same_map)
qed (auto intro: same_data.intros)

inductive_cases same_sliceE: "same_data (GSlice vs) w"
inductive_cases same_mapE: "same_data (GMap m) w"
inductive_cases same_str_mapE: "same_data (GStrMap m) w"

lemma same_data_trans: "same_data u v \<Longrightarrow> same_data v w \<Longrightarrow> same_data u w"
proof (induction arbitrary: w rule: same_data.induct)
  case (same_slice vs ws)
  consider "w = GSlice ws" | xs where "w = GSlice xs" "list_all2 same_data ws xs"
    using same_slice.prems by (auto elim: same_sliceE)
  then show ?case
    by cases (use same_slice.IH in \<open>auto simp: list_all2_conv_all_nth intro!: same_data.same_slice\<close>)
next
  case (same_map m m')
  consider "w = GMap m'" | n where "w = GMap n" "\<And>k. rel_option same_data (map_of m' k) (map_of n k)"
    using same_map.prems by (auto elim: same_mapE)
  then show ?case
  proof cases
    case 1
    have "rel_option same_data (map_of m k) (map_of m' k)" for k
      using same_map.IH [of k] by (auto simp: option.rel_sel)
    then show ?thesis using 1 by (auto intro!: same_data.same_map)
  next
    case (2 n)
    have "rel_option same_data (map_of m k) (map_of n k)" for k
      using same_map.IH [of k] 2(2) [of k] by (auto simp: option.rel_sel)
    then show ?thesis using 2 by (auto intro!: same_data.same_map)
  qed
next
  case (same_str_map s s')
  from same_str_map.prems show ?case
    by (cases rule: same_str_mapE) (use same_str_map in \<open>auto intro!: same_data.same_str_map\<close>)
qed simp

subsection \<open>The properties of the encoding\<close>

lemma good_sort_maps: "good max_depth v \<Longrightarrow> good max_depth (sort_maps v)"
  using parse_enc [of v 0 "[]" False] parse_good(1) [of 0 "enc False v" "sort_maps v" "[]"]
  by (simp add: good_def)

lemma canonical_same:
  "same_data v w \<Longrightarrow> wf_val v \<Longrightarrow> wf_val w \<Longrightarrow> CanonicalJSON v = CanonicalJSON w"
  by (simp add: CanonicalJSON_def writeCanonical_def write_same)

lemma canonical_eq_same:
  assumes "good max_depth v" "good max_depth w" "CanonicalJSON v = CanonicalJSON w"
  shows "same_data v w"
proof -
  have n: "jnormal v" "depth v \<le> max_depth" "jnormal w" "depth w \<le> max_depth"
    using assms by (auto simp: good_def)
  have "enc False v = enc False w" using n assms(3) by (simp add: CanonicalJSON_enc)
  then have "sort_maps v = sort_maps w"
    using decode_enc [of v False] decode_enc [of w False] n by simp
  then show ?thesis using same_data_sort n same_data_sym same_data_trans by metis
qed

lemma canonical_sort_maps:
  assumes "good max_depth v"
  shows "CanonicalJSON (sort_maps v) = CanonicalJSON v"
  using assms good_sort_maps [OF assms] same_data_sort [THEN same_data_sym]
  by (intro canonical_same) (auto simp: good_def jnormal_wf)

lemma decode_any_good: "decode_any s = Some v \<Longrightarrow> good max_depth v"
  using parse_good(1) [of 0 s v] by (auto simp: decode_any_def)

lemma good_empty: "good max_depth (GMap [])"
  by (simp add: good_def keys_def max_depth_def)

lemma NormalizePayload_good:
  assumes "NormalizePayload p = Inr q"
  obtains m where "q = Some m" "good max_depth (GMap m)"
proof -
  consider "q = Some []" | m where "q = Some m" "\<exists>v. normalizeValue v = Inr (GMap m)"
    using assms by (auto simp: NormalizePayload_def split: option.splits sum.splits goval.splits)
  then show thesis
  proof cases
    case (2 m)
    from 2(2) obtain v where v: "normalizeValue v = Inr (GMap m)" by blast
    then obtain raw where "marshal v = Inr raw" by (cases "marshal v") (auto simp: normalizeValue_def)
    with v have "decode_any raw = Some (GMap m)" by (cases "decode_any raw") (auto simp: normalizeValue_def)
    then show thesis using that 2 decode_any_good by blast
  qed (use that good_empty in blast)
qed

lemma DecodeJSONPayload_good:
  assumes "DecodeJSONPayload raw = Inr q"
  obtains m where "q = Some m" "good max_depth (GMap m)"
proof -
  consider "q = Some []" | m where "q = Some m" "decode_any raw = Some (GMap m)"
    using assms by (auto simp: DecodeJSONPayload_def split: if_splits option.splits goval.splits)
  then show thesis using that good_empty decode_any_good by cases auto
qed

lemma sort_maps_GMap: obtains m' where "sort_maps (GMap m) = GMap m'"
  by simp

text \<open>Storing the canonical bytes of a normal payload and decoding them yields the same data.\<close>

lemma decode_canonical:
  assumes "good max_depth (GMap m)"
  obtains b m' where "CanonicalJSON (GMap m) = Inr b" "DecodeJSONPayload b = Inr (Some m')"
    "same_data (GMap m) (GMap m')" "good max_depth (GMap m')" "CanonicalJSON (GMap m') = Inr b"
proof -
  obtain m' where m': "sort_maps (GMap m) = GMap m'" using sort_maps_GMap .
  have n: "jnormal (GMap m)" "depth (GMap m) \<le> max_depth" using assms by (simp_all only: good_def)
  note b = CanonicalJSON_enc [OF n(1)]
  have "enc False (GMap m) \<noteq> []" by simp
  then have "DecodeJSONPayload (enc False (GMap m)) = Inr (Some m')"
    using decode_enc [OF n, of False] unfolding DecodeJSONPayload_def by (simp only: m' if_False option.case goval.case)
  moreover have "good max_depth (GMap m')" using good_sort_maps [OF assms] m' by simp
  moreover have "CanonicalJSON (GMap m') = Inr (enc False (GMap m))"
    using canonical_sort_maps [OF assms] m' b by simp
  ultimately show thesis using that [OF b] same_data_sort [OF n(1)] m' by simp
qed

subsection \<open>Properties\<close>

text \<open>C7: Canonical JSON does not depend on the order in which maps are visited. Two values whose maps
  have distinct keys and which differ only in the order of their maps, at any depth, have the same
  canonical encoding, or fail in the same way.\<close>

theorem canonical_order_independent:
  assumes "wf_val v" "wf_val w" "same_data v w"
  shows "CanonicalJSON v = CanonicalJSON w"
  using assms by (intro canonical_same)

theorem canonical_order_independent_witness:
  "CanonicalJSON (GMap [(''ip'', GString ''1.2.3.4''), (''hits'', GInt 3)])
     = CanonicalJSON (GMap [(''hits'', GInt 3), (''ip'', GString ''1.2.3.4'')])"
proof (rule canonical_order_independent)
  show "same_data (GMap [(''ip'', GString ''1.2.3.4''), (''hits'', GInt 3)])
      (GMap [(''hits'', GInt 3), (''ip'', GString ''1.2.3.4'')])"
    by (rule same_map) (auto simp: same_refl)
qed (simp_all add: keys_def)

text \<open>C8: Canonical JSON is injective. On the values the decoder produces (objects with distinct
  keys, well-formed strings, valid number literals, bounded nesting), two values have the same
  canonical bytes exactly when they are equal as data.\<close>

theorem canonical_injective:
  assumes "good max_depth v" "good max_depth w"
  shows "CanonicalJSON v = CanonicalJSON w \<longleftrightarrow> same_data v w"
proof
  assume "same_data v w"
  then show "CanonicalJSON v = CanonicalJSON w"
    using assms by (intro canonical_same) (auto simp: good_def jnormal_wf)
qed (use assms canonical_eq_same in blast)

theorem canonical_injective_witness:
  "CanonicalJSON (GSlice [GNumber ''1'', GNil]) = CanonicalJSON (GSlice [GNumber ''1'', GNil])
     \<longleftrightarrow> same_data (GSlice [GNumber ''1'', GNil]) (GSlice [GNumber ''1'', GNil])"
proof (rule canonical_injective)
  have "valid_number ''1''" by code_simp
  then show "good max_depth (GSlice [GNumber ''1'', GNil])" "good max_depth (GSlice [GNumber ''1'', GNil])"
    by (simp_all add: good_def max_depth_def)
qed

text \<open>C9: A normalised payload survives storage. What \<^const>\<open>NormalizePayload\<close> returns has a
  canonical encoding, and decoding those bytes as a stored payload yields the same data with the same
  canonical bytes, so the hash computed before storing and after reading agree.\<close>

theorem payload_round_trip:
  assumes "NormalizePayload p = Inr q"
  shows "\<exists>b q'. CanonicalJSON (payload_value q) = Inr b \<and> DecodeJSONPayload b = Inr q'
     \<and> same_data (payload_value q) (payload_value q') \<and> CanonicalJSON (payload_value q') = Inr b"
proof -
  obtain m where m: "q = Some m" "good max_depth (GMap m)" using NormalizePayload_good [OF assms] .
  obtain b m' where "CanonicalJSON (GMap m) = Inr b" "DecodeJSONPayload b = Inr (Some m')"
    "same_data (GMap m) (GMap m')" "CanonicalJSON (GMap m') = Inr b"
    using decode_canonical [OF m(2)] .
  then show ?thesis using m by (intro exI [of _ b] exI [of _ "Some m'"]) (simp add: payload_value_def)
qed

theorem payload_round_trip_witness:
  "\<exists>b q'. CanonicalJSON (payload_value (Some [])) = Inr b \<and> DecodeJSONPayload b = Inr q'
     \<and> same_data (payload_value (Some [])) (payload_value q') \<and> CanonicalJSON (payload_value q') = Inr b"
  by (rule payload_round_trip [of None]) (simp add: NormalizePayload_def)

end
