(* ===== verification/Go_Sha256.thy ===== *)
theory Go_Sha256
  imports Go_Strings
begin

text \<open>
  \<^verbatim>\<open>crypto/sha256\<close> and \<^verbatim>\<open>crypto/hmac\<close>: SHA-256 as FIPS 180-4 defines it, on 32-bit
  words, and HMAC over it as RFC 2104 defines it. The definitions are executable; the standard's
  test vector for the one-block message \<^verbatim>\<open>abc\<close> is evaluated at the end. No theorem of the
  development assumes anything about SHA-256: where tampering could only go unnoticed by a collision,
  the colliding byte strings are part of the conclusion.
\<close>

unbundle bit_operations_syntax

type_synonym u32 = "32 word"
type_synonym sha_state = "u32 \<times> u32 \<times> u32 \<times> u32 \<times> u32 \<times> u32 \<times> u32 \<times> u32"

text \<open>
  The constants, in decimal: the first 32 bits of the fractional parts of the cube roots of the first
  64 primes, and of the square roots of the first eight.
\<close>

definition sha_k :: "u32 list" where
  "sha_k =
    [1116352408, 1899447441, 3049323471, 3921009573, 961987163, 1508970993,
     2453635748, 2870763221, 3624381080, 310598401, 607225278, 1426881987,
     1925078388, 2162078206, 2614888103, 3248222580, 3835390401, 4022224774,
     264347078, 604807628, 770255983, 1249150122, 1555081692, 1996064986,
     2554220882, 2821834349, 2952996808, 3210313671, 3336571891, 3584528711,
     113926993, 338241895, 666307205, 773529912, 1294757372, 1396182291,
     1695183700, 1986661051, 2177026350, 2456956037, 2730485921, 2820302411,
     3259730800, 3345764771, 3516065817, 3600352804, 4094571909, 275423344,
     430227734, 506948616, 659060556, 883997877, 958139571, 1322822218,
     1537002063, 1747873779, 1955562222, 2024104815, 2227730452, 2361852424,
     2428436474, 2756734187, 3204031479, 3329325298]"

definition sha_init :: sha_state where
  "sha_init = (1779033703, 3144134277, 1013904242, 2773480762,
               1359893119, 2600822924, 528734635, 1541459225)"

definition small_sigma0 :: "u32 \<Rightarrow> u32" where
  "small_sigma0 x = word_rotr 7 x XOR word_rotr 18 x XOR drop_bit 3 x"

definition small_sigma1 :: "u32 \<Rightarrow> u32" where
  "small_sigma1 x = word_rotr 17 x XOR word_rotr 19 x XOR drop_bit 10 x"

definition big_sigma0 :: "u32 \<Rightarrow> u32" where
  "big_sigma0 x = word_rotr 2 x XOR word_rotr 13 x XOR word_rotr 22 x"

definition big_sigma1 :: "u32 \<Rightarrow> u32" where
  "big_sigma1 x = word_rotr 6 x XOR word_rotr 11 x XOR word_rotr 25 x"

definition sha_ch :: "u32 \<Rightarrow> u32 \<Rightarrow> u32 \<Rightarrow> u32" where
  "sha_ch x y z = (x AND y) XOR (NOT x AND z)"

definition sha_maj :: "u32 \<Rightarrow> u32 \<Rightarrow> u32 \<Rightarrow> u32" where
  "sha_maj x y z = (x AND y) XOR (x AND z) XOR (y AND z)"

fun sha_schedule :: "nat \<Rightarrow> u32 list \<Rightarrow> u32 list" where
  "sha_schedule 0 w = w"
| "sha_schedule (Suc n) w =
     (let i = length w
      in sha_schedule n
           (w @ [small_sigma1 (w ! (i - 2)) + w ! (i - 7) + small_sigma0 (w ! (i - 15)) + w ! (i - 16)]))"

fun sha_round :: "sha_state \<Rightarrow> u32 \<Rightarrow> u32 \<Rightarrow> sha_state" where
  "sha_round (a, b, c, d, e, f, g, h) k w =
     (let t1 = h + big_sigma1 e + sha_ch e f g + k + w;
          t2 = big_sigma0 a + sha_maj a b c
      in (t1 + t2, a, b, c, d + t1, e, f, g))"

fun sha_rounds :: "sha_state \<Rightarrow> u32 list \<Rightarrow> u32 list \<Rightarrow> sha_state" where
  "sha_rounds s (k # ks) (w # ws) = sha_rounds (sha_round s k w) ks ws"
| "sha_rounds s _ _ = s"

fun sha_add :: "sha_state \<Rightarrow> sha_state \<Rightarrow> sha_state" where
  "sha_add (a, b, c, d, e, f, g, h) (a', b', c', d', e', f', g', h') =
     (a + a', b + b', c + c', d + d', e + e', f + f', g + g', h + h')"

fun words_of_bytes :: "bytes \<Rightarrow> u32 list" where
  "words_of_bytes (a # b # c # d # bs) =
     of_nat (code a * 16777216 + code b * 65536 + code c * 256 + code d) # words_of_bytes bs"
| "words_of_bytes _ = []"

definition bytes_of_word :: "u32 \<Rightarrow> bytes" where
  "bytes_of_word w = map (\<lambda>i. byte (unat (drop_bit (8 * i) w) mod 256)) [3, 2, 1, 0]"

definition sha_compress :: "sha_state \<Rightarrow> bytes \<Rightarrow> sha_state" where
  "sha_compress s block = sha_add s (sha_rounds s sha_k (sha_schedule 48 (words_of_bytes block)))"

fun sha_blocks :: "nat \<Rightarrow> bytes \<Rightarrow> bytes list" where
  "sha_blocks 0 bs = []"
| "sha_blocks (Suc n) bs = take 64 bs # sha_blocks n (drop 64 bs)"

text \<open>The bit \<^verbatim>\<open>1\<close>, zeros up to 56 modulo 64 bytes, the length in bits.\<close>

definition sha_pad :: "bytes \<Rightarrow> bytes" where
  "sha_pad m = m @ [byte 0x80] @ replicate ((119 - length m mod 64) mod 64) (byte 0)
                 @ put_uint64 (of_nat (8 * length m))"

fun sha_output :: "sha_state \<Rightarrow> bytes" where
  "sha_output (a, b, c, d, e, f, g, h) =
     concat (map bytes_of_word [a, b, c, d, e, f, g, h])"

definition sha256 :: "bytes \<Rightarrow> bytes" where
  "sha256 m = (let p = sha_pad m
               in sha_output (foldl sha_compress sha_init (sha_blocks (length p div 64) p)))"

text \<open>\<^verbatim>\<open>hmac.New(sha256.New, key)\<close> applied to one message.\<close>

definition xor_pad :: "nat \<Rightarrow> bytes \<Rightarrow> bytes" where
  "xor_pad p k = map (\<lambda>c. byte (code c XOR p)) k"

definition hmac_key :: "bytes \<Rightarrow> bytes" where
  "hmac_key k = (let k' = (if length k > 64 then sha256 k else k)
                 in k' @ replicate (64 - length k') (byte 0))"

definition hmac_sha256 :: "bytes \<Rightarrow> bytes \<Rightarrow> bytes" where
  "hmac_sha256 key m =
     (let k = hmac_key key in sha256 (xor_pad 0x5C k @ sha256 (xor_pad 0x36 k @ m)))"

text \<open>A padded message is a whole number of 64-byte blocks, so that no byte of it is left out.\<close>

lemma length_sha_pad: "64 dvd length (sha_pad m)"
proof -
  define x where "x = length m mod 64"
  have "x < 64" by (simp add: x_def)
  have "x + (9 + (119 - x) mod 64) \<in> {64, 128}"
  proof (cases "x \<le> 55")
    case True
    then have "119 - x = 64 + (55 - x)" by simp
    then have "(119 - x) mod 64 = 55 - x" by (simp only: mod_add_self1) simp
    then show ?thesis using True by simp
  next
    case False
    then show ?thesis using \<open>x < 64\<close> by simp
  qed
  then have "(x + (9 + (119 - x) mod 64)) mod 64 = 0"
    by (elim insertE emptyE) (simp_all only:, simp_all)
  then have "(length m + (9 + (119 - x) mod 64)) mod 64 = 0"
    unfolding x_def by (simp add: mod_add_left_eq)
  moreover have "length (sha_pad m) = length m + (9 + (119 - x) mod 64)"
    by (simp add: sha_pad_def x_def)
  ultimately show ?thesis by auto
qed

lemma concat_sha_blocks: "length bs = 64 * n \<Longrightarrow> concat (sha_blocks n bs) = bs"
  by (induction n arbitrary: bs) auto

lemma length_sha256 [simp]: "length (sha256 m) = 32"
proof -
  have "length (sha_output s) = 32" for s
    by (cases s rule: sha_output.cases) (simp add: bytes_of_word_def)
  then show ?thesis by (simp add: sha256_def Let_def)
qed

text \<open>The test vector of FIPS 180-4 for \<^verbatim>\<open>abc\<close>.\<close>

lemma replicate_num: "replicate (numeral n) x = x # replicate (pred_numeral n) x"
  by (simp add: numeral_eq_Suc)

lemma sha_abc_words:
  "map words_of_bytes (sha_blocks (length (sha_pad ''abc'') div 64) (sha_pad ''abc''))
     = [[0x61626380, 0, 0, 0, 0, 0, 0, 0, 0, 0, 0, 0, 0, 0, 0, 0x18]]"
proof -
  define bs where "bs = ''abc'' @ [byte 128] @ replicate 52 (byte 0) @ put_uint64 24"
  have "sha_pad ''abc'' = bs" by (simp add: sha_pad_def bs_def)
  moreover have "length bs = 64" by (simp add: bs_def)
  moreover have "put_uint64 24 = replicate 7 (byte 0) @ [byte 24]"
    by (simp add: put_uint64_def replicate_num)
  then have "words_of_bytes bs = [0x61626380, 0, 0, 0, 0, 0, 0, 0, 0, 0, 0, 0, 0, 0, 0, 0x18]"
    by (simp add: bs_def replicate_num code_byte) (simp add: code_def)
  ultimately show ?thesis by simp
qed

lemma sha_abc_state:
  "sha_add sha_init (sha_rounds sha_init sha_k
      (sha_schedule 48 [0x61626380, 0, 0, 0, 0, 0, 0, 0, 0, 0, 0, 0, 0, 0, 0, 0x18]))
    = (0xba7816bf, 0x8f01cfea, 0x414140de, 0x5dae2223, 0xb00361a3, 0x96177a9c, 0xb410ff61, 0xf20015ad)"
  by code_simp

lemma sha256_abc:
  "sha256 ''abc'' = sha_output (0xba7816bf, 0x8f01cfea, 0x414140de, 0x5dae2223,
                                0xb00361a3, 0x96177a9c, 0xb410ff61, 0xf20015ad)"
proof -
  obtain b where "sha_blocks (length (sha_pad ''abc'') div 64) (sha_pad ''abc'') = [b]"
    "words_of_bytes b = [0x61626380, 0, 0, 0, 0, 0, 0, 0, 0, 0, 0, 0, 0, 0, 0, 0x18]"
    using sha_abc_words by auto
  then show ?thesis
    by (simp only: sha256_def Let_def foldl.simps sha_compress_def sha_abc_state)
qed

end
