(* ===== verification/Go_Time.thy ===== *)
theory Go_Time
  imports Go_Strings
begin

text \<open>
  Go's \<^verbatim>\<open>time\<close> package as the program uses it. An instant is the number of nanoseconds since
  the zero \<^verbatim>\<open>time.Time\<close>, midnight of 1 January of year 1 UTC, so that \<^verbatim>\<open>IsZero\<close> is
  \<open>t = 0\<close> and \<^verbatim>\<open>Truncate(d)\<close>, which Go counts from the zero time, is \<open>t - t mod d\<close>.
  A \<^verbatim>\<open>time.Duration\<close> is a number of nanoseconds. The main fact is that the
  \<^verbatim>\<open>RFC3339Nano\<close> text of an instant determines the instant: the audit hash covers that text.
\<close>

type_synonym time = int
type_synonym duration = int

definition second :: duration where "second = 1000000000"
definition millisecond :: duration where "millisecond = 1000000"
definition microsecond :: duration where "microsecond = 1000"

definition is_zero :: "time \<Rightarrow> bool" where
  "is_zero t \<longleftrightarrow> t = 0"

definition truncate_time :: "time \<Rightarrow> duration \<Rightarrow> time" where
  "truncate_time t d = t - t mod d"

text \<open>The instant of \<^verbatim>\<open>time.Unix(0, 0)\<close>, and the three readings relative to it.\<close>

definition unix_epoch :: time where
  "unix_epoch = 62135596800 * second"

definition unix_sec :: "time \<Rightarrow> int" where
  "unix_sec t = (t - unix_epoch) div second"

definition unix_milli :: "time \<Rightarrow> int" where
  "unix_milli t = (t - unix_epoch) div millisecond"

definition unix_nano :: "time \<Rightarrow> int" where
  "unix_nano t = t - unix_epoch"

definition time_of_unix :: "int \<Rightarrow> time" where
  "time_of_unix s = unix_epoch + s * second"

subsection \<open>The civil calendar\<close>

text \<open>The year, counted from 0 for year 1, and the day of the year, of a day number.\<close>

definition year_yday :: "int \<Rightarrow> int \<times> int" where
  "year_yday d =
     (let n400 = d div 146097; d400 = d mod 146097;
          n100 = min 3 (d400 div 36524); d100 = d400 - n100 * 36524;
          n4 = d100 div 1461; d4 = d100 mod 1461;
          n1 = min 3 (d4 div 365)
      in (400 * n400 + 100 * n100 + 4 * n4 + n1, d4 - 365 * n1))"

definition is_leap :: "int \<Rightarrow> bool" where
  "is_leap y \<longleftrightarrow> y mod 4 = 0 \<and> (y mod 100 \<noteq> 0 \<or> y mod 400 = 0)"

definition month_lengths :: "bool \<Rightarrow> nat list" where
  "month_lengths leap = [31, if leap then 29 else 28, 31, 30, 31, 30, 31, 31, 30, 31, 30, 31]"

fun month_day :: "nat list \<Rightarrow> nat \<Rightarrow> nat \<Rightarrow> nat \<times> nat" where
  "month_day [] m d = (m, d + 1)"
| "month_day (l # ls) m d = (if d < l then (m, d + 1) else month_day ls (Suc m) (d - l))"

text \<open>\<^verbatim>\<open>Year\<close>, \<^verbatim>\<open>Month\<close> and \<^verbatim>\<open>Day\<close> of an instant in UTC.\<close>

definition civil :: "time \<Rightarrow> int \<times> nat \<times> nat" where
  "civil t =
     (let (y, yd) = year_yday (t div (86400 * second))
      in (y + 1, month_day (month_lengths (is_leap (y + 1))) 1 (nat yd)))"

subsection \<open>Formatting\<close>

text \<open>Go pads a number to a minimal width with zeros.\<close>

definition pad :: "nat \<Rightarrow> nat \<Rightarrow> string" where
  "pad w n = replicate (w - length (dec_of_nat n)) (digit 0) @ dec_of_nat n"

definition strip_zeros :: "string \<Rightarrow> string" where
  "strip_zeros s = rev (dropWhile (\<lambda>c. c = digit 0) (rev s))"

definition format_year :: "int \<Rightarrow> string" where
  "format_year y = (if y < 0 then ''-'' @ pad 4 (nat (- y)) else pad 4 (nat y))"

text \<open>The layout \<^verbatim>\<open>2006-01-02T15:04:05\<close>.\<close>

definition format_seconds :: "time \<Rightarrow> string" where
  "format_seconds t =
     (let (y, m, d) = civil t; s = nat (t div second mod 86400)
      in format_year y @ ''-'' @ pad 2 m @ ''-'' @ pad 2 d @ ''T''
         @ pad 2 (s div 3600) @ '':'' @ pad 2 (s div 60 mod 60) @ '':'' @ pad 2 (s mod 60))"

text \<open>The layout \<^verbatim>\<open>.999999999\<close>: nothing for a whole second, else without trailing zeros.\<close>

definition format_fraction :: "time \<Rightarrow> string" where
  "format_fraction t =
     (let n = nat (t mod second) in if n = 0 then [] else ''.'' @ strip_zeros (pad 9 n))"

definition format_rfc3339nano :: "time \<Rightarrow> string" where
  "format_rfc3339nano t = format_seconds t @ format_fraction t @ ''Z''"

definition format_rfc3339 :: "time \<Rightarrow> string" where
  "format_rfc3339 t = format_seconds t @ ''Z''"

text \<open>The instants of the years 1 to 9999, which four-digit years can name.\<close>

definition time_ok :: "time \<Rightarrow> bool" where
  "time_ok t \<longleftrightarrow> 0 \<le> t \<and> t < 315537897600 * second"

text \<open>\<^verbatim>\<open>Duration.String\<close>: the fraction without trailing zeros, the unit, and no zero leading unit.\<close>

definition fmt_frac :: "nat \<Rightarrow> nat \<Rightarrow> string" where
  "fmt_frac v prec =
     (let f = v mod 10 ^ prec in if f = 0 then [] else ''.'' @ strip_zeros (pad prec f))"

definition duration_abs :: "nat \<Rightarrow> string" where
  "duration_abs u =
     (if u = 0 then ''0s''
      else if u < 1000 then dec_of_nat u @ ''ns''
      else if u < 1000000 then dec_of_nat (u div 1000) @ fmt_frac u 3 @ [CHR 0xC2, CHR 0xB5] @ ''s''
      else if u < 1000000000 then dec_of_nat (u div 1000000) @ fmt_frac u 6 @ ''ms''
      else let s = u div 1000000000; m = s div 60; h = m div 60 in
        (if h > 0 then dec_of_nat h @ ''h'' else [])
        @ (if m > 0 then dec_of_nat (m mod 60) @ ''m'' else [])
        @ dec_of_nat (s mod 60) @ fmt_frac u 9 @ ''s'')"

definition duration_string :: "duration \<Rightarrow> string" where
  "duration_string d = (if d < 0 then ''-'' else []) @ duration_abs (nat \<bar>d\<bar>)"

subsection \<open>The calendar is injective\<close>

lemma century_rest:
  fixes x :: int
  assumes "0 \<le> x" "x < 146097"
  shows "0 \<le> x - min 3 (x div 36524) * 36524" "x - min 3 (x div 36524) * 36524 \<le> 36524"
proof -
  have x: "x = x div 36524 * 36524 + x mod 36524" "0 \<le> x mod 36524" "x mod 36524 < 36524"
    by simp_all
  have "0 \<le> x - min 3 (x div 36524) * 36524 \<and> x - min 3 (x div 36524) * 36524 \<le> 36524"
  proof (cases "3 \<le> x div 36524")
    case True
    then show ?thesis unfolding min_absorb1 [OF True] using assms x by linarith
  next
    case False
    then have "min 3 (x div 36524) = x div 36524" by simp
    then show ?thesis using x by linarith
  qed
  then show "0 \<le> x - min 3 (x div 36524) * 36524" "x - min 3 (x div 36524) * 36524 \<le> 36524"
    by auto
qed

lemma year_yday_inverse:
  assumes "year_yday d = (y, yd)"
  shows "d = 365 * y + y div 4 - y div 100 + y div 400 + yd" and "0 \<le> yd"
proof -
  define a b r c e where "a = d div 146097" "b = min 3 (d mod 146097 div 36524)"
    "r = d mod 146097 - b * 36524" "c = r div 1461" "e = min 3 (r mod 1461 div 365)"
  note abs = this
  have "(400 * a + 100 * b + 4 * c + e, r mod 1461 - 365 * e) = (y, yd)"
    using assms unfolding year_yday_def Let_def abs .
  then have y: "y = 400 * a + 100 * b + 4 * c + e" and yd: "yd = r mod 1461 - 365 * e"
    by simp_all
  have d: "d = 146097 * a + 36524 * b + r" and r: "r = 1461 * c + r mod 1461"
    by (simp_all add: abs)
  have b: "0 \<le> b" "b \<le> 3" by (simp_all add: abs pos_imp_zdiv_nonneg_iff)
  have r0: "0 \<le> r" "r \<le> 36524"
    unfolding abs by (rule century_rest; simp)+
  have c: "0 \<le> c" "c \<le> 24"
    using r0 unfolding abs(4) by linarith+
  have e: "0 \<le> e" "e \<le> 3"
    unfolding abs(5) by (simp_all add: pos_imp_zdiv_nonneg_iff)
  have quot: "(q * n + s) div n = q" if "0 \<le> s" "s < n" for q n s :: int
    using that by simp
  have "y = (100 * a + 25 * b + c) * 4 + e" "y = (4 * a + b) * 100 + (4 * c + e)"
    "y = a * 400 + (100 * b + 4 * c + e)"
    by (simp_all add: y)
  then have "y div 4 = 100 * a + 25 * b + c" "y div 100 = 4 * a + b" "y div 400 = a"
    using quot [of e 4] quot [of "4 * c + e" 100] quot [of "100 * b + 4 * c + e" 400] b c e by auto
  then show "d = 365 * y + y div 4 - y div 100 + y div 400 + yd"
    using d r y yd by simp
  show "0 \<le> yd"
    unfolding yd abs(5) using minus_mod_eq_mult_div [of "r mod 1461" 365] by (simp add: min_def)
      (smt (verit) pos_mod_sign)
qed

lemma month_day_inverse:
  assumes "month_day ls m d = (m', k)"
  shows "m \<le> m'" "d + 1 = sum_list (take (m' - m) ls) + k"
proof -
  have "m \<le> m' \<and> d + 1 = sum_list (take (m' - m) ls) + k"
    using assms
  proof (induction ls m d rule: month_day.induct)
    case (2 l ls m d)
    show ?case
    proof (cases "d < l")
      case False
      with 2 have IH: "Suc m \<le> m'" "d - l + 1 = sum_list (take (m' - Suc m) ls) + k" by auto
      then have "m' - m = Suc (m' - Suc m)" by simp
      then show ?thesis using IH False by simp
    qed (use 2 in auto)
  qed auto
  then show "m \<le> m'" "d + 1 = sum_list (take (m' - m) ls) + k" by auto
qed

lemma civil_inj:
  assumes "civil t = civil u"
  shows "t div (86400 * second) = u div (86400 * second)"
proof -
  obtain y yd where ty: "year_yday (t div (86400 * second)) = (y, yd)" by fastforce
  obtain y' yd' where uy: "year_yday (u div (86400 * second)) = (y', yd')" by fastforce
  have y: "y' = y" and md: "month_day (month_lengths (is_leap (y + 1))) 1 (nat yd)
      = month_day (month_lengths (is_leap (y + 1))) 1 (nat yd')"
    using assms by (auto simp: civil_def ty uy)
  obtain m k where "month_day (month_lengths (is_leap (y + 1))) 1 (nat yd) = (m, k)" by fastforce
  with md have "nat yd + 1 = nat yd' + 1"
    using month_day_inverse(2) by metis
  then have "yd = yd'"
    using year_yday_inverse(2) [OF ty] year_yday_inverse(2) [OF uy] by simp
  then show ?thesis
    using year_yday_inverse(1) [OF ty] year_yday_inverse(1) [OF uy] y by simp
qed

subsection \<open>Formatting is injective\<close>

lemma length_dec_of_nat: "n < 10 ^ k \<Longrightarrow> 0 < k \<Longrightarrow> length (dec_of_nat n) \<le> k"
proof (induction n arbitrary: k rule: dec_of_nat.induct)
  case (1 n)
  show ?case
  proof (cases "n < 10")
    case True
    then show ?thesis using 1 by (subst dec_of_nat.simps) simp
  next
    case False
    with 1 have "k \<noteq> 1" by auto
    then obtain j where j: "k = Suc j" "0 < j" using 1 by (cases k) auto
    then have "n div 10 < 10 ^ j" using 1 by auto
    then show ?thesis
      using False j 1(1) [of j] by (subst dec_of_nat.simps) simp
  qed
qed

lemma length_pad: "n < 10 ^ w \<Longrightarrow> 0 < w \<Longrightarrow> length (pad w n) = w"
  using length_dec_of_nat by (simp add: pad_def)

lemma nat_of_dec_zeros: "nat_of_dec (replicate k (digit 0) @ s) = nat_of_dec s"
  by (induction k) (simp_all add: nat_of_dec_def digit_facts)

lemma pad_inj: "pad w n = pad w m \<longleftrightarrow> n = m"
  by (metis pad_def nat_of_dec_zeros nat_of_dec_of_nat)

lemma strip_zeros_restore:
  "s = strip_zeros s @ replicate (length s - length (strip_zeros s)) (digit 0)"
proof -
  let ?z = "\<lambda>c. c = digit 0"
  have "rev s = takeWhile ?z (rev s) @ dropWhile ?z (rev s)" by simp
  moreover have "takeWhile ?z (rev s) = replicate (length (takeWhile ?z (rev s))) (digit 0)"
    by (rule replicate_length_same [symmetric]) (auto dest: set_takeWhileD)
  ultimately have "rev s = replicate (length (takeWhile ?z (rev s))) (digit 0) @ dropWhile ?z (rev s)"
    by simp
  then have "s = strip_zeros s @ replicate (length (takeWhile ?z (rev s))) (digit 0)"
    unfolding strip_zeros_def by (metis rev_append rev_replicate rev_rev_ident)
  moreover from this have "length (takeWhile ?z (rev s)) = length s - length (strip_zeros s)"
    by (metis add_diff_cancel_left' length_append length_replicate)
  ultimately show ?thesis by simp
qed

lemma strip_zeros_inj: "strip_zeros a = strip_zeros b \<Longrightarrow> length a = length b \<Longrightarrow> a = b"
proof -
  assume "strip_zeros a = strip_zeros b" "length a = length b"
  then have "strip_zeros a @ replicate (length a - length (strip_zeros a)) (digit 0)
      = strip_zeros b @ replicate (length b - length (strip_zeros b)) (digit 0)" by simp
  then show ?thesis by (simp only: strip_zeros_restore [symmetric])
qed

lemma format_fraction_inj:
  assumes "format_fraction t @ ''Z'' = format_fraction u @ ''Z''"
  shows "t mod second = u mod second"
proof -
  have ns: "nat (v mod second) < 10 ^ 9" for v
    by (simp add: second_def nat_less_iff)
  have "format_fraction t = format_fraction u" using assms by simp
  then have "nat (t mod second) = nat (u mod second)"
    using strip_zeros_inj [of "pad 9 (nat (t mod second))" "pad 9 (nat (u mod second))"]
    by (auto simp: format_fraction_def Let_def length_pad [OF ns] pad_inj split: if_splits)
  then show ?thesis by (simp add: second_def)
qed

lemma month_day_bounds:
  assumes "month_day ls m d = (m', k)" "\<forall>l \<in> set ls. l \<le> 31" "d < sum_list ls + 31"
  shows "m' \<le> m + length ls" "k \<le> 31"
proof -
  have "m' \<le> m + length ls \<and> k \<le> 31"
    using assms by (induction ls m d rule: month_day.induct) (fastforce split: if_splits)+
  then show "m' \<le> m + length ls" "k \<le> 31" by auto
qed

lemma year_yday_bounds:
  assumes "year_yday d = (y, yd)" "0 \<le> d" "d < 3652059"
  shows "0 \<le> y" "y \<le> 9998" "yd \<le> 365"
proof -
  define r where "r = d mod 146097 - min 3 (d mod 146097 div 36524) * 36524"
  have r: "0 \<le> r" unfolding r_def by (rule century_rest) simp_all
  have "(400 * (d div 146097) + 100 * min 3 (d mod 146097 div 36524) + 4 * (r div 1461)
      + min 3 (r mod 1461 div 365), r mod 1461 - 365 * min 3 (r mod 1461 div 365)) = (y, yd)"
    using assms(1) unfolding year_yday_def Let_def r_def .
  then have y: "y = 400 * (d div 146097) + 100 * min 3 (d mod 146097 div 36524) + 4 * (r div 1461)
      + min 3 (r mod 1461 div 365)" by simp
  have "0 \<le> d div 146097" "0 \<le> min 3 (d mod 146097 div 36524)" "0 \<le> r div 1461"
    "0 \<le> min 3 (r mod 1461 div 365)"
    using assms(2) r by (simp_all add: pos_imp_zdiv_nonneg_iff)
  then show "0 \<le> y"
    unfolding y by linarith
  show "y \<le> 9998"
    using year_yday_inverse [OF assms(1)] assms(3) by linarith
  have bound: "x - 365 * min 3 (x div 365) \<le> 365" if "x < 1461" for x :: int
  proof (cases "3 \<le> x div 365")
    case True
    then show ?thesis using that by (simp add: min_absorb1)
  next
    case False
    then have "min 3 (x div 365) = x div 365" by simp
    moreover have "x = 365 * (x div 365) + x mod 365" "x mod 365 < 365" by simp_all
    ultimately show ?thesis by linarith
  qed
  have "yd = r mod 1461 - 365 * min 3 (r mod 1461 div 365)"
    using y assms(1) unfolding year_yday_def Let_def r_def by (simp only: prod.inject)
  then show "yd \<le> 365"
    using bound [of "r mod 1461"] by simp
qed

lemma civil_bounds:
  assumes "time_ok t" "civil t = (y, m, d)"
  shows "0 \<le> y" "y < 10000" "m < 100" "d < 100"
proof -
  obtain y0 yd where yy: "year_yday (t div (86400 * second)) = (y0, yd)" by fastforce
  have "0 \<le> t div (86400 * second)" "t div (86400 * second) < 3652059"
    using assms(1) by (auto simp: time_ok_def second_def)
  note b = year_yday_bounds [OF yy this]
  have md: "month_day (month_lengths (is_leap (y0 + 1))) 1 (nat yd) = (m, d)" "y = y0 + 1"
    using assms(2) yy by (auto simp: civil_def)
  show "0 \<le> y" "y < 10000" using b md by auto
  have ml: "\<forall>l \<in> set (month_lengths leap). l \<le> 31" "365 \<le> sum_list (month_lengths leap)"
      "length (month_lengths leap) = 12" for leap
    by (simp_all add: month_lengths_def)
  have "nat yd < sum_list (month_lengths (is_leap (y0 + 1))) + 31"
    using b(3) ml(2) [of "is_leap (y0 + 1)"] by linarith
  from month_day_bounds [OF md(1) ml(1) this] have "m \<le> 13" "d \<le> 31"
    by (simp_all add: ml(3))
  then show "m < 100" "d < 100" by auto
qed

lemma format_seconds_inj:
  assumes "time_ok t" "time_ok u" "format_seconds t = format_seconds u"
  shows "t div second = u div second" "length (format_seconds t) = 19"
proof -
  obtain y m d where t: "civil t = (y, m, d)" by (cases "civil t") auto
  obtain y' m' d' where u: "civil u = (y', m', d')" by (cases "civil u") auto
  note tb = civil_bounds [OF assms(1) t] and ub = civil_bounds [OF assms(2) u]
  define p q where "p = nat (t div second mod 86400)" "q = nat (u div second mod 86400)"
  have pq: "p < 86400" "q < 86400" by (simp_all add: p_q_def nat_less_iff)
  have len: "length (pad 2 n) = 2" if "n < 100" for n using that by (simp add: length_pad)
  have leny: "length (pad 4 n) = 4" if "n < 10000" for n using that by (simp add: length_pad)
  have ft: "format_seconds t = pad 4 (nat y) @ ''-'' @ pad 2 m @ ''-'' @ pad 2 d @ ''T''
      @ pad 2 (p div 3600) @ '':'' @ pad 2 (p div 60 mod 60) @ '':'' @ pad 2 (p mod 60)"
    using tb by (simp add: format_seconds_def Let_def t format_year_def p_q_def)
  have fu: "format_seconds u = pad 4 (nat y') @ ''-'' @ pad 2 m' @ ''-'' @ pad 2 d' @ ''T''
      @ pad 2 (q div 3600) @ '':'' @ pad 2 (q div 60 mod 60) @ '':'' @ pad 2 (q mod 60)"
    using ub by (simp add: format_seconds_def Let_def u format_year_def p_q_def)
  have small: "p div 3600 < 100" "q div 3600 < 100" "p div 60 mod 60 < 100" "q div 60 mod 60 < 100"
    "p mod 60 < 100" "q mod 60 < 100"
    using pq by (auto intro: order.strict_trans [OF mod_less_divisor])
  have "nat y < 10000" "nat y' < 10000" using tb ub by auto
  note lens = leny [OF this(1)] leny [OF this(2)] len [OF tb(3)] len [OF tb(4)] len [OF ub(3)]
    len [OF ub(4)] small [THEN len]
  have "nat y = nat y' \<and> m = m' \<and> d = d' \<and> p div 3600 = q div 3600 \<and>
      p div 60 mod 60 = q div 60 mod 60 \<and> p mod 60 = q mod 60"
    using assms(3) unfolding ft fu by (simp add: lens pad_inj)
  then have eq: "nat y = nat y'" "m = m'" "d = d'" "p div 3600 = q div 3600"
      "p div 60 mod 60 = q div 60 mod 60" "p mod 60 = q mod 60" by blast+
  have "p div 60 = q div 60"
  proof -
    have "n div 3600 = n div 60 div 60" for n :: nat by (simp add: div_mult2_eq [symmetric])
    then have "p div 60 div 60 = q div 60 div 60" using eq(4) by simp
    then show ?thesis using eq(5) by (metis div_mult_mod_eq)
  qed
  then have "p = q" using eq(6) by (metis div_mult_mod_eq)
  then have sod: "t div second mod 86400 = u div second mod 86400"
    by (simp add: p_q_def)
  have "y = y'" using eq(1) tb(1) ub(1) by linarith
  then have "civil t = civil u" using eq by (simp add: t u)
  then have "t div second div 86400 = u div second div 86400"
    using civil_inj by (metis mult.commute zdiv_zmult2_eq zero_le_numeral)
  then show "t div second = u div second"
    using sod by (metis div_mult_mod_eq)
  show "length (format_seconds t) = 19"
    unfolding ft by (simp add: lens)
qed

text \<open>Two instants with the same \<^verbatim>\<open>RFC3339Nano\<close> text are the same instant.\<close>

lemma format_rfc3339nano_inj:
  assumes "time_ok t" "time_ok u" "format_rfc3339nano t = format_rfc3339nano u"
  shows "t = u"
proof -
  have len: "length (format_seconds v) = 19" if "time_ok v" for v
    using format_seconds_inj(2) [OF that that refl] .
  have "length (format_seconds t) = length (format_seconds u)"
    using len assms(1,2) by simp
  then have "format_seconds t = format_seconds u \<and> format_fraction t @ ''Z'' = format_fraction u @ ''Z''"
    using assms(3) append_eq_append_conv [of "format_seconds t" "format_seconds u"]
    unfolding format_rfc3339nano_def by blast
  then have "t div second = u div second" "t mod second = u mod second"
    by (blast intro: format_seconds_inj(1) [OF assms(1,2)] format_fraction_inj)+
  then show ?thesis by (metis div_mult_mod_eq)
qed

text \<open>Truncation: idempotent, never later, and it keeps the order of instants.\<close>

lemma truncate_idem: "truncate_time (truncate_time t d) d = truncate_time t d"
  by (simp add: truncate_time_def)

lemma truncate_le: "0 < d \<Longrightarrow> truncate_time t d \<le> t"
  by (simp add: truncate_time_def)

lemma truncate_mono:
  assumes "0 < d" "t \<le> u"
  shows "truncate_time t d \<le> truncate_time u d"
proof -
  have "t div d * d \<le> u div d * d"
    using assms by (simp add: zdiv_mono1 mult_right_mono)
  then show ?thesis by (simp add: truncate_time_def minus_mod_eq_div_mult)
qed

lemma time_of_unix_sec: "time_of_unix (unix_sec t) \<le> t" "t < time_of_unix (unix_sec t) + second"
  by (simp_all add: time_of_unix_def unix_sec_def second_def unix_epoch_def)

lemma unix_sec_of_unix [simp]: "unix_sec (time_of_unix s) = s"
  by (simp add: time_of_unix_def unix_sec_def second_def)

end
