(* ===== verification/Model.thy ===== *)
theory Model
  imports Canonical Go_Sha256 Go_Time
begin

text \<open>
  \<^verbatim>\<open>internal/model\<close>: the request context and decision (\<^verbatim>\<open>model.go\<close>), the stored rule
  rows (\<^verbatim>\<open>rules.go\<close>) and the audit entry with its hash (\<^verbatim>\<open>audit.go\<close>).

  The hash of an entry covers every one of its fields: two entries with the same hash either hold the
  same fields and the same payload as data, or exhibit a collision of SHA-256 on two concrete byte
  strings.
\<close>

subsection \<open>Requests and decisions\<close>

datatype Verdict = Allow | Block

definition verdict_text :: "Verdict \<Rightarrow> string" where
  "verdict_text v = (case v of Allow \<Rightarrow> ''allow'' | Block \<Rightarrow> ''block'')"

definition KindTraffic :: string where "KindTraffic = ''traffic''"
definition KindSystem :: string where "KindSystem = ''system''"
definition KindAdmin :: string where "KindAdmin = ''admin''"

record RequestContext =
  ReqID :: string
  IP :: string
  Method :: string
  Path :: string
  Query :: string
  Headers :: "string gomap"
  Body :: string
  BodyTruncated :: bool
  ReceivedAt :: time

text \<open>A nil header map reads as an empty one.\<close>

definition Header :: "RequestContext \<Rightarrow> string \<Rightarrow> string" where
  "Header r name = map_get [] (Headers r) name"

text \<open>The latency is kept in microseconds; the code divides it by a thousand.\<close>

record Decision =
  DVerdict :: Verdict
  DRule :: string
  DReason :: string
  DStatus :: int
  DecisionMicros :: int

record IPRule =
  CIDR :: string
  Action :: string
  Note :: string
  CreatedAt :: time
  CreatedBy :: string

definition ActionAllow :: string where "ActionAllow = ''allow''"
definition ActionDeny :: string where "ActionDeny = ''deny''"

record RuleConfig =
  RCName :: string
  RCEnabled :: bool
  RCConfig :: payload
  UpdatedAt :: time
  UpdatedBy :: string

subsection \<open>Audit entries\<close>

definition GenesisHash :: string where
  "GenesisHash = replicate 64 (CHR ''0'')"

record AuditEntry =
  ID :: string
  RequestID :: string
  Timestamp :: time
  Kind :: string
  Payload :: payload
  PrevHash :: string
  Hash :: string

text \<open>What one \<^verbatim>\<open>writeField\<close> feeds to the digest.\<close>

definition writeField :: "bytes \<Rightarrow> bytes" where
  "writeField b = put_uint64 (of_nat (length b)) @ b"

definition uncanonicalizable :: string where
  "uncanonicalizable = CHR 0x00 # ''uncanonicalizable''"

definition hash_payload :: "payload \<Rightarrow> bytes" where
  "hash_payload p = (case CanonicalJSON (payload_value p) of Inl _ \<Rightarrow> uncanonicalizable | Inr b \<Rightarrow> b)"

text \<open>The bytes \<^verbatim>\<open>ComputeHash\<close> digests.\<close>

definition preimage :: "AuditEntry \<Rightarrow> bytes" where
  "preimage e = writeField (PrevHash e) @ writeField (ID e) @ writeField (RequestID e)
     @ writeField (format_rfc3339nano (Timestamp e)) @ writeField (Kind e)
     @ writeField (hash_payload (Payload e))"

definition ComputeHash :: "AuditEntry \<Rightarrow> string" where
  "ComputeHash e = hex_encode (sha256 (preimage e))"

text \<open>\<^verbatim>\<open>Seal\<close> updates the entry in place and returns the new head, its hash.\<close>

definition Seal :: "string \<Rightarrow> AuditEntry \<Rightarrow> AuditEntry \<times> string" where
  "Seal prevHash e =
     (let prev = (if prevHash = [] then GenesisHash else prevHash);
          linked = e\<lparr>PrevHash := prev\<rparr>;
          h = ComputeHash linked
      in (linked\<lparr>Hash := h\<rparr>, h))"

subsection \<open>The digest is over the whole entry\<close>

text \<open>
  The bounds every entry of the running system meets: lengths that fit the 64-bit length prefix, a
  timestamp in the years 1 to 9999, and a payload as \<^const>\<open>NormalizePayload\<close> and
  \<^const>\<open>DecodeJSONPayload\<close> produce it.
\<close>

definition fits :: "bytes \<Rightarrow> bool" where
  "fits b \<longleftrightarrow> length b < 2 ^ 64"

definition good_payload :: "payload \<Rightarrow> bool" where
  "good_payload p \<longleftrightarrow> (\<exists>m. p = Some m \<and> good max_depth (GMap m))"

definition entry_ok :: "AuditEntry \<Rightarrow> bool" where
  "entry_ok e \<longleftrightarrow> fits (PrevHash e) \<and> fits (ID e) \<and> fits (RequestID e) \<and> fits (Kind e)
     \<and> fits (hash_payload (Payload e)) \<and> time_ok (Timestamp e) \<and> good_payload (Payload e)"

text \<open>Two entries with the same content: every hashed field equal, the payloads equal as data.\<close>

definition same_entry :: "AuditEntry \<Rightarrow> AuditEntry \<Rightarrow> bool" where
  "same_entry e e' \<longleftrightarrow> PrevHash e = PrevHash e' \<and> ID e = ID e' \<and> RequestID e = RequestID e'
     \<and> Timestamp e = Timestamp e' \<and> Kind e = Kind e'
     \<and> same_data (payload_value (Payload e)) (payload_value (Payload e'))"

text \<open>Two different byte strings with the same digest, taken from the entries of two lists.\<close>

definition collision :: "AuditEntry \<Rightarrow> AuditEntry \<Rightarrow> bool" where
  "collision e e' \<longleftrightarrow> preimage e \<noteq> preimage e' \<and> sha256 (preimage e) = sha256 (preimage e')"

lemma writeField_inj:
  assumes "writeField a @ s = writeField b @ t" "fits a" "fits b"
  shows "a = b \<and> s = t"
proof -
  have eq: "put_uint64 (of_nat (length a)) @ a @ s = put_uint64 (of_nat (length b)) @ b @ t"
    using assms(1) by (simp add: writeField_def)
  then have "put_uint64 (of_nat (length a)) = put_uint64 (of_nat (length b))" "a @ s = b @ t"
    by (simp_all add: append_eq_append_conv)
  moreover from this(1) have "(of_nat (length a) :: u64) = of_nat (length b)"
    by (simp add: put_uint64_inj)
  then have "unat (of_nat (length a) :: u64) = unat (of_nat (length b) :: u64)" by simp
  then have "length a = length b"
    using assms(2,3) by (simp add: fits_def unat_of_nat)
  ultimately show ?thesis by (simp add: append_eq_append_conv)
qed

lemma fits_rfc3339nano:
  assumes "time_ok t"
  shows "fits (format_rfc3339nano t)"
proof -
  have "length (format_seconds t) = 19" using format_seconds_inj(2) [OF assms assms refl] .
  moreover have "nat (t mod second) < 10 ^ 9" by (simp add: second_def nat_less_iff)
  then have "length (pad 9 (nat (t mod second))) = 9" by (intro length_pad) simp_all
  then have "length (format_fraction t) \<le> 10"
    using length_dropWhile_le [of _ "rev (pad 9 (nat (t mod second)))"]
    by (auto simp: format_fraction_def strip_zeros_def Let_def)
  ultimately have "length (format_rfc3339nano t) \<le> 30" by (simp add: format_rfc3339nano_def)
  then show ?thesis by (simp add: fits_def)
qed

lemma preimage_inj:
  assumes "entry_ok e" "entry_ok e'" "preimage e = preimage e'"
  shows "same_entry e e'"
proof -
  note ok = assms(1,2) [unfolded entry_ok_def] and f = fits_rfc3339nano
  have 1: "PrevHash e = PrevHash e'"
    "writeField (ID e) @ writeField (RequestID e) @ writeField (format_rfc3339nano (Timestamp e))
       @ writeField (Kind e) @ writeField (hash_payload (Payload e))
     = writeField (ID e') @ writeField (RequestID e') @ writeField (format_rfc3339nano (Timestamp e'))
       @ writeField (Kind e') @ writeField (hash_payload (Payload e'))"
    using writeField_inj assms(3) ok unfolding preimage_def by blast+
  have 2: "ID e = ID e'"
    "writeField (RequestID e) @ writeField (format_rfc3339nano (Timestamp e))
       @ writeField (Kind e) @ writeField (hash_payload (Payload e))
     = writeField (RequestID e') @ writeField (format_rfc3339nano (Timestamp e'))
       @ writeField (Kind e') @ writeField (hash_payload (Payload e'))"
    using writeField_inj [OF 1(2)] ok by blast+
  have 3: "RequestID e = RequestID e'"
    "writeField (format_rfc3339nano (Timestamp e)) @ writeField (Kind e) @ writeField (hash_payload (Payload e))
     = writeField (format_rfc3339nano (Timestamp e')) @ writeField (Kind e') @ writeField (hash_payload (Payload e'))"
    using writeField_inj [OF 2(2)] ok by blast+
  have 4: "format_rfc3339nano (Timestamp e) = format_rfc3339nano (Timestamp e')"
    "writeField (Kind e) @ writeField (hash_payload (Payload e))
     = writeField (Kind e') @ writeField (hash_payload (Payload e'))"
    using writeField_inj [OF 3(2)] ok f by blast+
  have 5: "Kind e = Kind e'" "writeField (hash_payload (Payload e)) @ [] = writeField (hash_payload (Payload e')) @ []"
    using writeField_inj [OF 4(2)] ok by auto
  have payload: "hash_payload (Payload e) = hash_payload (Payload e')"
    using writeField_inj [OF 5(2)] ok by blast
  obtain m m' where m: "Payload e = Some m" "good max_depth (GMap m)"
    "Payload e' = Some m'" "good max_depth (GMap m')"
    using ok unfolding good_payload_def by blast
  then have "CanonicalJSON (GMap m) = CanonicalJSON (GMap m')"
    using payload CanonicalJSON_enc [of "GMap m"] CanonicalJSON_enc [of "GMap m'"]
    by (simp only: hash_payload_def payload_value_def good_def option.case sum.case)
  then have "same_data (GMap m) (GMap m')" using canonical_eq_same m by blast
  then show ?thesis
    using 1 2 3 4 5 m format_rfc3339nano_inj ok by (simp add: same_entry_def payload_value_def)
qed

lemma same_entry_preimage:
  assumes "same_entry e e'" "good_payload (Payload e)" "good_payload (Payload e')"
  shows "preimage e = preimage e'"
proof -
  obtain m m' where m: "Payload e = Some m" "good max_depth (GMap m)"
    "Payload e' = Some m'" "good max_depth (GMap m')"
    using assms(2,3) unfolding good_payload_def by blast
  then have "same_data (GMap m) (GMap m')" using assms(1) by (simp add: same_entry_def payload_value_def)
  moreover have "wf_val (GMap m)" "wf_val (GMap m')" using m jnormal_wf unfolding good_def by blast+
  ultimately have "CanonicalJSON (GMap m) = CanonicalJSON (GMap m')" by (rule canonical_same)
  then show ?thesis
    using assms(1) m by (simp add: same_entry_def preimage_def hash_payload_def payload_value_def)
qed

lemma ComputeHash_eq: "ComputeHash e = ComputeHash e' \<longleftrightarrow> sha256 (preimage e) = sha256 (preimage e')"
  by (simp add: ComputeHash_def hex_encode_inj)

lemma hash_same_or_collision:
  assumes "entry_ok e" "entry_ok e'" "ComputeHash e = ComputeHash e'"
  shows "same_entry e e' \<or> collision e e'"
  using assms preimage_inj by (auto simp: collision_def ComputeHash_eq)

lemma length_ComputeHash [simp]: "length (ComputeHash e) = 64"
  by (simp add: ComputeHash_def length_hex_encode)

lemma ComputeHash_nonempty [simp]: "ComputeHash e \<noteq> []"
  using length_ComputeHash [of e] by fastforce

lemma preimage_Hash [simp]: "preimage (e\<lparr>Hash := h\<rparr>) = preimage e"
  by (simp add: preimage_def)

lemma ComputeHash_Hash [simp]: "ComputeHash (e\<lparr>Hash := h\<rparr>) = ComputeHash e"
  by (simp add: ComputeHash_def)

lemma GenesisHash_nonempty [simp]: "GenesisHash \<noteq> []"
  by (simp add: GenesisHash_def)

lemma Seal_fields:
  assumes "Seal prev e = (e', h)"
  shows "PrevHash e' = (if prev = [] then GenesisHash else prev)" "Hash e' = h" "ComputeHash e' = h"
    "ID e' = ID e" "RequestID e' = RequestID e" "Timestamp e' = Timestamp e" "Kind e' = Kind e"
    "Payload e' = Payload e"
  using assms by (auto simp: Seal_def Let_def)

end
