(* ===== verification/Audit_Verify.thy ===== *)
theory Audit_Verify
  imports Model
begin

text \<open>
  \<^verbatim>\<open>internal/audit/verify.go\<close>: the walk over a run of entries that decides whether the chain is
  intact, with the result and filter types of \<^verbatim>\<open>repository.go\<close>.

  The walk accepts exactly the intact chains, names the first entry that breaks one, and two intact
  chains that end in the same hash hold the same entries unless SHA-256 collides on two of them.
\<close>

subsection \<open>Results and filters\<close>

record VerifyResult =
  OK :: bool
  Checked :: int
  VFrom :: string
  VTo :: string
  BrokenAt :: string
  Position :: int
  VTimestamp :: string
  Detail :: string

text \<open>The zero value of the struct.\<close>

definition no_result :: VerifyResult where
  "no_result = \<lparr>OK = False, Checked = 0, VFrom = [], VTo = [], BrokenAt = [], Position = 0,
                VTimestamp = [], Detail = []\<rparr>"

record Filter =
  FKind :: string
  FVerdict :: string
  FIP :: string
  FRule :: string
  FRequestID :: string
  FFrom :: time
  FTo :: time
  Limit :: int
  Offset :: int

definition Normalized :: "Filter \<Rightarrow> Filter" where
  "Normalized f =
     (let f1 = (if Limit f \<le> 0 then f\<lparr>Limit := 50\<rparr> else f);
          f2 = (if Limit f1 > 500 then f1\<lparr>Limit := 500\<rparr> else f1)
      in if Offset f2 < 0 then f2\<lparr>Offset := 0\<rparr> else f2)"

subsection \<open>The walker\<close>

record chainWalker =
  prev :: string
  position :: int

definition newChainWalker :: "string \<Rightarrow> chainWalker" where
  "newChainWalker anchor =
     \<lparr>prev = (if anchor = [] then GenesisHash else anchor), position = 0\<rparr>"

text \<open>The ellipsis is the UTF-8 encoding of U+2026.\<close>

definition ellipsis :: string where
  "ellipsis = [CHR 0xE2, CHR 0x80, CHR 0xA6]"

definition short :: "string \<Rightarrow> string" where
  "short hash = (if length hash \<le> 12 then hash else take 12 hash @ ellipsis)"

definition broken :: "chainWalker \<Rightarrow> AuditEntry \<Rightarrow> string \<Rightarrow> VerifyResult" where
  "broken w entry detail =
     no_result\<lparr>OK := False, Checked := position w, BrokenAt := ID entry, Position := position w,
               VTimestamp := format_rfc3339nano (Timestamp entry), Detail := detail\<rparr>"

definition link_detail :: "string \<Rightarrow> string \<Rightarrow> string" where
  "link_detail recorded expected =
     ''prev_hash does not match the previous entry: entry records '' @ short recorded
     @ '', chain expects '' @ short expected
     @ '' (an entry was deleted, reordered or inserted here)''"

definition content_detail :: "string \<Rightarrow> string \<Rightarrow> string" where
  "content_detail stored recomputed =
     ''stored hash '' @ short stored @ '' does not match the recomputed hash '' @ short recomputed
     @ CHR '' '' # CHR 0x28 # ''this entry'' @ CHR 0x27 # ''s content was modified after it was written)''"

text \<open>The walker after the entry, and the report when the entry breaks the chain.\<close>

definition step :: "chainWalker \<Rightarrow> AuditEntry \<Rightarrow> chainWalker \<times> VerifyResult option" where
  "step w entry =
     (let w1 = w\<lparr>position := position w + 1\<rparr> in
      if PrevHash entry \<noteq> prev w1 then
        (w1, Some (broken w1 entry (link_detail (PrevHash entry) (prev w1))))
      else let recomputed = ComputeHash entry in
        if recomputed \<noteq> Hash entry then
          (w1, Some (broken w1 entry (content_detail (Hash entry) recomputed)))
        else (w1\<lparr>prev := Hash entry\<rparr>, None))"

definition result :: "chainWalker \<Rightarrow> VerifyResult" where
  "result w = no_result\<lparr>OK := True, Checked := position w\<rparr>"

definition stampRange :: "VerifyResult \<Rightarrow> time \<Rightarrow> time \<Rightarrow> VerifyResult" where
  "stampRange r from to =
     (let r1 = (if \<not> is_zero from then r\<lparr>VFrom := format_rfc3339 from\<rparr> else r)
      in if \<not> is_zero to then r1\<lparr>VTo := format_rfc3339 to\<rparr> else r1)"

text \<open>The loop both stores run over the entries of the verified range.\<close>

fun walk :: "chainWalker \<Rightarrow> AuditEntry list \<Rightarrow> VerifyResult" where
  "walk w [] = result w"
| "walk w (e # es) =
     (case step w e of (w', Some r) \<Rightarrow> r | (w', None) \<Rightarrow> walk w' es)"

subsection \<open>Intact chains\<close>

definition sealed :: "string \<Rightarrow> AuditEntry \<Rightarrow> bool" where
  "sealed a e \<longleftrightarrow> PrevHash e = a \<and> ComputeHash e = Hash e"

fun chained :: "string \<Rightarrow> AuditEntry list \<Rightarrow> bool" where
  "chained a [] = True"
| "chained a (e # es) = (sealed a e \<and> chained (Hash e) es)"

text \<open>The hash the next entry has to link to.\<close>

definition head_of :: "string \<Rightarrow> AuditEntry list \<Rightarrow> string" where
  "head_of a es = (if es = [] then a else Hash (last es))"

lemma head_of_simps [simp]:
  "head_of a [] = a" "head_of a (e # es) = head_of (Hash e) es" "head_of a (es @ [e]) = Hash e"
  by (auto simp: head_of_def)

lemma chained_append: "chained a (es @ fs) \<longleftrightarrow> chained a es \<and> chained (head_of a es) fs"
  by (induction es arbitrary: a) auto

lemma head_of_append: "head_of a (es @ fs) = head_of (head_of a es) fs"
  by (induction es arbitrary: a) auto

lemma step_ok: "sealed (prev w) e \<Longrightarrow> step w e = (\<lparr>prev = Hash e, position = position w + 1\<rparr>, None)"
  by (cases w) (simp add: step_def sealed_def)

lemma step_broken:
  assumes "\<not> sealed (prev w) e"
  obtains w' d where "step w e = (w', Some (broken (w\<lparr>position := position w + 1\<rparr>) e d))"
proof -
  have "\<exists>w' d. step w e = (w', Some (broken (w\<lparr>position := position w + 1\<rparr>) e d))"
    using assms by (cases "PrevHash e = prev w") (auto simp: step_def sealed_def Let_def)
  then show thesis using that by blast
qed

lemma walk_chained:
  "chained (prev w) es \<Longrightarrow> walk w es = result \<lparr>prev = head_of (prev w) es, position = position w + int (length es)\<rparr>"
proof (induction es arbitrary: w)
  case Nil
  then show ?case by (cases w) simp
next
  case (Cons e es)
  then show ?case by (simp add: step_ok add.commute add.left_commute)
qed

lemma walk_break:
  assumes "chained (prev w) pre" "\<not> sealed (head_of (prev w) pre) e"
  shows "\<exists>w' d. position w' = position w + int (length pre) + 1 \<and> walk w (pre @ e # post) = broken w' e d"
  using assms
proof (induction pre arbitrary: w)
  case Nil
  then obtain w' d where "step w e = (w', Some (broken (w\<lparr>position := position w + 1\<rparr>) e d))"
    using step_broken [of w e] by auto
  then show ?case
    by (intro exI [of _ "w\<lparr>position := position w + 1\<rparr>"] exI [of _ d]) simp
next
  case (Cons f pre)
  let ?w = "\<lparr>prev = Hash f, position = position w + 1\<rparr>"
  have "\<exists>w' d. position w' = position ?w + int (length pre) + 1 \<and> walk ?w (pre @ e # post) = broken w' e d"
    using Cons.prems by (intro Cons.IH) auto
  then show ?case using Cons.prems(1) by (simp add: step_ok add.assoc add.commute add.left_commute)
qed

lemma chain_split:
  assumes "\<not> chained a es"
  obtains pre e post where "es = pre @ e # post" "chained a pre" "\<not> sealed (head_of a pre) e"
proof -
  have "\<not> chained a es \<Longrightarrow> \<exists>pre e post. es = pre @ e # post \<and> chained a pre \<and> \<not> sealed (head_of a pre) e"
  proof (induction es arbitrary: a)
    case (Cons e es)
    show ?case
    proof (cases "sealed a e")
      case True
      with Cons obtain pre f post where "es = pre @ f # post" "chained (Hash e) pre"
        "\<not> sealed (head_of (Hash e) pre) f" by auto blast
      with True show ?thesis by (intro exI [of _ "e # pre"] exI [of _ f] exI [of _ post]) simp
    next
      case False
      then show ?thesis by (intro exI [of _ "[]"] exI [of _ e] exI [of _ es]) simp
    qed
  qed simp
  then show thesis using assms that by blast
qed

lemma walk_ok_iff: "OK (walk w es) \<longleftrightarrow> chained (prev w) es"
proof
  assume "OK (walk w es)"
  show "chained (prev w) es"
  proof (rule ccontr)
    assume "\<not> chained (prev w) es"
    then obtain pre e post where es: "es = pre @ e # post" and split: "chained (prev w) pre" "\<not> sealed (head_of (prev w) pre) e"
      by (rule chain_split)
    then obtain w' d where "walk w es = broken w' e d" using walk_break [OF split, of post] by auto
    then show False using \<open>OK (walk w es)\<close> by (simp add: broken_def no_result_def)
  qed
qed (simp add: walk_chained result_def)

lemma stampRange_fields [simp]:
  "OK (stampRange r from to) = OK r" "Checked (stampRange r from to) = Checked r"
  "BrokenAt (stampRange r from to) = BrokenAt r" "Position (stampRange r from to) = Position r"
  "VTimestamp (stampRange r from to) = VTimestamp r" "Detail (stampRange r from to) = Detail r"
  by (simp_all add: stampRange_def Let_def)

lemma stampRange_zero [simp]: "stampRange r 0 0 = r"
  by (simp add: stampRange_def is_zero_def)

subsection \<open>Tamper evidence\<close>

text \<open>
  Two intact chains from the same anchor with the same head: walking back from the head, the entries
  agree one by one, until a collision, or until one chain is exhausted, in which case an entry of the
  other hashes to the anchor itself.
\<close>

lemma chains_agree:
  assumes "chained a es" "chained a es'" "head_of a es = head_of a es'"
    "list_all entry_ok es" "list_all entry_ok es'"
  shows "list_all2 same_entry es es' \<or> (\<exists>e \<in> set es. \<exists>e' \<in> set es'. collision e e')
    \<or> (\<exists>e \<in> set es \<union> set es'. Hash e = a)"
  using assms
proof (induction es arbitrary: es' rule: rev_induct)
  case Nil
  then show ?case by (cases "es' = []") (auto simp: head_of_def)
next
  case (snoc e es)
  show ?case
  proof (cases es' rule: rev_cases)
    case Nil
    then show ?thesis using snoc.prems(3) by simp
  next
    case (snoc fs f)
    note e = \<open>chained a (es @ [e])\<close> [unfolded chained_append, simplified]
      and f = \<open>chained a es'\<close> [unfolded snoc chained_append, simplified]
    have "ComputeHash e = ComputeHash f"
      using e f snoc.prems(3) snoc by (simp add: sealed_def)
    then have "same_entry e f \<or> collision e f"
      using hash_same_or_collision snoc.prems(4,5) snoc by simp
    moreover have ?thesis if "same_entry e f"
    proof -
      have "head_of a es = head_of a fs" using that e f by (simp add: same_entry_def sealed_def)
      then have "list_all2 same_entry es fs \<or> (\<exists>e \<in> set es. \<exists>e' \<in> set fs. collision e e')
        \<or> (\<exists>e \<in> set es \<union> set fs. Hash e = a)"
        using e f snoc.prems(4,5) snoc by (intro snoc.IH) auto
      then show ?thesis using that snoc by (auto simp: list_all2_appendI)
    qed
    ultimately show ?thesis using snoc by auto
  qed
qed

text \<open>The rest of an intact chain pins down the hash it was linked to.\<close>

lemma chained_anchor: "chained a (e # es) \<Longrightarrow> chained b (e # es) \<Longrightarrow> a = b"
  by (simp add: sealed_def)

lemma same_entry_Hash:
  assumes "same_entry e e'" "sealed a e" "sealed b e'" "entry_ok e" "entry_ok e'"
  shows "Hash e = Hash e'"
  using same_entry_preimage [OF assms(1)] assms(2-5)
  by (metis ComputeHash_def entry_ok_def sealed_def)

subsection \<open>Properties\<close>

text \<open>C3: Verification accepts exactly the intact chains. The walk over a run of entries reports OK if
  and only if every entry records the hash of its predecessor (the anchor for the first one, the
  genesis hash when there is no anchor) and its stored hash is the hash of its content.\<close>

theorem verify_iff_intact:
  "OK (walk (newChainWalker a) es) \<longleftrightarrow> chained (if a = [] then GenesisHash else a) es"
  by (simp add: walk_ok_iff newChainWalker_def)

text \<open>C5: A failed verification names the first entry that breaks the chain: everything before it is
  intact, it is not sealed over its predecessor, and its identifier and 1-based position are reported,
  the position also being the number of entries checked.\<close>

theorem verify_names_first_break:
  assumes "\<not> OK (walk (newChainWalker a) es)"
  shows "\<exists>pre e post. es = pre @ e # post \<and> chained (prev (newChainWalker a)) pre
     \<and> \<not> sealed (head_of (prev (newChainWalker a)) pre) e
     \<and> BrokenAt (walk (newChainWalker a) es) = ID e
     \<and> Position (walk (newChainWalker a) es) = int (length pre) + 1
     \<and> Checked (walk (newChainWalker a) es) = int (length pre) + 1"
proof -
  obtain pre e post where es: "es = pre @ e # post" and split: "chained (prev (newChainWalker a)) pre"
    "\<not> sealed (head_of (prev (newChainWalker a)) pre) e"
    using assms walk_ok_iff chain_split by metis
  obtain w' d where "position w' = int (length pre) + 1" "walk (newChainWalker a) es = broken w' e d"
    using walk_break [OF split, of post] es by (auto simp: newChainWalker_def)
  then have "BrokenAt (walk (newChainWalker a) es) = ID e"
    "Position (walk (newChainWalker a) es) = int (length pre) + 1"
    "Checked (walk (newChainWalker a) es) = int (length pre) + 1"
    by (simp_all add: broken_def no_result_def)
  then show ?thesis using es split by blast
qed

definition orphan :: AuditEntry where
  "orphan = \<lparr>ID = ''e1'', RequestID = [], Timestamp = 0, Kind = ''system'', Payload = Some [],
             PrevHash = ''nowhere'', Hash = []\<rparr>"

lemma orphan_breaks: "\<not> OK (walk (newChainWalker []) [orphan])"
  unfolding walk_ok_iff by (simp add: newChainWalker_def sealed_def orphan_def GenesisHash_def)

theorem verify_names_first_break_witness:
  "\<exists>pre e post. [orphan] = pre @ e # post \<and> chained (prev (newChainWalker [])) pre
     \<and> \<not> sealed (head_of (prev (newChainWalker [])) pre) e
     \<and> BrokenAt (walk (newChainWalker []) [orphan]) = ID e
     \<and> Position (walk (newChainWalker []) [orphan]) = int (length pre) + 1
     \<and> Checked (walk (newChainWalker []) [orphan]) = int (length pre) + 1"
  by (rule verify_names_first_break) (rule orphan_breaks)

text \<open>C4: Tamper evidence. Two histories that both verify from the genesis hash and end in the same
  head hold the same entries, field by field and payload by payload, unless two of their entries are a
  collision of SHA-256 or an entry hashes to the genesis hash. So an edit, insertion, deletion or
  reordering that keeps the head cannot go unnoticed.\<close>

theorem tamper_evident:
  assumes "OK (walk (newChainWalker GenesisHash) es)" "OK (walk (newChainWalker GenesisHash) es')"
    "head_of GenesisHash es = head_of GenesisHash es'" "list_all entry_ok es" "list_all entry_ok es'"
  shows "list_all2 same_entry es es' \<or> (\<exists>e \<in> set es. \<exists>e' \<in> set es'. collision e e')
    \<or> (\<exists>e \<in> set es \<union> set es'. Hash e = GenesisHash)"
  using assms by (intro chains_agree) (simp_all add: walk_ok_iff newChainWalker_def)

definition first_entry :: AuditEntry where
  "first_entry = fst (Seal [] orphan)"

lemma first_entry_facts: "sealed GenesisHash first_entry" "entry_ok first_entry"
proof -
  note f = Seal_fields [OF surjective_pairing, of "[]" orphan]
  show "sealed GenesisHash first_entry" by (simp add: sealed_def first_entry_def f)
  have fields: "PrevHash first_entry = GenesisHash" "ID first_entry = ''e1''" "RequestID first_entry = []"
    "Timestamp first_entry = 0" "Kind first_entry = ''system''" "Payload first_entry = Some []"
    by (simp_all add: first_entry_def f) (simp_all add: orphan_def)
  have "CanonicalJSON (GMap []) = Inr ''{}''" by code_simp
  then show "entry_ok first_entry"
    using good_empty
    by (simp add: entry_ok_def fields fits_def GenesisHash_def good_payload_def
        hash_payload_def payload_value_def time_ok_def second_def)
qed

theorem tamper_evident_witness:
  "list_all2 same_entry [first_entry] [first_entry]
    \<or> (\<exists>e \<in> set [first_entry]. \<exists>e' \<in> set [first_entry]. collision e e')
    \<or> (\<exists>e \<in> set [first_entry] \<union> set [first_entry]. Hash e = GenesisHash)"
proof (rule tamper_evident)
  show "OK (walk (newChainWalker GenesisHash) [first_entry])"
    "OK (walk (newChainWalker GenesisHash) [first_entry])"
    unfolding walk_ok_iff by (simp_all add: newChainWalker_def first_entry_facts)
qed (simp_all add: first_entry_facts)

text \<open>C6: The hash covers the whole entry. Two entries with the same computed hash agree on the
  previous hash, identifier, request, timestamp and kind and hold the same payload data, unless the
  bytes hashed for them are a collision of SHA-256.\<close>

theorem hash_covers_entry:
  assumes "entry_ok e" "entry_ok e'" "ComputeHash e = ComputeHash e'"
  shows "same_entry e e' \<or> (preimage e \<noteq> preimage e' \<and> sha256 (preimage e) = sha256 (preimage e'))"
  using hash_same_or_collision [OF assms] by (simp only: collision_def)

theorem hash_covers_entry_witness:
  "same_entry first_entry first_entry
    \<or> (preimage first_entry \<noteq> preimage first_entry \<and> sha256 (preimage first_entry) = sha256 (preimage first_entry))"
  by (rule hash_covers_entry) (simp_all add: first_entry_facts)

end
