(* ===== verification/Audit_Memory.thy ===== *)
theory Audit_Memory
  imports Audit_Verify "HOL-Library.Product_Lexorder"
begin

text \<open>
  \<^verbatim>\<open>internal/audit/memory.go\<close>: the in-memory audit log. Every method runs under the log's
  mutex, so each is one atomic operation on the list of entries.
\<close>

subsection \<open>Operations\<close>

record Memory =
  entries :: "AuditEntry list"

definition NewMemory :: Memory where
  "NewMemory = \<lparr>entries = []\<rparr>"

definition mem_Append :: "AuditEntry \<Rightarrow> Memory \<Rightarrow> Memory" where
  "mem_Append entry m = m\<lparr>entries := entries m @ [entry]\<rparr>"

definition mem_Head :: "Memory \<Rightarrow> string" where
  "mem_Head m = (if length (entries m) = 0 then GenesisHash else Hash (entries m ! (length (entries m) - 1)))"

text \<open>The first loop of \<^verbatim>\<open>VerifyChain\<close>: the anchor and the entries left to walk.\<close>

fun mem_anchor :: "time \<Rightarrow> string \<Rightarrow> AuditEntry list \<Rightarrow> string \<times> AuditEntry list" where
  "mem_anchor from anchor [] = (anchor, [])"
| "mem_anchor from anchor (e # es) =
     (if \<not> is_zero from \<and> Timestamp e < from then mem_anchor from (Hash e) es else (anchor, e # es))"

text \<open>The second loop.\<close>

fun mem_walk :: "time \<Rightarrow> chainWalker \<Rightarrow> AuditEntry list \<Rightarrow> VerifyResult" where
  "mem_walk to w [] = result w"
| "mem_walk to w (e # es) =
     (if \<not> is_zero to \<and> Timestamp e > to then result w
      else case step w e of (w', Some r) \<Rightarrow> r | (w', None) \<Rightarrow> mem_walk to w' es)"

definition mem_VerifyChain :: "Memory \<Rightarrow> time \<Rightarrow> time \<Rightarrow> VerifyResult" where
  "mem_VerifyChain m from to =
     (let (anchor, es) = mem_anchor from GenesisHash (entries m)
      in stampRange (mem_walk to (newChainWalker anchor) es) from to)"

definition payloadString :: "AuditEntry \<Rightarrow> string \<Rightarrow> string" where
  "payloadString e key =
     (case Payload e of None \<Rightarrow> []
      | Some p \<Rightarrow> (case map_of p key of Some (GString v) \<Rightarrow> trim_space v | _ \<Rightarrow> []))"

definition memoryMatches :: "AuditEntry \<Rightarrow> Filter \<Rightarrow> bool" where
  "memoryMatches e f =
     (if FKind f \<noteq> [] \<and> Kind e \<noteq> FKind f then False
      else if FRequestID f \<noteq> [] \<and> RequestID e \<noteq> FRequestID f then False
      else if FVerdict f \<noteq> [] \<and> payloadString e ''verdict'' \<noteq> FVerdict f then False
      else if FIP f \<noteq> [] \<and> payloadString e ''ip'' \<noteq> FIP f then False
      else if FRule f \<noteq> [] \<and> payloadString e ''rule'' \<noteq> FRule f then False
      else if \<not> is_zero (FFrom f) \<and> Timestamp e < FFrom f then False
      else if \<not> is_zero (FTo f) \<and> Timestamp e > FTo f then False
      else True)"

text \<open>The sort is stable, newest first.\<close>

definition mem_List :: "Memory \<Rightarrow> Filter \<Rightarrow> AuditEntry list" where
  "mem_List m f0 =
     (let f = Normalized f0;
          matched = sort_key (\<lambda>e. - Timestamp e) (filter (\<lambda>e. memoryMatches e f) (entries m))
      in if Offset f \<ge> int (length matched) then []
         else let matched = drop (nat (Offset f)) matched in
           if int (length matched) > Limit f then take (nat (Limit f)) matched else matched)"

definition mem_Count :: "Memory \<Rightarrow> Filter \<Rightarrow> int" where
  "mem_Count m f = int (length (filter (\<lambda>e. memoryMatches e f) (entries m)))"

text \<open>\<^verbatim>\<open>CountedBy\<close> rows are pairs of a label and a count.\<close>

type_synonym CountedBy = "string \<times> int"

record Bucket =
  Start :: time
  BAllowed :: int
  BBlocked :: int

record Stats =
  Window :: string
  Total :: int
  Allowed :: int
  Blocked :: int
  TopIPs :: "CountedBy list"
  TopRules :: "CountedBy list"
  Series :: "Bucket list"

definition topCounts :: "int gomap \<Rightarrow> nat \<Rightarrow> CountedBy list" where
  "topCounts counts limit =
     (let out = sort_key (\<lambda>row. (- snd row, fst row)) counts
      in if length out > limit then take limit out else out)"

definition count_up :: "string \<Rightarrow> int gomap \<Rightarrow> int gomap" where
  "count_up label m = (if label \<noteq> [] then map_put label (map_get 0 m label + 1) m else m)"

text \<open>One round of the counting loop: the totals and the two tables.\<close>

definition stats_round :: "time \<Rightarrow> AuditEntry \<Rightarrow> Stats \<times> int gomap \<times> int gomap \<Rightarrow> Stats \<times> int gomap \<times> int gomap" where
  "stats_round cutoff e acc =
     (let (stats, ips, rules) = acc in
      if Kind e \<noteq> KindTraffic \<or> Timestamp e < cutoff then acc
      else let stats = stats\<lparr>Total := Total stats + 1\<rparr> in
        if payloadString e ''verdict'' = verdict_text Block
        then (stats\<lparr>Blocked := Blocked stats + 1\<rparr>, count_up (payloadString e ''ip'') ips,
              count_up (payloadString e ''rule'') rules)
        else (stats\<lparr>Allowed := Allowed stats + 1\<rparr>, ips, rules))"

definition mem_Stats :: "time \<Rightarrow> Memory \<Rightarrow> duration \<Rightarrow> Stats" where
  "mem_Stats now m window =
     (let cutoff = now - window;
          zero = \<lparr>Window = duration_string window, Total = 0, Allowed = 0, Blocked = 0,
                  TopIPs = [], TopRules = [], Series = []\<rparr>;
          (stats, ips, rules) = fold (stats_round cutoff) (entries m) (zero, [], [])
      in stats\<lparr>TopIPs := topCounts ips 10, TopRules := topCounts rules 10\<rparr>)"

definition Entries :: "Memory \<Rightarrow> AuditEntry list" where
  "Entries m = entries m"

text \<open>Both test helpers index the log and panic (\<^const>\<open>None\<close>) outside it.\<close>

definition Tamper :: "nat \<Rightarrow> (AuditEntry \<Rightarrow> AuditEntry) \<Rightarrow> Memory \<Rightarrow> Memory option" where
  "Tamper i mutate m =
     (if i < length (entries m) then Some (m\<lparr>entries := (entries m)[i := mutate (entries m ! i)]\<rparr>)
      else None)"

definition Truncate :: "nat \<Rightarrow> Memory \<Rightarrow> Memory option" where
  "Truncate i m =
     (if i < length (entries m) then Some (m\<lparr>entries := take i (entries m) @ drop (i + 1) (entries m)\<rparr>)
      else None)"

subsection \<open>Verification\<close>

lemma mem_walk_takeWhile:
  "mem_walk to w es = walk w (takeWhile (\<lambda>e. is_zero to \<or> Timestamp e \<le> to) es)"
  by (induction to w es rule: mem_walk.induct) (auto split: prod.splits option.splits)

lemma mem_anchor_takeWhile:
  "mem_anchor from a es =
     (let p = (\<lambda>e. \<not> is_zero from \<and> Timestamp e < from)
      in (head_of a (takeWhile p es), dropWhile p es))"
  by (induction "from" a es rule: mem_anchor.induct) (auto simp: Let_def)

lemma mem_VerifyChain_all: "mem_VerifyChain m 0 0 = walk (newChainWalker GenesisHash) (entries m)"
proof -
  have id: "takeWhile (\<lambda>e. True) es = es" "takeWhile (\<lambda>e. False) es = []"
    "dropWhile (\<lambda>e. False) es = es" for es :: "AuditEntry list"
    by (induction es) simp_all
  show ?thesis
    by (simp add: mem_VerifyChain_def mem_anchor_takeWhile mem_walk_takeWhile Let_def is_zero_def id)
qed

lemma mem_Head_head_of: "mem_Head m = head_of GenesisHash (entries m)"
  by (cases "entries m" rule: rev_cases) (auto simp: mem_Head_def)

lemma prev_newChainWalker: "prev (newChainWalker a) = (if a = [] then GenesisHash else a)"
  by (simp add: newChainWalker_def)

lemma chained_hash_nonempty: "chained a es \<Longrightarrow> a \<noteq> [] \<Longrightarrow> head_of a es \<noteq> []"
  by (induction es arbitrary: a) (auto simp: sealed_def, metis ComputeHash_nonempty)

text \<open>A range check of an intact log succeeds, whatever the range and the order of the timestamps.\<close>

lemma mem_VerifyChain_intact:
  assumes "chained GenesisHash (entries m)"
  shows "OK (mem_VerifyChain m from to)"
proof -
  let ?p = "\<lambda>e. \<not> is_zero from \<and> Timestamp e < from" and ?q = "\<lambda>e. is_zero to \<or> Timestamp e \<le> to"
  have "entries m = takeWhile ?p (entries m) @ takeWhile ?q (dropWhile ?p (entries m))
      @ dropWhile ?q (dropWhile ?p (entries m))" by simp
  then have "chained GenesisHash (takeWhile ?p (entries m))"
    "chained (head_of GenesisHash (takeWhile ?p (entries m))) (takeWhile ?q (dropWhile ?p (entries m)))"
    using assms chained_append by metis+
  moreover from this(1) have "head_of GenesisHash (takeWhile ?p (entries m)) \<noteq> []"
    by (rule chained_hash_nonempty) simp
  ultimately show ?thesis
    by (simp add: mem_VerifyChain_def mem_anchor_takeWhile mem_walk_takeWhile Let_def walk_ok_iff
        prev_newChainWalker)
qed

subsection \<open>Listing and counting\<close>

lemma Normalized_bounds:
  "0 < Limit (Normalized f)" "Limit (Normalized f) \<le> 500" "0 \<le> Offset (Normalized f)"
  by (simp_all add: Normalized_def Let_def)

lemma Normalized_fix: "0 < Limit f \<Longrightarrow> Limit f \<le> 500 \<Longrightarrow> 0 \<le> Offset f \<Longrightarrow> Normalized f = f"
  by (simp add: Normalized_def)

lemma Normalized_fields [simp]:
  "FKind (Normalized f) = FKind f" "FVerdict (Normalized f) = FVerdict f" "FIP (Normalized f) = FIP f"
  "FRule (Normalized f) = FRule f" "FRequestID (Normalized f) = FRequestID f"
  "FFrom (Normalized f) = FFrom f" "FTo (Normalized f) = FTo f"
  by (simp_all add: Normalized_def Let_def)

lemma memoryMatches_page [simp]:
  "memoryMatches e (f\<lparr>Limit := l\<rparr>) = memoryMatches e f"
  "memoryMatches e (f\<lparr>Offset := k\<rparr>) = memoryMatches e f"
  "memoryMatches e (Normalized f) = memoryMatches e f"
  by (simp_all add: memoryMatches_def)

text \<open>All the entries a filter selects, in the order in which they are listed.\<close>

definition matching :: "Memory \<Rightarrow> Filter \<Rightarrow> AuditEntry list" where
  "matching m f = sort_key (\<lambda>e. - Timestamp e) (filter (\<lambda>e. memoryMatches e f) (entries m))"

lemma mem_List_page:
  "mem_List m f = take (nat (Limit (Normalized f))) (drop (nat (Offset (Normalized f))) (matching m f))"
  using Normalized_bounds [of f] by (auto simp: mem_List_def matching_def Let_def)

lemma concat_pages:
  assumes "0 < l" "length xs \<le> n * l"
  shows "concat (map (\<lambda>i. take l (drop (i * l) xs)) [0..<n]) = xs"
proof -
  have "concat (map (\<lambda>i. take l (drop (i * l) xs)) [0..<n]) = take (n * l) xs" for n
    by (induction n) (simp_all add: take_add [symmetric] add.commute)
  then show ?thesis using assms(2) by simp
qed

text \<open>The counting loop, as totals over the traffic entries since the cutoff.\<close>

definition in_window :: "time \<Rightarrow> AuditEntry \<Rightarrow> bool" where
  "in_window cutoff e \<longleftrightarrow> Kind e = KindTraffic \<and> cutoff \<le> Timestamp e"

definition is_blocked :: "AuditEntry \<Rightarrow> bool" where
  "is_blocked e \<longleftrightarrow> payloadString e ''verdict'' = verdict_text Block"

definition labels :: "time \<Rightarrow> string \<Rightarrow> AuditEntry list \<Rightarrow> string list" where
  "labels cutoff key es =
     filter (\<lambda>l. l \<noteq> []) (map (\<lambda>e. payloadString e key)
       (filter (\<lambda>e. in_window cutoff e \<and> is_blocked e) es))"

definition table_of :: "string list \<Rightarrow> int gomap \<Rightarrow> bool" where
  "table_of ls t \<longleftrightarrow> distinct (keys t) \<and> (\<forall>l. map_get 0 t l = int (count_list ls l)) \<and> set (keys t) = set ls"

lemma table_of_count_up:
  "table_of ls t \<Longrightarrow> table_of (if l = [] then ls else ls @ [l]) (count_up l t)"
  by (auto simp: table_of_def count_up_def map_get_put map_put_keys intro: wf_intros)

lemma stats_fold:
  assumes "table_of ls ips" "table_of rs rules" "Total s0 = Allowed s0 + Blocked s0"
    "fold (stats_round c) es (s0, ips, rules) = (s, ips', rules')"
  shows "table_of (ls @ labels c ''ip'' es) ips' \<and> table_of (rs @ labels c ''rule'' es) rules'
    \<and> Total s = Total s0 + int (length (filter (in_window c) es))
    \<and> Blocked s = Blocked s0 + int (length (filter (\<lambda>e. in_window c e \<and> is_blocked e) es))
    \<and> Total s = Allowed s + Blocked s"
  using assms
proof (induction es arbitrary: ls rs ips rules s0)
  case Nil
  then show ?case by (simp add: labels_def)
next
  case (Cons e es)
  consider "\<not> in_window c e" | "in_window c e" "\<not> is_blocked e" | "in_window c e" "is_blocked e" by blast
  then show ?case
  proof cases
    case 1
    then have "stats_round c e (s0, ips, rules) = (s0, ips, rules)"
      by (auto simp: stats_round_def in_window_def)
    then show ?thesis using Cons.IH [OF Cons.prems(1-3)] Cons.prems(4) 1 by (simp add: labels_def)
  next
    case 2
    let ?s = "s0\<lparr>Total := Total s0 + 1, Allowed := Allowed s0 + 1\<rparr>"
    have "stats_round c e (s0, ips, rules) = (?s, ips, rules)"
      using 2 by (auto simp: stats_round_def in_window_def is_blocked_def)
    then show ?thesis
      using Cons.IH [OF Cons.prems(1,2), of ?s] Cons.prems(3,4) 2 by (simp add: labels_def)
  next
    case 3
    let ?s = "s0\<lparr>Total := Total s0 + 1, Blocked := Blocked s0 + 1\<rparr>"
    let ?ip = "payloadString e ''ip''" and ?rule = "payloadString e ''rule''"
    have round: "stats_round c e (s0, ips, rules) = (?s, count_up ?ip ips, count_up ?rule rules)"
      using 3 by (auto simp: stats_round_def in_window_def is_blocked_def)
    show ?thesis
      using Cons.IH [OF table_of_count_up [OF Cons.prems(1), of ?ip]
          table_of_count_up [OF Cons.prems(2), of ?rule], of ?s] Cons.prems(3,4) 3 round
      by (simp add: labels_def split: if_splits)
  qed
qed

subsection \<open>Properties\<close>

lemma matching_Offset [simp]: "matching m (f\<lparr>Offset := k\<rparr>) = matching m f"
  by (simp add: matching_def)

text \<open>Paging through the log is exhaustive. Requesting consecutive pages of a legal size returns
  together every entry the filter selects exactly once, newest first, and their number is what
  \<^const>\<open>mem_Count\<close> reports.\<close>

lemma pages_partition_log:
  assumes "0 < Limit f" "Limit f \<le> 500" "mem_Count m f \<le> int n * Limit f"
  shows "concat (map (\<lambda>i. mem_List m (f\<lparr>Offset := int i * Limit f\<rparr>)) [0..<n]) = matching m f
    \<and> int (length (matching m f)) = mem_Count m f
    \<and> mset (matching m f) = mset (filter (\<lambda>e. memoryMatches e f) (entries m))
    \<and> sorted_wrt (\<lambda>e e'. Timestamp e' \<le> Timestamp e) (matching m f)"
proof -
  let ?l = "nat (Limit f)"
  have page: "mem_List m (f\<lparr>Offset := int i * Limit f\<rparr>) = take ?l (drop (i * ?l) (matching m f))" for i
    using assms(1,2) by (simp add: mem_List_page Normalized_fix nat_mult_distrib)
  have count: "int (length (matching m f)) = mem_Count m f"
    by (simp add: matching_def mem_Count_def)
  have "int (length (matching m f)) \<le> int (n * ?l)" using assms count by simp
  then have "length (matching m f) \<le> n * ?l" by linarith
  then have "concat (map (\<lambda>i. mem_List m (f\<lparr>Offset := int i * Limit f\<rparr>)) [0..<n]) = matching m f"
    using assms(1) concat_pages [of ?l "matching m f" n] by (simp add: page)
  moreover have "sorted (map (\<lambda>e. - Timestamp e) (matching m f))" by (simp add: matching_def)
  then have "sorted_wrt (\<lambda>e e'. Timestamp e' \<le> Timestamp e) (matching m f)"
    by (simp add: sorted_map)
  ultimately show ?thesis using count by (simp add: matching_def)
qed

definition no_filter :: Filter where
  "no_filter = \<lparr>FKind = [], FVerdict = [], FIP = [], FRule = [], FRequestID = [], FFrom = 0, FTo = 0,
               Limit = 1, Offset = 0\<rparr>"

text \<open>Removing an entry from the middle of an intact log is detected, at the exact place: the
  verification that follows fails on the entry that came after the removed one. The one exception is
  an entry whose hash equals the hash it links to.\<close>

lemma deletion_detected:
  assumes "OK (mem_VerifyChain m 0 0)" "Truncate i m = Some m'" "i + 1 < length (entries m)"
  shows "(\<not> OK (mem_VerifyChain m' 0 0) \<and> Position (mem_VerifyChain m' 0 0) = int i + 1
     \<and> BrokenAt (mem_VerifyChain m' 0 0) = ID (entries m ! (i + 1)))
    \<or> Hash (entries m ! i) = PrevHash (entries m ! i)"
proof (rule disjCI)
  assume ne: "Hash (entries m ! i) \<noteq> PrevHash (entries m ! i)"
  let ?es = "entries m" and ?w = "newChainWalker GenesisHash"
  have w: "prev ?w = GenesisHash" "position ?w = 0" by (simp_all add: newChainWalker_def)
  have i: "i < length ?es" using assms(3) by simp
  have d: "drop (Suc i) ?es = ?es ! (i + 1) # drop (i + 2) ?es"
    using Cons_nth_drop_Suc [of "Suc i" ?es] assms(3) by simp
  have "chained GenesisHash (take i ?es @ ?es ! i # ?es ! (i + 1) # drop (i + 2) ?es)"
    using assms(1) id_take_nth_drop [OF i] unfolding mem_VerifyChain_all walk_ok_iff w d by simp
  then have pre: "chained GenesisHash (take i ?es)" "sealed (head_of GenesisHash (take i ?es)) (?es ! i)"
    "PrevHash (?es ! (i + 1)) = Hash (?es ! i)"
    by (simp_all add: chained_append sealed_def)
  have "\<not> sealed (head_of GenesisHash (take i ?es)) (?es ! (i + 1))"
    using pre(2,3) ne by (simp add: sealed_def)
  then obtain w' d' where "position w' = int i + 1"
    "walk ?w (take i ?es @ ?es ! (i + 1) # drop (i + 2) ?es) = broken w' (?es ! (i + 1)) d'"
    using walk_break [of ?w "take i ?es" "?es ! (i + 1)" "drop (i + 2) ?es"] pre(1) w i by auto
  moreover have "entries m' = take i ?es @ ?es ! (i + 1) # drop (i + 2) ?es"
    using assms(2) d by (auto simp: Truncate_def split: if_splits)
  ultimately show "\<not> OK (mem_VerifyChain m' 0 0) \<and> Position (mem_VerifyChain m' 0 0) = int i + 1
     \<and> BrokenAt (mem_VerifyChain m' 0 0) = ID (?es ! (i + 1))"
    by (simp add: mem_VerifyChain_all broken_def no_result_def)
qed

definition second_entry :: AuditEntry where
  "second_entry = fst (Seal (Hash first_entry) (orphan\<lparr>ID := ''e2''\<rparr>))"

lemma second_entry_facts: "sealed (Hash first_entry) second_entry"
proof -
  have "Hash first_entry \<noteq> []" using first_entry_facts(1) by (metis ComputeHash_nonempty sealed_def)
  then show ?thesis
    using Seal_fields [OF surjective_pairing, of "Hash first_entry" "orphan\<lparr>ID := ''e2''\<rparr>"]
    by (simp add: sealed_def second_entry_def)
qed

lemma two_entries_intact: "OK (mem_VerifyChain \<lparr>entries = [first_entry, second_entry]\<rparr> 0 0)"
  using first_entry_facts(1) second_entry_facts
  by (intro mem_VerifyChain_intact) simp

text \<open>Removing the newest entries is not detected: what is left of an intact log still verifies.
  The chain binds the past of an entry, not its future.\<close>

lemma tail_deletion_undetected:
  assumes "OK (mem_VerifyChain m 0 0)" "Truncate (length (entries m) - 1) m = Some m'"
  shows "OK (mem_VerifyChain m' 0 0)"
proof -
  have "entries m \<noteq> []" using assms(2) by (auto simp: Truncate_def)
  then have "entries m' = butlast (entries m)"
    using assms(2) by (auto simp: Truncate_def butlast_conv_take)
  moreover have "chained GenesisHash (butlast (entries m) @ [last (entries m)])"
    using assms(1) \<open>entries m \<noteq> []\<close> by (simp add: mem_VerifyChain_all walk_ok_iff newChainWalker_def)
  ultimately have "chained GenesisHash (entries m')" by (simp add: chained_append)
  then show ?thesis by (rule mem_VerifyChain_intact)
qed

end
