(* ===== verification/Audit_Repository.thy ===== *)
theory Audit_Repository
  imports Audit_Memory
begin

text \<open>
  The contract of the \<^verbatim>\<open>Repository\<close> interface (\<^verbatim>\<open>internal/audit/repository.go\<close>), as far
  as the writer relies on it, and its consequences for a chain that is only ever extended by sealed
  entries. The in-memory store meets the contract here, the PostgreSQL store in its own theory.

  The state of a store is seen through \<open>log\<close>, the history as a reader gets it. What the outside world
  does to one call (a refused connection, a lost reply) is the first argument of \<open>append\<close>, and
  \<open>honest\<close> excludes the one case in which a store reports an error although it stored the entry.
\<close>

text \<open>How an entry comes back out of a store: the same content and hash.\<close>

definition stored_as :: "AuditEntry \<Rightarrow> AuditEntry \<Rightarrow> bool" where
  "stored_as e e' \<longleftrightarrow> same_entry e e' \<and> Hash e' = Hash e \<and> good_payload (Payload e')"

lemma stored_as_sealed:
  assumes "stored_as e e'" "sealed a e" "good_payload (Payload e)"
  shows "sealed a e'" "Hash e' = Hash e"
proof -
  have "preimage e = preimage e'"
    using assms by (intro same_entry_preimage) (auto simp: stored_as_def)
  then show "sealed a e'" "Hash e' = Hash e"
    using assms by (auto simp: stored_as_def sealed_def ComputeHash_def same_entry_def)
qed

lemma same_entry_refl: "same_entry e e"
  by (simp add: same_entry_def same_refl)

lemma chained_snoc: "chained a es \<Longrightarrow> sealed (head_of a es) e \<Longrightarrow> chained a (es @ [e])"
  by (simp add: chained_append)

locale audit_repository =
  fixes log :: "'s \<Rightarrow> AuditEntry list"
    and inv :: "'s \<Rightarrow> bool"
    and honest :: "'env \<Rightarrow> bool"
    and storable :: "AuditEntry \<Rightarrow> bool"
    and append :: "'env \<Rightarrow> AuditEntry \<Rightarrow> 's \<Rightarrow> 's \<times> string option"
    and head :: "'s \<Rightarrow> string"
    and verify :: "'s \<Rightarrow> VerifyResult"
  assumes append_ok: "inv s \<Longrightarrow> storable e \<Longrightarrow> append env e s = (s', None) \<Longrightarrow>
      inv s' \<and> (\<exists>e'. log s' = log s @ [e'] \<and> stored_as e e')"
    and append_error: "inv s \<Longrightarrow> honest env \<Longrightarrow> append env e s = (s', Some err) \<Longrightarrow>
      inv s' \<and> log s' = log s"
    and head_law: "inv s \<Longrightarrow> head s = head_of GenesisHash (log s)"
    and verify_law: "inv s \<Longrightarrow> verify s = walk (newChainWalker GenesisHash) (log s)"
    and storable_good: "storable e \<Longrightarrow> good_payload (Payload e)"
begin

definition intact :: "'s \<Rightarrow> bool" where
  "intact s \<longleftrightarrow> inv s \<and> chained GenesisHash (log s)"

lemma intact_verify:
  assumes "inv s"
  shows "OK (verify s) \<longleftrightarrow> intact s"
  using assms by (simp add: intact_def verify_law walk_ok_iff prev_newChainWalker)

lemma intact_checked: "intact s \<Longrightarrow> Checked (verify s) = int (length (log s))"
  by (simp add: intact_def verify_law walk_chained prev_newChainWalker result_def no_result_def
      newChainWalker_def)

text \<open>Appending an entry sealed over the head keeps the chain intact and moves the head to it.\<close>

lemma append_sealed:
  assumes "intact s" "storable e" "sealed (head s) e" "append env e s = (s', None)"
  shows "intact s'" "head s' = Hash e" "\<exists>e'. log s' = log s @ [e'] \<and> stored_as e e'"
proof -
  from append_ok [OF _ assms(2,4)] assms(1)
  obtain e' where e': "inv s'" "log s' = log s @ [e']" "stored_as e e'"
    by (auto simp: intact_def)
  have "sealed (head_of GenesisHash (log s)) e'"
    using stored_as_sealed(1) [OF e'(3)] assms(1,2,3) by (simp add: intact_def head_law storable_good)
  then show "intact s'" using assms(1) e' by (simp add: intact_def chained_snoc)
  show "head s' = Hash e" using e' by (simp add: head_law stored_as_def)
  show "\<exists>e'. log s' = log s @ [e'] \<and> stored_as e e'" using e' by blast
qed

lemma append_failed:
  assumes "intact s" "honest env" "append env e s = (s', Some err)"
  shows "intact s'" "head s' = head s" "log s' = log s"
  using append_error [OF _ assms(2,3)] assms(1) by (auto simp: intact_def head_law)

end

subsection \<open>The in-memory store\<close>

definition mem_store :: "unit \<Rightarrow> AuditEntry \<Rightarrow> Memory \<Rightarrow> Memory \<times> string option" where
  "mem_store env e m = (mem_Append e m, None)"

interpretation mem: audit_repository entries "\<lambda>_. True" "\<lambda>_. True" "\<lambda>e. good_payload (Payload e)"
  mem_store mem_Head "\<lambda>m. mem_VerifyChain m 0 0"
  by unfold_locales
    (auto simp: mem_store_def mem_Append_def stored_as_def same_entry_refl mem_Head_head_of mem_VerifyChain_all)

end
