(* ===== verification/Audit_Writer.thy ===== *)
theory Audit_Writer
  imports Audit_Repository "HOL-Library.Sublist"
begin

text \<open>
  \<^verbatim>\<open>internal/audit/writer.go\<close>: the single goroutine behind a buffered channel that is the only
  component appending to the audit log.

  \<^verbatim>\<open>Record\<close> and \<^verbatim>\<open>RecordSync\<close> run concurrently with each other and with the writer
  goroutine. Each is split where another goroutine can come in between: it takes the read lock and
  builds its entry (the call is then \<open>inflight\<close>), later it sends the entry or gives up, and releases
  the lock. \<^verbatim>\<open>Close\<close> takes the write lock, so it waits until no call is in flight. The writer
  goroutine handles one queued entry per step. The order of all these steps is arbitrary: the writer
  is a step relation, and the results hold in every state it can reach.
\<close>

subsection \<open>State\<close>

record queued =
  qentry :: AuditEntry
  qdone :: bool

text \<open>
  \<open>qdone\<close> tells whether a caller waits for the outcome; \<open>replies\<close> holds what was sent to such
  callers, \<open>published\<close> what the publisher accepted, \<open>stopped\<close> whether the \<^verbatim>\<open>done\<close> channel
  is closed.
\<close>

record Writer =
  queue :: "queued list"
  cap :: nat
  has_pub :: bool
  closed :: bool
  stopped :: bool
  whead :: string
  dropped :: int
  written :: int
  failures :: int
  inflight :: "queued list"
  replies :: "(queued \<times> string option) list"
  published :: "AuditEntry list"

definition NewWriter :: "bool \<Rightarrow> int \<Rightarrow> bool \<Rightarrow> string result \<Rightarrow> Writer result" where
  "NewWriter repo buffer pub head =
     (if \<not> repo then Inl ''audit: writer requires a repository''
      else let buffer = (if buffer \<le> 0 then 4096 else buffer) in
        case head of Inl err \<Rightarrow> Inl err
        | Inr h \<Rightarrow>
           (let h = (if h = [] then GenesisHash else h)
            in Inr \<lparr>queue = [], cap = nat buffer, has_pub = pub, closed = False, stopped = False,
                    whead = h, dropped = 0, written = 0, failures = 0, inflight = [], replies = [],
                    published = []\<rparr>))"

text \<open>The identifier is a fresh UUID, the time what the clock shows; both come from outside.\<close>

definition build :: "string \<Rightarrow> time \<Rightarrow> string \<Rightarrow> string \<Rightarrow> payload \<Rightarrow> AuditEntry" where
  "build uuid now kind requestID payload =
     \<lparr>ID = uuid, RequestID = requestID, Timestamp = truncate_time now microsecond, Kind = kind,
      Payload = payload, PrevHash = [], Hash = []\<rparr>"

subsection \<open>Recording\<close>

text \<open>\<^verbatim>\<open>Record\<close> up to the \<^verbatim>\<open>select\<close>: a closed writer drops the entry.\<close>

definition Record_enter :: "AuditEntry \<Rightarrow> Writer \<Rightarrow> Writer" where
  "Record_enter entry w =
     (if closed w then w\<lparr>dropped := dropped w + 1\<rparr>
      else w\<lparr>inflight := inflight w @ [\<lparr>qentry = entry, qdone = False\<rparr>]\<rparr>)"

text \<open>The send succeeds when the channel has room.\<close>

definition has_room :: "Writer \<Rightarrow> bool" where
  "has_room w \<longleftrightarrow> length (queue w) < cap w"

definition leave :: "queued \<Rightarrow> Writer \<Rightarrow> Writer" where
  "leave item w = w\<lparr>inflight := remove1 item (inflight w)\<rparr>"

definition enqueue :: "queued \<Rightarrow> Writer \<Rightarrow> Writer" where
  "enqueue item w = w\<lparr>queue := queue w @ [item]\<rparr>"

definition Record_send :: "queued \<Rightarrow> Writer \<Rightarrow> Writer" where
  "Record_send item w =
     (let w = leave item w in
      if has_room w then enqueue item w else w\<lparr>dropped := dropped w + 1\<rparr>)"

text \<open>A call of \<^verbatim>\<open>Record\<close> that nothing interrupts.\<close>

definition Record :: "AuditEntry \<Rightarrow> Writer \<Rightarrow> Writer" where
  "Record entry w =
     (if closed w then Record_enter entry w
      else Record_send \<lparr>qentry = entry, qdone = False\<rparr> (Record_enter entry w))"

text \<open>\<^verbatim>\<open>RecordSync\<close>: refused by a closed writer, otherwise in flight until room or cancellation.\<close>

definition RecordSync_enter :: "AuditEntry \<Rightarrow> Writer \<Rightarrow> Writer \<times> string option" where
  "RecordSync_enter entry w =
     (if closed w then (w, Some ''audit: writer is closed'')
      else (w\<lparr>inflight := inflight w @ [\<lparr>qentry = entry, qdone = True\<rparr>]\<rparr>, None))"

definition RecordSync_send :: "queued \<Rightarrow> Writer \<Rightarrow> Writer" where
  "RecordSync_send item w = enqueue item (leave item w)"

definition RecordSync_cancel :: "queued \<Rightarrow> Writer \<Rightarrow> Writer \<times> string option" where
  "RecordSync_cancel item w = (leave item w, Some ''context canceled'')"

text \<open>
  The wait for the writer: the reply that it sent, or the cancellation of the caller, and either when both
  are there. Until then the call does not return.
\<close>

definition RecordSync_returns :: "queued \<Rightarrow> bool \<Rightarrow> Writer \<Rightarrow> string option \<Rightarrow> bool" where
  "RecordSync_returns item cancelled w err \<longleftrightarrow>
     (item, err) \<in> set (replies w) \<or> cancelled \<and> err = Some ''context canceled''"

subsection \<open>The writer goroutine\<close>

definition seal_entry :: "string \<Rightarrow> payload \<Rightarrow> AuditEntry \<Rightarrow> AuditEntry" where
  "seal_entry head p entry = fst (Seal head (entry\<lparr>Payload := p\<rparr>))"

text \<open>
  \<^verbatim>\<open>append\<close> on the state of the writer and of the store. The store's operation and what the
  environment does to the call are arguments, and so is whether publishing works.
\<close>

definition json_error_text :: "json_error \<Rightarrow> string" where
  "json_error_text e =
     (case e of EmptyNumber \<Rightarrow> ''canonical json: empty json.Number''
      | UnsupportedValue \<Rightarrow> ''canonical json: json: unsupported value''
      | SyntaxError \<Rightarrow> ''canonical json: invalid character''
      | NotObject \<Rightarrow> ''canonical json: payload normalised to a non-object'')"

definition writer_append ::
  "('env \<Rightarrow> AuditEntry \<Rightarrow> 's \<Rightarrow> 's \<times> string option) \<Rightarrow> 'env \<Rightarrow> bool \<Rightarrow> AuditEntry \<Rightarrow>
     Writer \<times> 's \<Rightarrow> (Writer \<times> 's) \<times> string option" where
  "writer_append app env pub_ok entry ws =
     (let (w, s) = ws in
      case NormalizePayload (Payload entry) of
        Inl err \<Rightarrow> ((w\<lparr>failures := failures w + 1\<rparr>, s), Some (json_error_text err))
      | Inr p \<Rightarrow>
         (let sealed_entry = seal_entry (whead w) p entry in
          case app env sealed_entry s of
            (s', Some err) \<Rightarrow> ((w\<lparr>failures := failures w + 1\<rparr>, s'), Some err)
          | (s', None) \<Rightarrow>
             (let w = w\<lparr>whead := Hash sealed_entry, written := written w + 1\<rparr>;
                  w = (if has_pub w \<and> pub_ok then w\<lparr>published := published w @ [sealed_entry]\<rparr> else w)
              in ((w, s'), None))))"

text \<open>
  One round of \<^verbatim>\<open>run\<close>: handle the oldest queued entry; when the channel is closed and empty,
  leave the loop and close \<^verbatim>\<open>done\<close>; otherwise wait.
\<close>

definition run_round ::
  "('env \<Rightarrow> AuditEntry \<Rightarrow> 's \<Rightarrow> 's \<times> string option) \<Rightarrow> 'env \<Rightarrow> bool \<Rightarrow> Writer \<times> 's \<Rightarrow> Writer \<times> 's" where
  "run_round app env pub_ok ws =
     (let (w, s) = ws in
      case queue w of
        [] \<Rightarrow> (if closed w then w\<lparr>stopped := True\<rparr> else w, s)
      | item # rest \<Rightarrow>
         (case writer_append app env pub_ok (qentry item) (w\<lparr>queue := rest\<rparr>, s) of
            ((w', s'), err) \<Rightarrow>
              (if qdone item then w'\<lparr>replies := replies w' @ [(item, err)]\<rparr> else w', s')))"

text \<open>\<^verbatim>\<open>Close\<close>, once it holds the write lock, and its wait for the writer.\<close>

definition Close_begin :: "Writer \<Rightarrow> Writer" where
  "Close_begin w = (if \<not> closed w then w\<lparr>closed := True\<rparr> else w)"

definition Close_result :: "Writer \<Rightarrow> string option" where
  "Close_result w = (if stopped w then None else Some ''context deadline exceeded'')"

record WriterStats =
  Written :: int
  Dropped :: int
  Failures :: int
  Queued :: int
  Capacity :: int

definition writer_Stats :: "Writer \<Rightarrow> WriterStats" where
  "writer_Stats w = \<lparr>Written = written w, Dropped = dropped w, Failures = failures w,
                     Queued = int (length (queue w)), Capacity = int (cap w)\<rparr>"

subsection \<open>The system\<close>

text \<open>
  The writer, its store, and what the proofs speak about: every entry the queue accepted, in the order
  it accepted them, how many calls were made, and how many synchronous calls returned an error without
  queuing anything.
\<close>

record 's system =
  wr :: Writer
  store :: 's
  accepted :: "AuditEntry list"
  calls :: int
  refused :: int

definition start :: "Writer \<Rightarrow> 's \<Rightarrow> 's system" where
  "start w s = \<lparr>wr = w, store = s, accepted = [], calls = 0, refused = 0\<rparr>"

inductive wstep ::
  "('env \<Rightarrow> AuditEntry \<Rightarrow> 's \<Rightarrow> 's \<times> string option) \<Rightarrow> ('env \<Rightarrow> bool) \<Rightarrow> (AuditEntry \<Rightarrow> bool) \<Rightarrow>
     's system \<Rightarrow> 's system \<Rightarrow> bool"
  for app honest built where
  enter: "built e \<Longrightarrow> wstep app honest built x
    (x\<lparr>wr := Record_enter e (wr x), calls := calls x + 1\<rparr>)"
| send: "item \<in> set (inflight (wr x)) \<Longrightarrow> \<not> qdone item \<Longrightarrow> wstep app honest built x
    (x\<lparr>wr := Record_send item (wr x),
       accepted := accepted x @ (if has_room (wr x) then [qentry item] else [])\<rparr>)"
| enter_sync: "built e \<Longrightarrow> RecordSync_enter e (wr x) = (w', err) \<Longrightarrow> wstep app honest built x
    (x\<lparr>wr := w', calls := calls x + 1, refused := refused x + (if err = None then 0 else 1)\<rparr>)"
| send_sync: "item \<in> set (inflight (wr x)) \<Longrightarrow> qdone item \<Longrightarrow> has_room (wr x) \<Longrightarrow> wstep app honest built x
    (x\<lparr>wr := RecordSync_send item (wr x), accepted := accepted x @ [qentry item]\<rparr>)"
| cancel_sync: "item \<in> set (inflight (wr x)) \<Longrightarrow> qdone item \<Longrightarrow> wstep app honest built x
    (x\<lparr>wr := fst (RecordSync_cancel item (wr x)), refused := refused x + 1\<rparr>)"
| run: "\<not> stopped (wr x) \<Longrightarrow> honest env \<Longrightarrow> run_round app env pub_ok (wr x, store x) = (w', s') \<Longrightarrow>
    wstep app honest built x (x\<lparr>wr := w', store := s'\<rparr>)"
| close: "inflight (wr x) = [] \<Longrightarrow> wstep app honest built x (x\<lparr>wr := Close_begin (wr x)\<rparr>)"

inductive wreach ::
  "('env \<Rightarrow> AuditEntry \<Rightarrow> 's \<Rightarrow> 's \<times> string option) \<Rightarrow> ('env \<Rightarrow> bool) \<Rightarrow> (AuditEntry \<Rightarrow> bool) \<Rightarrow>
     's system \<Rightarrow> 's system \<Rightarrow> bool"
  for app honest built where
  wreach_start: "wreach app honest built x x"
| wreach_step: "wreach app honest built x y \<Longrightarrow> wstep app honest built y z \<Longrightarrow> wreach app honest built x z"

subsection \<open>Accounting\<close>

text \<open>Nothing is lost unaccounted for, whatever the store does.\<close>

definition accounted :: "'s system \<Rightarrow> bool" where
  "accounted x \<longleftrightarrow>
     0 \<le> written (wr x) \<and> 0 \<le> failures (wr x)
     \<and> int (length (accepted x)) = written (wr x) + failures (wr x) + int (length (queue (wr x)))
     \<and> map qentry (queue (wr x)) = drop (nat (written (wr x) + failures (wr x))) (accepted x)
     \<and> calls x = int (length (accepted x)) + dropped (wr x) + refused x + int (length (inflight (wr x)))
     \<and> length (queue (wr x)) \<le> cap (wr x)
     \<and> (stopped (wr x) \<longrightarrow> closed (wr x) \<and> queue (wr x) = [])
     \<and> (closed (wr x) \<longrightarrow> inflight (wr x) = [])"

lemmas writer_ops = Record_enter_def Record_send_def RecordSync_enter_def RecordSync_send_def
  RecordSync_cancel_def leave_def enqueue_def has_room_def Close_begin_def Let_def

lemma length_remove1_mem: "x \<in> set xs \<Longrightarrow> int (length (remove1 x xs)) = int (length xs) - 1"
  using length_pos_if_in_set [of x xs] by (simp add: length_remove1 of_nat_diff Suc_leI)

lemma in_remove1: "y \<in> set (remove1 x xs) \<Longrightarrow> y \<in> set xs"
  using set_remove1_subset [of x xs] by blast

lemma writer_append_fields:
  assumes "writer_append app env pub_ok e (w, s) = ((w', s'), err)"
  shows "queue w' = queue w" "cap w' = cap w" "closed w' = closed w" "stopped w' = stopped w"
    "dropped w' = dropped w" "inflight w' = inflight w" "replies w' = replies w"
    "written w' = written w + (if err = None then 1 else 0)"
    "failures w' = failures w + (if err = None then 0 else 1)"
  using assms by (auto simp: writer_append_def Let_def split: sum.splits prod.splits option.splits if_splits)

lemma run_round_cases:
  assumes "run_round app env pub_ok (w, s) = (w', s')"
  obtains (idle) "queue w = []" "w' = (if closed w then w\<lparr>stopped := True\<rparr> else w)" "s' = s"
  | (item) item rest w1 err where "queue w = item # rest"
      "writer_append app env pub_ok (qentry item) (w\<lparr>queue := rest\<rparr>, s) = ((w1, s'), err)"
      "w' = (if qdone item then w1\<lparr>replies := replies w1 @ [(item, err)]\<rparr> else w1)"
  using assms that by (cases "queue w") (auto simp: run_round_def split: prod.splits)

lemma drop_Suc_eq: "x # xs = drop n ys \<Longrightarrow> xs = drop (Suc n) ys"
  by (metis drop_Suc drop_tl list.sel(3))

lemma run_round_accounted:
  assumes "accounted x" "run_round app env pub_ok (wr x, store x) = (w', s')"
  shows "accounted (x\<lparr>wr := w', store := s'\<rparr>)"
  using assms(2)
proof (cases rule: run_round_cases)
  case idle
  then show ?thesis using assms(1) by (auto simp: accounted_def)
next
  case (item it rest w1 err)
  note f = writer_append_fields [OF item(2), simplified]
  have "nat (written w1 + failures w1) = Suc (nat (written (wr x) + failures (wr x)))"
    using assms(1) f(8,9) by (auto simp: accounted_def)
  moreover have "map qentry rest = drop (Suc (nat (written (wr x) + failures (wr x)))) (accepted x)"
    using assms(1) item(1) by (intro drop_Suc_eq [of "qentry it"]) (simp add: accounted_def)
  ultimately show ?thesis
    using assms(1) item(1,3) f by (auto simp: accounted_def)
qed

lemma wstep_accounted: "wstep app honest built x y \<Longrightarrow> accounted x \<Longrightarrow> accounted y"
proof (induction rule: wstep.induct)
  case (enter e x)
  then show ?case by (auto simp: accounted_def writer_ops)
next
  case (send item x)
  have "inflight (wr x) \<noteq> []" using send(1) by auto
  then show ?case using send by (auto simp: accounted_def writer_ops length_remove1_mem)
next
  case (enter_sync e x w' err)
  then show ?case by (auto simp: accounted_def writer_ops split: if_splits)
next
  case (send_sync item x)
  have "inflight (wr x) \<noteq> []" using send_sync(1) by auto
  then show ?case using send_sync by (auto simp: accounted_def writer_ops length_remove1_mem)
next
  case (cancel_sync item x)
  have "inflight (wr x) \<noteq> []" using cancel_sync(1) by auto
  then show ?case using cancel_sync by (auto simp: accounted_def writer_ops length_remove1_mem)
next
  case (run x env pub_ok w' s')
  then show ?case by (simp add: run_round_accounted)
next
  case (close x)
  then show ?case by (auto simp: accounted_def writer_ops)
qed

lemma wreach_accounted: "wreach app honest built x y \<Longrightarrow> accounted x \<Longrightarrow> accounted y"
  by (induction rule: wreach.induct) (auto dest: wstep_accounted)

lemma start_accounted:
  assumes "NewWriter repo buffer pub head = Inr w"
  shows "accounted (start w s)"
  using assms by (auto simp: NewWriter_def accounted_def start_def Let_def split: if_splits sum.splits)

subsection \<open>The chain the writer builds\<close>

text \<open>An entry of the log as the record of a queued entry: normalised, sealed and stored.\<close>

definition records :: "AuditEntry \<Rightarrow> AuditEntry \<Rightarrow> bool" where
  "records e l \<longleftrightarrow> ID l = ID e \<and> RequestID l = RequestID e \<and> Timestamp l = Timestamp e \<and> Kind l = Kind e
     \<and> (\<exists>p. NormalizePayload (Payload e) = Inr p \<and> same_data (payload_value p) (payload_value (Payload l)))"

lemma NormalizePayload_good_payload: "NormalizePayload p = Inr q \<Longrightarrow> good_payload q"
  using NormalizePayload_good unfolding good_payload_def by blast

lemma seal_entry_fields:
  "PrevHash (seal_entry h p e) = (if h = [] then GenesisHash else h)"
  "Hash (seal_entry h p e) = ComputeHash (seal_entry h p e)"
  "ID (seal_entry h p e) = ID e" "RequestID (seal_entry h p e) = RequestID e"
  "Timestamp (seal_entry h p e) = Timestamp e" "Kind (seal_entry h p e) = Kind e"
  "Payload (seal_entry h p e) = p"
  using Seal_fields [OF surjective_pairing, of h "e\<lparr>Payload := p\<rparr>"] by (simp_all add: seal_entry_def)

lemma sealed_seal_entry: "h \<noteq> [] \<Longrightarrow> sealed h (seal_entry h p e)"
  by (simp add: sealed_def seal_entry_fields(1,2) flip: seal_entry_fields(2))

lemma records_stored:
  assumes "NormalizePayload (Payload e) = Inr p" "stored_as (seal_entry h p e) l"
  shows "records e l"
  using assms by (auto simp: records_def stored_as_def same_entry_def seal_entry_fields)

text \<open>
  \<open>appended es ls\<close>: the log entries \<open>ls\<close> are the records of some of the handled entries
  \<open>es\<close>, in their order.
\<close>

inductive appended :: "AuditEntry list \<Rightarrow> AuditEntry list \<Rightarrow> bool" where
  app_none: "appended [] []"
| app_failed: "appended es ls \<Longrightarrow> appended (es @ [e]) ls"
| app_written: "appended es ls \<Longrightarrow> records e l \<Longrightarrow> appended (es @ [e]) (ls @ [l])"

lemma appended_length: "appended es ls \<Longrightarrow> length ls \<le> length es"
  by (induction rule: appended.induct) auto

lemma appended_full: "appended es ls \<Longrightarrow> length ls = length es \<Longrightarrow> list_all2 records es ls"
  by (induction rule: appended.induct) (auto dest: appended_length intro: list_all2_appendI)

lemma appended_subseq: "appended es ls \<Longrightarrow> subseq (map ID ls) (map ID es)"
  by (induction rule: appended.induct)
    (auto simp: records_def intro: list_emb_append_mono subseq_order.trans subseq_append)

text \<open>
  The contract of the store extended by what the writer puts into it: whatever \<open>built\<close> admits,
  normalised and sealed over a hash of the right width, is an entry the store keeps faithfully.
\<close>

locale audit_writer = audit_repository log inv honest storable append head verify
  for log :: "'s \<Rightarrow> AuditEntry list" and inv :: "'s \<Rightarrow> bool" and honest :: "'env \<Rightarrow> bool"
    and storable :: "AuditEntry \<Rightarrow> bool"
    and append :: "'env \<Rightarrow> AuditEntry \<Rightarrow> 's \<Rightarrow> 's \<times> string option"
    and head :: "'s \<Rightarrow> string" and verify :: "'s \<Rightarrow> VerifyResult" +
  fixes built :: "AuditEntry \<Rightarrow> bool"
  assumes built_storable: "built e \<Longrightarrow> NormalizePayload (Payload e) = Inr p \<Longrightarrow> length h = 64 \<Longrightarrow>
      storable (seal_entry h p e)"
begin

lemma intact_head_length:
  assumes "intact s"
  shows "length (head s) = 64"
proof (cases "log s" rule: rev_cases)
  case Nil
  then show ?thesis using assms by (simp add: intact_def head_law GenesisHash_def)
next
  case (snoc es e)
  then have "Hash e = ComputeHash e" using assms by (simp add: intact_def chained_append sealed_def)
  then show ?thesis using assms snoc by (simp add: intact_def head_law)
qed

lemma writer_append_step:
  assumes "intact s" "whead w = head s" "built e" "honest env"
    "writer_append append env pub_ok e (w, s) = ((w', s'), err)"
  shows "intact s' \<and> whead w' = head s' \<and>
    (if err = None then \<exists>l. log s' = log s @ [l] \<and> records e l
       \<and> (published w' = published w \<or> (\<exists>e'. published w' = published w @ [e'] \<and> stored_as e' l))
     else log s' = log s \<and> published w' = published w)"
proof (cases "NormalizePayload (Payload e)")
  case (Inl err')
  then show ?thesis using assms by (auto simp: writer_append_def)
next
  case (Inr p)
  let ?e = "seal_entry (whead w) p e"
  have len: "length (whead w) = 64" using intact_head_length assms(1,2) by simp
  have storable: "storable ?e" using built_storable assms(3) Inr len by blast
  have sealed: "sealed (head s) ?e" using sealed_seal_entry [of "whead w"] len assms(2) by fastforce
  obtain s1 o1 where app: "append env ?e s = (s1, o1)" by fastforce
  show ?thesis
  proof (cases o1)
    case None
    note step = append_sealed [OF assms(1) storable sealed app [unfolded None]]
    have "s' = s1" "err = None" "whead w' = Hash ?e" "published w' = published w \<or> published w' = published w @ [?e]"
      using assms(5) Inr app None by (auto simp: writer_append_def Let_def split: if_splits)
    then show ?thesis using step records_stored [OF Inr] by auto
  next
    case (Some err')
    note step = append_failed [OF assms(1,4) app [unfolded Some]]
    have "s' = s1" "err = Some err'" "whead w' = whead w" "published w' = published w"
      using assms(5) Inr app Some by (auto simp: writer_append_def Let_def)
    then show ?thesis using step assms(2) by auto
  qed
qed

lemma writer_append_chain:
  assumes "intact s" "whead w = head s" "built e" "honest env"
    "writer_append append env pub_ok e (w, s) = ((w', s'), err)"
  shows "intact s' \<and> whead w' = head s' \<and>
    (if err = None then \<exists>l. log s' = log s @ [l] \<and> records e l else log s' = log s)"
  using writer_append_step [OF assms] by auto

text \<open>The invariant of the running writer over a log that was intact when it started.\<close>

definition chain_inv :: "AuditEntry list \<Rightarrow> 's system \<Rightarrow> bool" where
  "chain_inv log0 x \<longleftrightarrow>
     intact (store x) \<and> whead (wr x) = head (store x)
     \<and> list_all (built \<circ> qentry) (queue (wr x)) \<and> list_all (built \<circ> qentry) (inflight (wr x))
     \<and> (\<exists>ls. log (store x) = log0 @ ls \<and> int (length ls) = written (wr x)
          \<and> appended (take (nat (written (wr x) + failures (wr x))) (accepted x)) ls)
     \<and> (\<forall>it. (it, None) \<in> set (replies (wr x)) \<longrightarrow> (\<exists>l \<in> set (log (store x)). records (qentry it) l))"

lemma run_round_chain:
  assumes inv: "chain_inv log0 x" and acc: "accounted x" and "honest env"
    and round: "run_round append env pub_ok (wr x, store x) = (w', s')"
  shows "chain_inv log0 (x\<lparr>wr := w', store := s'\<rparr>)"
  using round
proof (cases rule: run_round_cases)
  case idle
  then show ?thesis using inv by (auto simp: chain_inv_def)
next
  case (item it rest w1 err)
  let ?n = "nat (written (wr x) + failures (wr x))"
  note f = writer_append_fields [OF item(2), simplified]
  have "built (qentry it)" using inv item(1) by (simp add: chain_inv_def)
  then have step: "intact s' \<and> whead w1 = head s' \<and>
      (if err = None then \<exists>l. log s' = log (store x) @ [l] \<and> records (qentry it) l else log s' = log (store x))"
    using inv assms(3) by (intro writer_append_chain [OF _ _ _ _ item(2)]) (auto simp: chain_inv_def)
  obtain ls where ls: "log (store x) = log0 @ ls" "int (length ls) = written (wr x)"
    "appended (take ?n (accepted x)) ls"
    using inv by (auto simp: chain_inv_def)
  have next_entry: "qentry it # map qentry rest = drop ?n (accepted x)"
    using acc item(1) by (simp add: accounted_def)
  then have "take (Suc ?n) (accepted x) = take ?n (accepted x) @ [qentry it]"
    by (metis append_Nil2 take_Suc_conv_app_nth drop_eq_Nil2 hd_drop_conv_nth list.discI list.sel(1) not_less)
  moreover have "nat (written w1 + failures w1) = Suc ?n"
    using acc f(8,9) by (auto simp: accounted_def)
  ultimately have "\<exists>ls'. log s' = log0 @ ls' \<and> int (length ls') = written w1
      \<and> appended (take (nat (written w1 + failures w1)) (accepted x)) ls'"
  proof (cases err)
    case None
    then obtain l where "log s' = log (store x) @ [l]" "records (qentry it) l" using step by auto
    then show ?thesis
      using ls f(8) None \<open>take (Suc ?n) (accepted x) = _\<close> \<open>nat (written w1 + failures w1) = _\<close>
      by (intro exI [of _ "ls @ [l]"]) (auto intro: app_written)
  next
    case (Some e)
    then show ?thesis
      using ls f(8) step \<open>take (Suc ?n) (accepted x) = _\<close> \<open>nat (written w1 + failures w1) = _\<close>
      by (intro exI [of _ ls]) (auto intro: app_failed)
  qed
  moreover have "\<exists>l \<in> set (log s'). records (qentry it') l"
    if "(it', None) \<in> set (replies w')" for it'
  proof (cases "(it', None) \<in> set (replies (wr x))")
    case True
    then obtain l where "l \<in> set (log (store x))" "records (qentry it') l" using inv by (auto simp: chain_inv_def)
    then show ?thesis using step by (auto split: if_splits)
  next
    case False
    then have "it' = it" "err = None" using that item(3) f(7) by (auto split: if_splits)
    then show ?thesis using step by auto
  qed
  ultimately show ?thesis
    using inv item(1,3) f(1,6) step by (auto simp: chain_inv_def)
qed

lemma wstep_chain:
  "wstep append honest built x y \<Longrightarrow> accounted x \<Longrightarrow> chain_inv log0 x \<Longrightarrow> chain_inv log0 y"
proof (induction rule: wstep.induct)
  case (run x env pub_ok w' s')
  then show ?case by (simp add: run_round_chain)
next
  case (send item x)
  then show ?case
    by (auto simp: chain_inv_def writer_ops accounted_def list_all_iff nat_le_iff dest: in_remove1)
next
  case (send_sync item x)
  then show ?case
    by (auto simp: chain_inv_def writer_ops accounted_def list_all_iff nat_le_iff dest: in_remove1)
qed (auto simp: chain_inv_def writer_ops list_all_iff split: if_splits dest: in_remove1)

lemma wreach_chain:
  "wreach append honest built x y \<Longrightarrow> accounted x \<Longrightarrow> chain_inv log0 x \<Longrightarrow> chain_inv log0 y"
  by (induction rule: wreach.induct) (auto dest: wstep_chain wreach_accounted)

lemma start_chain:
  assumes "NewWriter repo buffer pub (Inr (head s)) = Inr w" "intact s"
  shows "chain_inv (log s) (start w s)"
proof -
  have "head s \<noteq> []" using intact_head_length [OF assms(2)] by fastforce
  then have "whead w = head s" "queue w = []" "inflight w = []" "written w = 0" "failures w = 0" "replies w = []"
    using assms(1) by (auto simp: NewWriter_def Let_def split: if_splits)
  then show ?thesis using assms(2) by (simp add: chain_inv_def start_def app_none)
qed

text \<open>What was published is in the log, in the same order.\<close>

lemma writer_append_published:
  assumes "intact s" "whead w = head s" "built e" "honest env"
    "writer_append append env pub_ok e (w, s) = ((w', s'), err)" "list_emb stored_as (published w) (log s)"
  shows "list_emb stored_as (published w') (log s')"
proof (cases err)
  case None
  then obtain l where "log s' = log s @ [l]"
    "published w' = published w \<or> (\<exists>e'. published w' = published w @ [e'] \<and> stored_as e' l)"
    using writer_append_step [OF assms(1-5)] by auto
  moreover have "list_emb stored_as (published w @ [e']) (log s @ [l])" if "stored_as e' l" for e' l
    using assms(6) that by (intro list_emb_append_mono) auto
  ultimately show ?thesis using assms(6) list_emb_prefix by metis
next
  case (Some err')
  then show ?thesis using writer_append_step [OF assms(1-5)] assms(6) by simp
qed

lemma wstep_published:
  "wstep append honest built x y \<Longrightarrow> chain_inv log0 x \<Longrightarrow> list_emb stored_as (published (wr x)) (log (store x))
    \<Longrightarrow> list_emb stored_as (published (wr y)) (log (store y))"
proof (induction rule: wstep.induct)
  case (run x env pub_ok w' s')
  from run(3) show ?case
  proof (cases rule: run_round_cases)
    case (item it rest w1 err)
    have "list_emb stored_as (published w1) (log s')"
      using run item(1) by (intro writer_append_published [OF _ _ _ run(2) item(2)]) (auto simp: chain_inv_def)
    then show ?thesis using item(3) by simp
  qed (use run in auto)
qed (auto simp: writer_ops split: if_splits)

lemma wreach_published:
  "wreach append honest built x y \<Longrightarrow> accounted x \<Longrightarrow> chain_inv log0 x \<Longrightarrow> list_emb stored_as (published (wr x)) (log (store x))
    \<Longrightarrow> list_emb stored_as (published (wr y)) (log (store y))"
  by (induction rule: wreach.induct) (auto dest: wreach_chain wstep_published)

text \<open>What holds in every state the writer reaches.\<close>

lemma reachable:
  assumes "NewWriter repo buffer pub (Inr (head s)) = Inr w" "intact s"
    "wreach append honest built (start w s) y"
  shows "accounted y" "chain_inv (log s) y"
  using wreach_accounted [OF assms(3) start_accounted [OF assms(1)]]
    wreach_chain [OF assms(3) start_accounted [OF assms(1)] start_chain [OF assms(1,2)]] by auto

lemma reachable_published:
  assumes "NewWriter repo buffer pub (Inr (head s)) = Inr w" "intact s"
    "wreach append honest built (start w s) y"
  shows "list_emb stored_as (published (wr y)) (log (store y))"
proof -
  have "published w = []" using assms(1) by (auto simp: NewWriter_def Let_def split: if_splits)
  then show ?thesis
    using wreach_published [OF assms(3) start_accounted [OF assms(1)] start_chain [OF assms(1,2)]] by (simp add: start_def)
qed

lemma reachable_log:
  assumes "NewWriter repo buffer pub (Inr (head s)) = Inr w" "intact s"
    "wreach append honest built (start w s) y"
  shows "\<exists>ls. log (store y) = log s @ ls \<and> int (length ls) = written (wr y)
    \<and> subseq (map ID ls) (map ID (accepted y))
    \<and> (queue (wr y) = [] \<and> failures (wr y) = 0 \<longrightarrow> list_all2 records (accepted y) ls)"
proof -
  let ?n = "nat (written (wr y) + failures (wr y))"
  note r = reachable [OF assms]
  obtain ls where ls: "log (store y) = log s @ ls" "int (length ls) = written (wr y)"
    "appended (take ?n (accepted y)) ls"
    using r(2) by (auto simp: chain_inv_def)
  have "subseq (map ID (take ?n (accepted y)) @ []) (map ID (take ?n (accepted y)) @ map ID (drop ?n (accepted y)))"
    by (intro list_emb_append_mono) auto
  then have "subseq (map ID (take ?n (accepted y))) (map ID (accepted y))"
    by (metis append_Nil2 append_take_drop_id map_append)
  then have "subseq (map ID ls) (map ID (accepted y))"
    using appended_subseq [OF ls(3)] subseq_order.trans by blast
  moreover have "list_all2 records (accepted y) ls" if "queue (wr y) = []" "failures (wr y) = 0"
    using appended_full [OF ls(3)] ls(2) r(1) that by (auto simp: accounted_def)
  ultimately show ?thesis using ls by blast
qed

end

subsection \<open>Draining\<close>

text \<open>The loop of \<^verbatim>\<open>run\<close>, given what the environment does in each round.\<close>

fun run ::
  "('env \<Rightarrow> AuditEntry \<Rightarrow> 's \<Rightarrow> 's \<times> string option) \<Rightarrow> ('env \<times> bool) list \<Rightarrow> Writer \<times> 's \<Rightarrow> Writer \<times> 's" where
  "run app [] ws = ws"
| "run app ((env, pub_ok) # es) ws =
     (if stopped (fst ws) then ws else run app es (run_round app env pub_ok ws))"

lemma run_drains:
  assumes "closed w" "\<not> stopped w" "length envs = Suc (length (queue w))"
    "run app envs (w, s) = (w', s')"
  shows "stopped w' \<and> queue w' = [] \<and>
    written w' + failures w' = written w + failures w + int (length (queue w))"
  using assms
proof (induction "length (queue w)" arbitrary: w s envs)
  case 0
  then obtain env p where "envs = [(env, p)]" by (auto simp: length_Suc_conv)
  then show ?case using 0 by (auto simp: run_round_def)
next
  case (Suc n)
  obtain env p es where envs: "envs = (env, p) # es" using Suc.prems(3) by (cases envs) auto
  obtain w1 s1 where round: "run_round app env p (w, s) = (w1, s1)" by fastforce
  from round show ?case
  proof (cases rule: run_round_cases)
    case idle
    then show ?thesis using Suc.hyps(2) by simp
  next
    case (item it rest w2 err)
    note f = writer_append_fields [OF item(2), simplified]
    have w1: "queue w1 = rest" "closed w1" "\<not> stopped w1" "written w1 = written w2" "failures w1 = failures w2"
      using item(3) f Suc.prems(1,2) by auto
    have "stopped w' \<and> queue w' = [] \<and> written w' + failures w' = written w1 + failures w1 + int (length (queue w1))"
      using Suc.prems Suc.hyps(2) w1 item(1) envs round by (intro Suc.hyps(1) [of w1 es s1]) auto
    then show ?thesis using w1 f(8,9) item(1) by (auto split: if_splits)
  qed
qed

interpretation mem_writer: audit_writer entries "\<lambda>_. True" "\<lambda>_. True" "\<lambda>e. good_payload (Payload e)"
  mem_store mem_Head "\<lambda>m. mem_VerifyChain m 0 0" "\<lambda>_. True"
  by unfold_locales (simp add: seal_entry_fields NormalizePayload_good_payload)

subsection \<open>Properties\<close>


definition idle_writer :: Writer where
  "idle_writer = \<lparr>queue = [], cap = 4096, has_pub = False, closed = False, stopped = False,
     whead = GenesisHash, dropped = 0, written = 0, failures = 0, inflight = [], replies = [],
     published = []\<rparr>"

definition closed_once :: "Memory system" where
  "closed_once = (start idle_writer NewMemory)\<lparr>wr := idle_writer\<lparr>closed := True\<rparr>\<rparr>"

lemma closed_once_reachable: "wreach mem_store (\<lambda>_. True) (\<lambda>_. True) (start idle_writer NewMemory) closed_once"
proof -
  let ?x = "start idle_writer NewMemory"
  have "wstep mem_store (\<lambda>_. True) (\<lambda>_. True) ?x (?x\<lparr>wr := Close_begin (wr ?x)\<rparr>)"
    by (rule close) (simp add: start_def idle_writer_def)
  then show ?thesis
    using wreach_step [OF wreach_start] by (simp add: closed_once_def Close_begin_def start_def idle_writer_def)
qed


lemma run_dropped: "dropped (fst (run app envs ws)) = dropped (fst ws)"
proof (induction app envs ws rule: run.induct)
  case (2 app env pub_ok es ws)
  obtain w s w1 s1 where round: "ws = (w, s)" "run_round app env pub_ok (w, s) = (w1, s1)" by (metis surj_pair)
  have "dropped w1 = dropped w"
    using round(2) by (cases rule: run_round_cases) (auto dest: writer_append_fields(5))
  then show ?case using 2 round by simp
qed simp

end
