(* ===== verification/Rules_Engine.thy ===== *)
theory Rules_Engine
  imports Model
begin

text \<open>
  \<^verbatim>\<open>engine/internal/rules/rules.go\<close>: the chain of rules and the decision it takes on a request.

  A rule may consult and change state of its own (the access list, the request counters in Redis).
  The state of all rules together is the type parameter \<open>'s\<close>; evaluating a rule takes and returns it.
\<close>

subsection \<open>Rules and the engine\<close>

text \<open>\<open>BlockStatus\<close> is \<^const>\<open>None\<close> for a rule without the optional method.\<close>

record 's Rule =
  Name :: string
  Evaluate :: "RequestContext \<Rightarrow> 's \<Rightarrow> (Verdict \<times> string) \<times> 's"
  BlockStatus :: "int option"

record 's Engine =
  rules :: "'s Rule list"
  enabled :: "bool gomap"

definition New :: "'s Rule list \<Rightarrow> 's Engine" where
  "New chain = \<lparr>rules = chain, enabled = foldl (\<lambda>m r. map_put (Name r) True m) [] chain\<rparr>"

definition SetEnabled :: "bool gomap \<Rightarrow> 's Engine \<Rightarrow> 's Engine" where
  "SetEnabled on e =
     e\<lparr>enabled := foldl (\<lambda>m r. map_put (Name r) (map_get False on (Name r)) m) [] (rules e)\<rparr>"

definition Enabled :: "'s Engine \<Rightarrow> bool gomap" where
  "Enabled e = foldl (\<lambda>m kv. map_put (fst kv) (snd kv) m) [] (enabled e)"

definition Names :: "'s Engine \<Rightarrow> string list" where
  "Names e = foldl (\<lambda>out r. out @ [Name r]) [] (rules e)"

definition StatusForbidden :: int where "StatusForbidden = 403"

definition blockStatus :: "'s Rule \<Rightarrow> int" where
  "blockStatus r =
     (case BlockStatus r of Some status \<Rightarrow> if status \<noteq> 0 then status else StatusForbidden
      | None \<Rightarrow> StatusForbidden)"

text \<open>The loop of \<^verbatim>\<open>Decide\<close>: the blocking rule and its reason, if any, and the state after it.\<close>

fun decide_loop :: "bool gomap \<Rightarrow> 's Rule list \<Rightarrow> RequestContext \<Rightarrow> 's \<Rightarrow> ('s Rule \<times> string) option \<times> 's" where
  "decide_loop on [] req s = (None, s)"
| "decide_loop on (r # rs) req s =
     (if \<not> map_get False on (Name r) then decide_loop on rs req s
      else case Evaluate r req s of ((verdict, reason), s') \<Rightarrow>
        if verdict = Block then (Some (r, reason), s') else decide_loop on rs req s')"

text \<open>The elapsed time in microseconds comes from the clock.\<close>

definition Decide :: "'s Engine \<Rightarrow> int \<Rightarrow> RequestContext \<Rightarrow> 's \<Rightarrow> Decision \<times> 's" where
  "Decide e micros req s =
     (case decide_loop (enabled e) (rules e) req s of
        (Some (r, reason), s') \<Rightarrow>
          (\<lparr>DVerdict = Block, DRule = Name r, DReason = reason, DStatus = blockStatus r,
            DecisionMicros = micros\<rparr>, s')
      | (None, s') \<Rightarrow>
          (\<lparr>DVerdict = Allow, DRule = [], DReason = [], DStatus = 0, DecisionMicros = micros\<rparr>, s'))"

subsection \<open>The enabled set\<close>

lemma keys_Nil [simp]: "keys [] = []"
  by (simp add: keys_def)

lemma map_get_fold_name:
  assumes "\<And>x y. x \<in> set xs \<Longrightarrow> y \<in> set xs \<Longrightarrow> f x = f y \<Longrightarrow> g x = g y" "x \<in> set xs"
  shows "map_get False (foldl (\<lambda>m x. map_put (f x) (g x) m) m0 xs) (f x) = g x"
  using assms
proof (induction xs rule: rev_induct)
  case (snoc y xs)
  show ?case
  proof (cases "f x = f y")
    case True
    have "g x = g y" using snoc.prems(1) [of x y] snoc.prems(2) True by simp
    with True show ?thesis by (simp only: foldl_append foldl.simps map_get_put refl if_True)
  next
    case False
    then have "x \<in> set xs" using snoc.prems(2) by auto
    then have "map_get False (foldl (\<lambda>m x. map_put (f x) (g x) m) m0 xs) (f x) = g x"
      by (rule snoc.IH [rotated]) (rule snoc.prems(1), simp_all)
    with False show ?thesis by (simp only: foldl_append foldl.simps map_get_put if_False)
  qed
qed simp

lemma map_get_not_key: "k \<notin> set (keys m) \<Longrightarrow> map_get z m k = z"
  by (simp add: map_get_def keys_def map_of_eq_None_iff [THEN iffD2] split: option.splits)

lemma fold_put_keys:
  "set (keys (foldl (\<lambda>m x. map_put (f x) (g x) m) m0 xs)) = set (keys m0) \<union> f ` set xs"
  by (induction xs arbitrary: m0) (auto simp: map_put_keys)

lemma fold_put_distinct:
  "distinct (keys m0) \<Longrightarrow> distinct (keys (foldl (\<lambda>m x. map_put (f x) (g x) m) m0 xs))"
  by (induction xs arbitrary: m0) (auto intro: wf_intros)

lemma Names_map: "Names e = map Name (rules e)"
proof -
  have "foldl (\<lambda>out r. out @ [Name r]) a rs = a @ map Name rs" for a and rs :: "'a Rule list"
    by (induction rs arbitrary: a) auto
  then show ?thesis by (simp add: Names_def)
qed

text \<open>Whether the rule named \<open>k\<close> runs after the enabled set was replaced.\<close>

lemma SetEnabled_lookup:
  "map_get False (enabled (SetEnabled on e)) k = (k \<in> set (Names e) \<and> map_get False on k)"
proof (cases "k \<in> set (Names e)")
  case True
  then obtain r where "r \<in> set (rules e)" "k = Name r" by (auto simp: Names_map)
  then show ?thesis
    using True map_get_fold_name [of "rules e" Name "\<lambda>r. map_get False on (Name r)" r "[]"]
    by (simp add: SetEnabled_def)
next
  case False
  then have "k \<notin> set (keys (enabled (SetEnabled on e)))"
    by (simp add: SetEnabled_def fold_put_keys Names_map)
  then show ?thesis using False map_get_not_key by metis
qed

lemma New_lookup: "map_get False (enabled (New chain)) k = (k \<in> Name ` set chain)"
proof (cases "k \<in> Name ` set chain")
  case True
  then show ?thesis using map_get_fold_name [of chain Name "\<lambda>_. True"] by (auto simp: New_def)
next
  case False
  then have "k \<notin> set (keys (enabled (New chain)))" by (simp add: New_def fold_put_keys)
  then show ?thesis using False map_get_not_key by metis
qed

lemma Enabled_copy:
  assumes "distinct (keys (enabled e))"
  shows "map_get False (Enabled e) k = map_get False (enabled e) k"
proof -
  have same: "snd x = snd y" if "x \<in> set (enabled e)" "y \<in> set (enabled e)" "fst x = fst y" for x y
    using assms that by (metis eq_key_imp_eq_value keys_def prod.collapse)
  have in_map: "map_get False (Enabled e) (fst x) = snd x" if "x \<in> set (enabled e)" for x
    unfolding Enabled_def by (rule map_get_fold_name [OF same that])
  show ?thesis
  proof (cases "map_of (enabled e) k")
    case None
    then have "k \<notin> set (keys (Enabled e))"
      by (simp add: Enabled_def fold_put_keys map_of_eq_None_iff)
    then have "map_get False (Enabled e) k = False" by (rule map_get_not_key)
    then show ?thesis using None by (simp add: map_get_def)
  next
    case (Some v)
    then show ?thesis using in_map [of "(k, v)"] by (auto simp: map_get_def dest: map_of_SomeD)
  qed
qed

subsection \<open>The decision\<close>

text \<open>The rules that are on, in the order of the chain: what a decision consults.\<close>

definition active :: "bool gomap \<Rightarrow> 's Rule list \<Rightarrow> 's Rule list" where
  "active on rs = filter (\<lambda>r. map_get False on (Name r)) rs"

text \<open>The state after every one of a run of rules has been evaluated.\<close>

fun run_rules :: "'s Rule list \<Rightarrow> RequestContext \<Rightarrow> 's \<Rightarrow> 's" where
  "run_rules [] req s = s"
| "run_rules (r # rs) req s = run_rules rs req (snd (Evaluate r req s))"

text \<open>The rules of a run all let the request pass, each seeing the state its predecessors left.\<close>

fun all_pass :: "'s Rule list \<Rightarrow> RequestContext \<Rightarrow> 's \<Rightarrow> bool" where
  "all_pass [] req s = True"
| "all_pass (r # rs) req s \<longleftrightarrow>
     fst (fst (Evaluate r req s)) \<noteq> Block \<and> all_pass rs req (snd (Evaluate r req s))"

lemma decide_loop_active:
  "decide_loop on rs req s = decide_loop on (active on rs) req s"
  by (induction rs arbitrary: s) (auto simp: active_def split: prod.splits)

lemma decide_loop_None:
  "decide_loop on rs req s = (None, s') \<Longrightarrow> all_pass (active on rs) req s \<and> s' = run_rules (active on rs) req s"
  by (induction rs arbitrary: s) (auto simp: active_def split: prod.splits if_splits)

lemma decide_loop_Some:
  "decide_loop on rs req s = (Some (r, reason), s') \<Longrightarrow>
    \<exists>pre post. active on rs = pre @ r # post \<and> all_pass pre req s
      \<and> Evaluate r req (run_rules pre req s) = ((Block, reason), s')"
proof (induction rs arbitrary: s)
  case (Cons q rs)
  show ?case
  proof (cases "map_get False on (Name q)")
    case False
    then show ?thesis using Cons by (simp add: active_def)
  next
    case True
    obtain v rn s1 where q: "Evaluate q req s = ((v, rn), s1)" by (metis surj_pair)
    show ?thesis
    proof (cases "v = Block")
      case block: True
      then have "r = q" "reason = rn" "s' = s1" using Cons.prems True q by simp_all
      then show ?thesis
        using True q block by (intro exI [of _ "[]"] exI [of _ "active on rs"]) (simp add: active_def)
    next
      case False
      then have "decide_loop on rs req s1 = (Some (r, reason), s')" using Cons.prems True q by simp
      then obtain pre post where "active on rs = pre @ r # post" "all_pass pre req s1"
        "Evaluate r req (run_rules pre req s1) = ((Block, reason), s')" using Cons.IH by blast
      then show ?thesis
        using True q False by (intro exI [of _ "q # pre"] exI [of _ post]) (simp add: active_def)
    qed
  qed
qed simp

text \<open>
  What the engine expects of a rule: a reason exactly when it blocks. Every rule of the chain is
  shown to meet it where it is defined.
\<close>

locale rule_contract =
  fixes evaluate :: "RequestContext \<Rightarrow> 's \<Rightarrow> (Verdict \<times> string) \<times> 's"
  assumes block_reason: "evaluate req s = ((Block, reason), s') \<Longrightarrow> reason \<noteq> []"
    and allow_reason: "evaluate req s = ((Allow, reason), s') \<Longrightarrow> reason = []"
begin

lemma reason_iff: "evaluate req s = ((v, reason), s') \<Longrightarrow> v = Block \<longleftrightarrow> reason \<noteq> []"
  using block_reason allow_reason by (cases v) blast+

end

subsection \<open>Properties\<close>

lemma all_pass_append:
  "all_pass (xs @ ys) req s \<longleftrightarrow> all_pass xs req s \<and> all_pass ys req (run_rules xs req s)"
  by (induction xs arbitrary: s) auto

text \<open>C20: The first enabled rule that blocks decides. A request is allowed exactly when every enabled
  rule, evaluated in chain order on the state its predecessors left, lets it pass; otherwise the decision
  carries the name, reason and status of the first enabled rule that blocks, every enabled rule before it
  was evaluated and let the request pass, and no rule after it touched the state.\<close>

theorem decide_first_block:
  "case Decide e micros req s of (d, s') \<Rightarrow>
     if all_pass (active (enabled e) (rules e)) req s
     then d = \<lparr>DVerdict = Allow, DRule = [], DReason = [], DStatus = 0, DecisionMicros = micros\<rparr>
       \<and> s' = run_rules (active (enabled e) (rules e)) req s
     else \<exists>pre r post. active (enabled e) (rules e) = pre @ r # post \<and> all_pass pre req s
       \<and> Evaluate r req (run_rules pre req s) = ((Block, DReason d), s')
       \<and> DVerdict d = Block \<and> DRule d = Name r \<and> DStatus d = blockStatus r \<and> DecisionMicros d = micros"
proof (cases "decide_loop (enabled e) (rules e) req s")
  case (Pair hit s')
  show ?thesis
  proof (cases hit)
    case None
    with Pair show ?thesis using decide_loop_None [of "enabled e" "rules e" req s s'] by (auto simp: Decide_def)
  next
    case (Some rr)
    obtain r reason where rr: "rr = (r, reason)" by fastforce
    obtain pre post where "active (enabled e) (rules e) = pre @ r # post" "all_pass pre req s"
      "Evaluate r req (run_rules pre req s) = ((Block, reason), s')"
      using decide_loop_Some Pair Some rr by metis
    moreover from this have "\<not> all_pass (active (enabled e) (rules e)) req s"
      by (simp add: all_pass_append)
    ultimately show ?thesis using Pair Some rr by (auto simp: Decide_def)
  qed
qed

end
