(* ===== verification/Go_Float.thy ===== *)
theory Go_Float
  imports Go_Json
begin

text \<open>
  \<^verbatim>\<open>float64\<close> where the program meets it: numbers of a JSON text decoded without
  \<^verbatim>\<open>UseNumber\<close> (\<^verbatim>\<open>strconv.ParseFloat\<close>), the text \<^verbatim>\<open>encoding/json\<close> writes for
  them (the shortest decimal that reads back as the same number), and the fractions of a duration.

  A finite number without its sign is a pair \<open>(m, e)\<close> for \<open>m * 2 ^ e\<close>, with \<open>m < 2 ^ 53\<close> and either
  \<open>2 ^ 52 \<le> m\<close> or \<open>e = - 1074\<close>. Every operation rounds the exact rational result to the nearest such
  number, to the even one when two are equally near.
\<close>

subsection \<open>Rounding\<close>

type_synonym f64 = "nat \<times> int"

fun bit_length :: "nat \<Rightarrow> nat" where
  "bit_length n = (if n = 0 then 0 else Suc (bit_length (n div 2)))"

declare bit_length.simps [simp del]

definition div_round :: "nat \<Rightarrow> nat \<Rightarrow> nat" where
  "div_round n d = (let q = n div d; r = n mod d in if 2 * r > d \<or> 2 * r = d \<and> odd q then q + 1 else q)"

text \<open>The fraction \<open>n / d\<close> divided by \<open>b ^ e\<close>.\<close>

definition scale_down :: "nat \<Rightarrow> int \<Rightarrow> nat \<times> nat \<Rightarrow> nat \<times> nat" where
  "scale_down b e x = (case x of (n, d) \<Rightarrow> if 0 \<le> e then (n, d * b ^ nat e) else (n * b ^ nat (- e), d))"

definition round_f64 :: "nat \<times> nat \<Rightarrow> f64" where
  "round_f64 x =
     (let e0 = int (bit_length (fst x)) - int (bit_length (snd x)) - 53;
          (n, d) = scale_down 2 e0 x;
          e = max (if n div d \<ge> 2 ^ 53 then e0 + 1 else e0) (- 1074);
          (n, d) = scale_down 2 e x;
          m = div_round n d
      in if m = 2 ^ 53 then (2 ^ 52, e + 1) else (m, e))"

definition f64_overflow :: "f64 \<Rightarrow> bool" where
  "f64_overflow x \<longleftrightarrow> snd x > 971"

text \<open>The exact value of a number, as numerator and denominator.\<close>

definition f64_value :: "f64 \<Rightarrow> nat \<times> nat" where
  "f64_value x = scale_down 2 (- snd x) (fst x, 1)"

definition frac_less :: "nat \<times> nat \<Rightarrow> nat \<times> nat \<Rightarrow> bool" where
  "frac_less x y \<longleftrightarrow> fst x * snd y < fst y * snd x"

definition f64_mult :: "f64 \<Rightarrow> f64 \<Rightarrow> f64" where
  "f64_mult x y = (let (a, b) = f64_value x; (c, d) = f64_value y in round_f64 (a * c, b * d))"

definition f64_div :: "f64 \<Rightarrow> f64 \<Rightarrow> f64" where
  "f64_div x y = (let (a, b) = f64_value x; (c, d) = f64_value y in round_f64 (a * d, b * c))"

definition f64_floor :: "f64 \<Rightarrow> nat" where
  "f64_floor x = (let (a, b) = f64_value x in a div b)"

subsection \<open>Reading\<close>

text \<open>The digits of an exponent; the reader stops counting once they are out of any range.\<close>

definition exponent_of :: "string \<Rightarrow> int" where
  "exponent_of s = int (foldl (\<lambda>e c. if e < 10000 then 10 * e + digit_val c else e) 0 s)"

text \<open>A valid number literal as its digits \<open>m\<close> and exponent \<open>p\<close>, its value being \<open>m * 10 ^ p\<close>.\<close>

definition decimal :: "string \<Rightarrow> nat \<times> int" where
  "decimal s =
     (let ip = takeWhile is_digit s; s1 = dropWhile is_digit s;
          (fp, s2) = (case s1 of c # t \<Rightarrow> if c = CHR ''.'' then (takeWhile is_digit t, dropWhile is_digit t) else ([], s1)
                      | [] \<Rightarrow> ([], []));
          ex = (case s2 of c # t \<Rightarrow> let (sg, ds) = exp_sign t in
                  if sg = ''-'' then - exponent_of ds else exponent_of ds
                | [] \<Rightarrow> 0)
      in (nat_of_dec (ip @ fp), ex - int (length fp)))"

subsection \<open>Writing\<close>

function shift10 :: "nat \<Rightarrow> nat \<Rightarrow> nat" where
  "shift10 n d = (if n = 0 \<or> d \<le> n then 0 else Suc (shift10 (10 * n) d))"
  by pat_completeness auto
termination
  by (relation "measure (\<lambda>(n, d). d - n)") auto

declare shift10.simps [simp del]

text \<open>The number of digits before the decimal point: \<open>10 ^ (k - 1) \<le> x < 10 ^ k\<close>.\<close>

definition point_pos :: "nat \<times> nat \<Rightarrow> int" where
  "point_pos x = (case x of (n, d) \<Rightarrow> if d \<le> n then int (length (dec_of_nat (n div d))) else 1 - int (shift10 n d))"

text \<open>
  With \<open>k\<close> digits: the decimal below and the one above the number, if they read back as it; the nearer
  if both do. The first \<open>k\<close> with such a decimal decides; seventeen digits always suffice.
\<close>

definition decimal_near :: "f64 \<Rightarrow> nat \<Rightarrow> (nat \<times> int) option" where
  "decimal_near x k =
     (let v = f64_value x; p = point_pos v - int k; (n, d) = scale_down 10 p v; lo = n div d;
          back = (\<lambda>m. round_f64 (scale_down 10 (- p) (m, 1)) = x)
      in if back lo \<and> back (lo + 1) then Some (div_round n d, p)
         else if back lo then Some (lo, p) else if back (lo + 1) then Some (lo + 1, p) else None)"

definition shortest :: "f64 \<Rightarrow> nat \<times> int" where
  "shortest x = (case List.map_filter (decimal_near x) [1..<18] of y # _ \<Rightarrow> y | [] \<Rightarrow> (0, 0))"

definition trim_decimal :: "nat \<times> int \<Rightarrow> string \<times> int" where
  "trim_decimal y = (let ds = dec_of_nat (fst y); t = rev (dropWhile (\<lambda>c. c = CHR ''0'') (rev ds))
     in (t, snd y + int (length ds) - int (length t)))"

text \<open>The layouts \<^verbatim>\<open>'f'\<close> and \<^verbatim>\<open>'e'\<close>, the latter with the exponent cleaned of a leading zero.\<close>

definition layout_f :: "string \<Rightarrow> int \<Rightarrow> string" where
  "layout_f ds p =
     (let k = int (length ds) + p in
      if 0 \<le> p then ds @ replicate (nat p) (CHR ''0'')
      else if 0 < k then take (nat k) ds @ ''.'' @ drop (nat k) ds
      else ''0.'' @ replicate (nat (- k)) (CHR ''0'') @ ds)"

definition layout_e :: "string \<Rightarrow> int \<Rightarrow> string" where
  "layout_e ds p =
     (let x = int (length ds) - 1 + p in
      take 1 ds @ (if length ds > 1 then ''.'' @ drop 1 ds else []) @ ''e'' @ (if x < 0 then ''-'' else ''+'')
      @ dec_of_nat (nat \<bar>x\<bar>))"

definition f64_text :: "f64 \<Rightarrow> string" where
  "f64_text x =
     (if fst x = 0 then ''0''
      else let (ds, p) = trim_decimal (shortest x); v = f64_value x in
        if frac_less v (f64_value (round_f64 (1, 1000000))) \<or> \<not> frac_less v (10 ^ 21, 1)
        then layout_e ds p else layout_f ds p)"

text \<open>A number literal decoded into a \<^verbatim>\<open>float64\<close> and written again; out of range is an error.\<close>

definition json_float :: "string \<Rightarrow> string option" where
  "json_float s =
     (let (neg, t) = (case s of c # u \<Rightarrow> if c = CHR ''-'' then (True, u) else (False, s) | [] \<Rightarrow> (False, []));
          (m, p) = decimal t; x = round_f64 (scale_down 10 (- p) (m, 1))
      in if f64_overflow x then None else Some ((if neg then ''-'' else []) @ f64_text x))"

end
