(* ===== verification/Go_TimeParse.thy ===== *)
theory Go_TimeParse
  imports Go_Time Go_Float "HOL-Library.Monad_Syntax"
begin

text \<open>
  Reading times and durations: \<^verbatim>\<open>time.Parse(time.RFC3339, s)\<close>, which is also what
  \<^verbatim>\<open>Time.UnmarshalJSON\<close> does with the text between the quotes, and \<^verbatim>\<open>time.ParseDuration\<close>.
  An instant is read as such, without the zone it was written in. The text of an instant reads back as it.
\<close>

subsection \<open>Times\<close>

definition skip1 :: "char \<Rightarrow> string \<Rightarrow> string option" where
  "skip1 c s = (case s of d # t \<Rightarrow> if d = c then Some t else None | [] \<Rightarrow> None)"

text \<open>One or two digits, or exactly two.\<close>

definition getnum :: "bool \<Rightarrow> string \<Rightarrow> (nat \<times> string) option" where
  "getnum fixed s =
     (case s of [] \<Rightarrow> None
      | c # t \<Rightarrow>
         if \<not> is_digit c then None
         else if t \<noteq> [] \<and> is_digit (hd t) then Some (10 * digit_val c + digit_val (hd t), tl t)
         else if fixed then None else Some (digit_val c, t))"

definition getyear :: "string \<Rightarrow> (nat \<times> string) option" where
  "getyear s = (if length s < 4 \<or> \<not> list_all is_digit (take 4 s) then None else Some (nat_of_dec (take 4 s), drop 4 s))"

text \<open>A fraction of a second, in nanoseconds; digits beyond the ninth are read and ignored.\<close>

definition getfraction :: "string \<Rightarrow> nat \<times> string" where
  "getfraction s =
     (case s of c # t \<Rightarrow>
        if (c = CHR ''.'' \<or> c = CHR '','') \<and> t \<noteq> [] \<and> is_digit (hd t)
        then (let ds = take 9 (takeWhile is_digit t) in (nat_of_dec (ds @ replicate (9 - length ds) (digit 0)), dropWhile is_digit t))
        else (0, s)
      | [] \<Rightarrow> (0, []))"

text \<open>The offset in seconds. The reader tolerates 24 hours and 60 minutes.\<close>

definition getzone :: "string \<Rightarrow> (int \<times> string) option" where
  "getzone s =
     (case s of [] \<Rightarrow> None
      | c # t \<Rightarrow>
         if c = CHR ''Z'' then Some (0, t)
         else do {
           (h, t) \<leftarrow> getnum True t; t \<leftarrow> skip1 (CHR '':'') t; (m, t) \<leftarrow> getnum True t;
           if h > 24 \<or> m > 60 then None
           else if c = CHR ''+'' then Some (int (h * 60 + m) * 60, t)
           else if c = CHR ''-'' then Some (- int (h * 60 + m) * 60, t) else None })"

text \<open>The number of the day of a date, from 0 for the first day of year 1.\<close>

definition days_of :: "int \<Rightarrow> nat \<Rightarrow> nat \<Rightarrow> int" where
  "days_of y m d = (let z = y - 1 in 365 * z + z div 4 - z div 100 + z div 400
     + int (sum_list (take (m - 1) (month_lengths (is_leap y)))) + int d - 1)"

definition date_ok :: "int \<Rightarrow> nat \<Rightarrow> nat \<Rightarrow> bool" where
  "date_ok y m d \<longleftrightarrow> 1 \<le> m \<and> m \<le> 12 \<and> 1 \<le> d \<and> d \<le> month_lengths (is_leap y) ! (m - 1)"

definition parse_rfc3339 :: "string \<Rightarrow> time option" where
  "parse_rfc3339 s = do {
     (y, s) \<leftarrow> getyear s; s \<leftarrow> skip1 (CHR ''-'') s;
     (mo, s) \<leftarrow> getnum True s; s \<leftarrow> skip1 (CHR ''-'') s;
     (d, s) \<leftarrow> getnum True s; s \<leftarrow> skip1 (CHR ''T'') s;
     (h, s) \<leftarrow> getnum False s; s \<leftarrow> skip1 (CHR '':'') s;
     (mi, s) \<leftarrow> getnum True s; s \<leftarrow> skip1 (CHR '':'') s;
     (sec, s) \<leftarrow> getnum True s;
     let (ns, s) = getfraction s;
     (off, s) \<leftarrow> getzone s;
     if s \<noteq> [] \<or> \<not> date_ok (int y) mo d \<or> h > 23 \<or> mi > 59 \<or> sec > 59 then None
     else Some ((days_of (int y) mo d * 86400 + int (h * 3600 + mi * 60 + sec) - off) * second + int ns) }"

subsection \<open>Durations\<close>

text \<open>The digits before the point, an error when they exceed \<open>2 ^ 63\<close>.\<close>

fun leading_int :: "nat \<Rightarrow> string \<Rightarrow> (nat \<times> string) option" where
  "leading_int x [] = Some (x, [])"
| "leading_int x (c # s) =
     (if \<not> is_digit c then Some (x, c # s)
      else if x > 2 ^ 63 div 10 \<or> 10 * x + digit_val c > 2 ^ 63 then None
      else leading_int (10 * x + digit_val c) s)"

text \<open>The digits after it, with the power of ten that divides them; further digits are ignored once they do not fit.\<close>

fun leading_fraction :: "bool \<Rightarrow> nat \<Rightarrow> nat \<Rightarrow> string \<Rightarrow> nat \<times> nat \<times> string" where
  "leading_fraction over x sc [] = (x, sc, [])"
| "leading_fraction over x sc (c # s) =
     (if \<not> is_digit c then (x, sc, c # s)
      else if over \<or> x > (2 ^ 63 - 1) div 10 \<or> 10 * x + digit_val c > 2 ^ 63 then leading_fraction True x sc s
      else leading_fraction False (10 * x + digit_val c) (10 * sc) s)"

definition unit_map :: "string \<Rightarrow> nat option" where
  "unit_map u =
     (if u = ''ns'' then Some 1
      else if u = ''us'' \<or> u = [CHR 0xC2, CHR 0xB5, CHR ''s''] \<or> u = [CHR 0xCE, CHR 0xBC, CHR ''s''] then Some 1000
      else if u = ''ms'' then Some 1000000 else if u = ''s'' then Some 1000000000
      else if u = ''m'' then Some 60000000000 else if u = ''h'' then Some 3600000000000 else None)"

definition unit_char :: "char \<Rightarrow> bool" where
  "unit_char c \<longleftrightarrow> c \<noteq> CHR ''.'' \<and> \<not> is_digit c"

text \<open>The fraction after a point, if there is one, and whether it has a digit.\<close>

definition duration_fraction :: "string \<Rightarrow> nat \<times> nat \<times> bool \<times> string" where
  "duration_fraction s =
     (if s \<noteq> [] \<and> hd s = CHR ''.''
      then (case leading_fraction False 0 1 (tl s) of (f, sc, t) \<Rightarrow> (f, sc, length t < length (tl s), t))
      else (0, 1, False, s))"

text \<open>A number with a unit, in nanoseconds. The fraction is computed in \<^verbatim>\<open>float64\<close>.\<close>

definition duration_value :: "nat \<Rightarrow> nat \<Rightarrow> nat \<Rightarrow> nat \<Rightarrow> nat option" where
  "duration_value v f sc unit =
     (if v > 2 ^ 63 div unit then None
      else if f = 0 then Some (v * unit)
      else let w = v * unit + f64_floor (f64_mult (round_f64 (f, 1)) (f64_div (round_f64 (unit, 1)) (round_f64 (sc, 1))))
           in if w > 2 ^ 63 then None else Some w)"

definition duration_item :: "string \<Rightarrow> (nat \<times> string) option" where
  "duration_item s =
     (if s = [] \<or> unit_char (hd s) then None
      else do {
        (v, s1) \<leftarrow> leading_int 0 s;
        let (f, sc, post, s2) = duration_fraction s1;
        unit \<leftarrow> (if length s1 = length s \<and> \<not> post then None else unit_map (takeWhile unit_char s2));
        w \<leftarrow> duration_value v f sc unit;
        Some (w, dropWhile unit_char s2) })"

lemma leading_int_length: "leading_int x s = Some (v, t) \<Longrightarrow> length t \<le> length s"
  by (induction x s rule: leading_int.induct) (auto split: if_splits)

lemma leading_fraction_length: "leading_fraction over x sc s = (v, w, t) \<Longrightarrow> length t \<le> length s"
  by (induction over x sc s rule: leading_fraction.induct) (auto split: if_splits)

lemma unit_map_Nil [simp]: "unit_map [] = None"
  by (simp add: unit_map_def)

lemma duration_fraction_length: "duration_fraction s = (f, sc, post, t) \<Longrightarrow> length t \<le> length s"
  using leading_fraction_length [of False 0 1 "tl s"] by (fastforce simp: duration_fraction_def split: if_splits prod.splits)

lemma duration_item_length:
  assumes "duration_item s = Some (v, t)"
  shows "length t < length s"
proof -
  obtain v0 s1 where s1: "leading_int 0 s = Some (v0, s1)"
    using assms by (cases "leading_int 0 s") (auto simp: duration_item_def split: if_splits)
  obtain f sc post s2 where s2: "duration_fraction s1 = (f, sc, post, s2)" by (cases "duration_fraction s1") auto
  have u: "unit_map (takeWhile unit_char s2) \<noteq> None" and t: "t = dropWhile unit_char s2"
    using assms by (auto simp: duration_item_def s1 s2 bind_eq_Some_conv split: if_splits)
  have "takeWhile unit_char s2 \<noteq> []" using u by auto
  then have "length t < length s2" using t
    by (metis append_Nil2 length_append length_greater_0_conv less_add_same_cancel2 takeWhile_dropWhile_id)
  then show ?thesis using leading_int_length [OF s1] duration_fraction_length [OF s2] by simp
qed

function duration_items :: "nat \<Rightarrow> string \<Rightarrow> nat option" where
  "duration_items acc s =
     (if s = [] then Some acc
      else case duration_item s of None \<Rightarrow> None
           | Some (v, t) \<Rightarrow> if acc + v > 2 ^ 63 then None else duration_items (acc + v) t)"
  by pat_completeness auto
termination
  by (relation "measure (\<lambda>(acc, s). length s)") (auto dest: duration_item_length)

declare duration_items.simps [simp del]

definition ParseDuration :: "string \<Rightarrow> duration option" where
  "ParseDuration s =
     (let neg = (s \<noteq> [] \<and> hd s = CHR ''-'');
          s = (if s \<noteq> [] \<and> (hd s = CHR ''-'' \<or> hd s = CHR ''+'') then tl s else s)
      in if s = ''0'' then Some 0 else if s = [] then None
         else case duration_items 0 s of None \<Rightarrow> None
              | Some d \<Rightarrow> if neg then Some (- int d) else if d > 2 ^ 63 - 1 then None else Some (int d))"

subsection \<open>A printed time reads back\<close>

lemma year_yday_leap:
  assumes "year_yday d = (y, yd)"
  shows "yd \<le> 364 \<or> yd = 365 \<and> is_leap (y + 1)"
proof -
  define a b r c e where "a = d div 146097" "b = min 3 (d mod 146097 div 36524)"
    "r = d mod 146097 - b * 36524" "c = r div 1461" "e = min 3 (r mod 1461 div 365)"
  note abs = this
  have eq: "(400 * a + 100 * b + 4 * c + e, r mod 1461 - 365 * e) = (y, yd)"
    using assms unfolding year_yday_def Let_def abs .
  have r0: "0 \<le> r" "r \<le> 36524" unfolding abs by (rule century_rest; simp)+
  have b3: "b = 3" if "r = 36524"
  proof (rule ccontr)
    assume "b \<noteq> 3"
    then have "b = d mod 146097 div 36524" unfolding abs by linarith
    then have "r = d mod 146097 mod 36524" by (simp add: abs(3) minus_div_mult_eq_mod)
    then show False using that pos_mod_bound [of 36524 "d mod 146097"] by simp
  qed
  have x: "0 \<le> r mod 1461" "r mod 1461 < 1461" "r = 1461 * c + r mod 1461" by (simp_all add: abs(4))
  show ?thesis
  proof (cases "r mod 1461 = 1460")
    case True
    then have e: "e = 3" unfolding abs(5) by simp
    have c: "0 \<le> c" "c \<le> 24" using r0 x True by linarith+
    have y: "y + 1 = 400 * a + 100 * b + 4 * (c + 1)" "yd = 365" using eq e True by auto
    have "is_leap (y + 1)"
    proof (cases "c = 24")
      case True
      then have "r = 36524" using x \<open>r mod 1461 = 1460\<close> by simp
      then have "y + 1 = 400 * (a + 1)" using y b3 True by simp
      then show ?thesis by (simp add: is_leap_def)
    next
      case False
      then have "4 * (c + 1) mod 100 = 4 * (c + 1)" using c by (intro mod_pos_pos_trivial) simp_all
      moreover have "y + 1 = 4 * (c + 1) + 100 * (4 * a + b)" "y + 1 = 4 * (100 * a + 25 * b + (c + 1))" using y by simp_all
      ultimately have "(y + 1) mod 100 = 4 * (c + 1)" "(y + 1) mod 4 = 0" by (metis mod_mult_self2, metis mod_mult_self1_is_0)
      then show ?thesis using c by (simp add: is_leap_def)
    qed
    then show ?thesis using y(2) by blast
  next
    case False
    then have "r mod 1461 < 1460" using x by linarith
    then have "r mod 1461 div 365 \<le> 3" by linarith
    then have "e = r mod 1461 div 365" unfolding abs(5) by simp
    then have "yd = r mod 1461 mod 365" using eq by (simp add: minus_mult_div_eq_mod)
    then have "yd < 365" by simp
    then show ?thesis by linarith
  qed
qed

lemma month_day_within:
  assumes "month_day ls m d = (m', k)" "d < sum_list ls"
  shows "m \<le> m'" "m' - m < length ls" "1 \<le> k" "k \<le> ls ! (m' - m)"
proof -
  have "m \<le> m' \<and> m' - m < length ls \<and> 1 \<le> k \<and> k \<le> ls ! (m' - m)"
    using assms
  proof (induction ls m d rule: month_day.induct)
    case (2 l ls m d)
    show ?case
    proof (cases "d < l")
      case False
      with 2 have IH: "Suc m \<le> m'" "m' - Suc m < length ls" "1 \<le> k" "k \<le> ls ! (m' - Suc m)" by auto
      then have "m' - m = Suc (m' - Suc m)" by simp
      then show ?thesis using IH by simp
    qed (use 2 in auto)
  qed auto
  then show "m \<le> m'" "m' - m < length ls" "1 \<le> k" "k \<le> ls ! (m' - m)" by auto
qed

lemma civil_date:
  assumes "civil t = (y, m, d)"
  shows "date_ok y m d" "days_of y m d = t div (86400 * second)"
proof -
  obtain y0 yd where yy: "year_yday (t div (86400 * second)) = (y0, yd)" by fastforce
  have md: "month_day (month_lengths (is_leap y)) 1 (nat yd) = (m, d)" "y = y0 + 1"
    using assms yy by (auto simp: civil_def)
  have "nat yd < sum_list (month_lengths (is_leap y))"
    using year_yday_leap [OF yy] md(2) by (auto simp: month_lengths_def)
  note w = month_day_within [OF md(1) this]
  then show "date_ok y m d" by (auto simp: date_ok_def month_lengths_def)
  have "int (sum_list (take (m - 1) (month_lengths (is_leap y)))) + int d - 1 = yd"
    using month_day_inverse(2) [OF md(1)] year_yday_inverse(2) [OF yy] by linarith
  then show "days_of y m d = t div (86400 * second)"
    using year_yday_inverse(1) [OF yy] md(2) by (simp add: days_of_def Let_def)
qed

lemma pad_digits: "list_all is_digit (pad w n)" "nat_of_dec (pad w n) = n"
  using dec_of_nat_digits [of n] digit_facts(1) [of 0]
  by (simp_all add: pad_def nat_of_dec_zeros list_all_iff ball_Un)

lemma getnum_pad:
  assumes "n < 100"
  shows "getnum f (pad 2 n @ s) = Some (n, s)"
proof -
  obtain a b where ab: "pad 2 n = [a, b]" using length_pad [of n 2] assms
    by (auto simp: length_Suc_conv numeral_2_eq_2)
  have "is_digit a" "is_digit b" "10 * digit_val a + digit_val b = n"
    using pad_digits [of 2 n] by (simp_all add: ab nat_of_dec_def)
  then show ?thesis by (simp add: getnum_def ab)
qed

lemma getyear_pad: "n < 10000 \<Longrightarrow> getyear (pad 4 n @ s) = Some (n, s)"
  using length_pad [of n 4] pad_digits [of 4 n] by (simp add: getyear_def)

lemma skip1_Cons: "skip1 c (c # s) = Some s"
  by (simp add: skip1_def)

lemma strip_zeros_digits: "list_all is_digit s \<Longrightarrow> list_all is_digit (strip_zeros s)"
  by (auto simp: strip_zeros_def list_all_iff dest: set_dropWhileD)

lemma getfraction_format: "getfraction (format_fraction t @ ''Z'') = (nat (t mod second), ''Z'')"
proof (cases "nat (t mod second) = 0")
  case True
  then show ?thesis by (simp add: format_fraction_def getfraction_def)
next
  case False
  let ?n = "nat (t mod second)" and ?p = "pad 9 (nat (t mod second))"
  let ?ds = "strip_zeros ?p"
  have len: "length ?p = 9" by (rule length_pad) (simp_all add: second_def nat_less_iff)
  have rest: "?ds @ replicate (9 - length ?ds) (digit 0) = ?p" using strip_zeros_restore [of ?p] len by simp
  then have le: "length ?ds \<le> 9" using len by (metis le_add1 length_append)
  have "?ds \<noteq> []"
  proof
    assume "?ds = []"
    then have "?p = replicate 9 (digit 0)" using rest by simp
    then have "nat_of_dec ?p = 0" using nat_of_dec_zeros [of 9 "[]"] by (simp add: nat_of_dec_def)
    then show False using False pad_digits(2) by simp
  qed
  moreover have dig: "list_all is_digit ?ds" by (intro strip_zeros_digits pad_digits)
  moreover have Z: "\<not> is_digit (CHR ''Z'')" by (simp add: is_digit_def code_def)
  then have "takeWhile is_digit (?ds @ ''Z'') = ?ds" "dropWhile is_digit (?ds @ ''Z'') = ''Z''"
    using dig by (auto simp: list_all_iff takeWhile_append2 dropWhile_append2)
  ultimately show ?thesis
    using False le rest pad_digits(2) [of 9 ?n]
    by (cases ?ds) (auto simp: format_fraction_def getfraction_def Let_def)
qed

theorem parse_format_rfc3339:
  assumes "time_ok t"
  shows "parse_rfc3339 (format_rfc3339nano t) = Some t"
proof -
  obtain y m d where c: "civil t = (y, m, d)" by (cases "civil t") auto
  note b = civil_bounds [OF assms c] and date = civil_date [OF c]
  define p where "p = nat (t div second mod 86400)"
  have p: "p < 86400" by (simp add: p_def nat_less_iff)
  have small: "p div 3600 < 24" "p div 60 mod 60 \<le> 59" "p mod 60 \<le> 59"
    using p mod_less_divisor [of 60 p] mod_less_divisor [of 60 "p div 60"] by linarith+
  have f: "format_rfc3339nano t = pad 4 (nat y) @ CHR ''-'' # pad 2 m @ CHR ''-'' # pad 2 d @ CHR ''T''
      # pad 2 (p div 3600) @ CHR '':'' # pad 2 (p div 60 mod 60) @ CHR '':'' # pad 2 (p mod 60) @ format_fraction t @ ''Z''"
    using b by (simp add: format_rfc3339nano_def format_seconds_def Let_def c format_year_def p_def)
  have parse: "parse_rfc3339 (format_rfc3339nano t)
      = Some ((days_of y m d * 86400 + int (p div 3600 * 3600 + p div 60 mod 60 * 60 + p mod 60) - 0) * second + int (nat (t mod second)))"
    unfolding parse_rfc3339_def f
    using b small date(1)
    by (simp add: getyear_pad getnum_pad skip1_Cons getfraction_format getzone_def not_less)
  have "p div 3600 * 3600 + p div 60 mod 60 * 60 + p mod 60 = p"
  proof -
    have "p div 3600 = p div 60 div 60" by (simp add: div_mult2_eq [symmetric])
    then show ?thesis
      using div_mult_mod_eq [of "p div 60" 60] div_mult_mod_eq [of p 60] by linarith
  qed
  moreover have "t div (86400 * second) * 86400 + t div second mod 86400 = t div second"
    by (metis div_mult_mod_eq mult.commute zdiv_zmult2_eq zero_le_numeral)
  moreover have "0 \<le> t div second mod 86400" "0 \<le> t mod second" by (simp_all add: second_def)
  ultimately have "parse_rfc3339 (format_rfc3339nano t) = Some (t div second * second + t mod second)"
    unfolding parse date(2) by (simp add: p_def)
  then show ?thesis by simp
qed

end
