(* ===== verification/Go_Decode.thy ===== *)
theory Go_Decode
  imports Json_Facts Go_TimeParse
begin

text \<open>
  \<^verbatim>\<open>encoding/json\<close> decoding into structs, as the handlers, the event stream and the signature file use
  it. The text is read into a tree that keeps members in order, repeated names included, and the raw text of
  strings; the tree is then stored into the fields of a struct, one member after the other: a name selects the
  field with that name, or else the one that equals it up to case; \<^verbatim>\<open>null\<close> leaves a field as it is; a value
  of another type than the field's is an error; a repeated name stores again, into a map it adds.
\<close>

subsection \<open>Trees\<close>

datatype jtree =
    JNull
  | JBool bool
  | JNum string
  | JStr string string
  | JArr "jtree list"
  | JObj "(string \<times> jtree) list"

text \<open>A string as its raw text and what it stands for.\<close>

definition tree_str :: "string \<Rightarrow> ((string \<times> string) \<times> string) option" where
  "tree_str t = map_option (\<lambda>(u, r). ((take (length t - length r - 1) t, u), r)) (parse_str t)"

definition tree_literal :: "string \<Rightarrow> (jtree \<times> string) option" where
  "tree_literal s =
     (if has_prefix s ''null'' then Some (JNull, drop 4 s)
      else if has_prefix s ''true'' then Some (JBool True, drop 4 s)
      else if has_prefix s ''false'' then Some (JBool False, drop 5 s)
      else map_option (\<lambda>(n, t). (JNum n, t)) (scan_number s))"

text \<open>As \<^const>\<open>parse_value\<close>, \<^const>\<open>parse_elems\<close> and \<^const>\<open>parse_members\<close>.\<close>

function tree_value :: "nat \<Rightarrow> string \<Rightarrow> (jtree \<times> string) option"
  and tree_elems :: "nat \<Rightarrow> jtree list \<Rightarrow> string \<Rightarrow> (jtree list \<times> string) option"
  and tree_members :: "nat \<Rightarrow> (string \<times> jtree) list \<Rightarrow> string \<Rightarrow> ((string \<times> jtree) list \<times> string) option" where
  "tree_value d s =
     (case skip_ws s of [] \<Rightarrow> None
      | c # t \<Rightarrow>
         if c = dquote then map_option (\<lambda>((raw, u), r). (JStr raw u, r)) (tree_str t)
         else if c = CHR ''{'' then
           (if d \<ge> max_depth then None
            else case skip_ws t of [] \<Rightarrow> None
                 | e # u \<Rightarrow> if e = CHR ''}'' then Some (JObj [], u)
                             else map_option (\<lambda>(m, r). (JObj m, r)) (tree_members (Suc d) [] t))
         else if c = CHR ''['' then
           (if d \<ge> max_depth then None
            else case skip_ws t of [] \<Rightarrow> None
                 | e # u \<Rightarrow> if e = CHR '']'' then Some (JArr [], u)
                             else map_option (\<lambda>(m, r). (JArr m, r)) (tree_elems (Suc d) [] t))
         else tree_literal (c # t))"
| "tree_elems d acc s =
     (case tree_value d s of None \<Rightarrow> None
      | Some (v, r) \<Rightarrow>
         (case skip_ws r of [] \<Rightarrow> None
          | c # t \<Rightarrow> if c = CHR '']'' then Some (acc @ [v], t)
                      else if c = CHR '','' \<and> length t < length s then tree_elems d (acc @ [v]) t
                      else None))"
| "tree_members d m s =
     (case skip_ws s of [] \<Rightarrow> None
      | c # t \<Rightarrow>
         if c \<noteq> dquote then None
         else case parse_str t of None \<Rightarrow> None
              | Some (k, r) \<Rightarrow>
                 (case skip_ws r of [] \<Rightarrow> None
                  | e # u \<Rightarrow>
                     if e \<noteq> CHR '':'' then None
                     else case tree_value d u of None \<Rightarrow> None
                          | Some (v, w) \<Rightarrow>
                             (case skip_ws w of [] \<Rightarrow> None
                              | f # x \<Rightarrow>
                                 if f = CHR ''}'' then Some (m @ [(k, v)], x)
                                 else if f = CHR '','' \<and> length x < length s
                                 then tree_members d (m @ [(k, v)]) x else None)))"
  by pat_completeness auto
termination
proof (relation "measures [\<lambda>x. case x of Inl (d, s) \<Rightarrow> length s
      | Inr (Inl (d, acc, s)) \<Rightarrow> length s | Inr (Inr (d, m, s)) \<Rightarrow> length s,
    \<lambda>x. case x of Inl (d, s) \<Rightarrow> 0 | Inr (Inl (d, acc, s)) \<Rightarrow> 1 | Inr (Inr (d, m, s)) \<Rightarrow> 1]",
    goal_cases)
  case (2 d s c t)
  then show ?case using skip_ws_length [of s] by (simp add: less_le_trans)
next
  case (3 d s c t)
  then show ?case using skip_ws_length [of s] by (simp add: less_le_trans)
next
  case (6 d m s c t p k r e u)
  then show ?case
    using skip_ws_length [of s] skip_ws_length [of r] parse_str_length [of t k r] by simp
qed auto

declare tree_value.simps [simp del] tree_elems.simps [simp del] tree_members.simps [simp del]

text \<open>\<^verbatim>\<open>Decoder.Decode\<close> reads one value, \<^verbatim>\<open>json.Unmarshal\<close> insists that nothing but space follows.\<close>

definition decode_tree :: "string \<Rightarrow> jtree option" where
  "decode_tree s = map_option fst (tree_value 0 s)"

definition unmarshal_tree :: "string \<Rightarrow> jtree option" where
  "unmarshal_tree s = (case tree_value 0 s of Some (t, r) \<Rightarrow> if skip_ws r = [] then Some t else None | None \<Rightarrow> None)"

subsection \<open>Values of type any\<close>

definition put_members :: "(string \<times> 'v) list \<Rightarrow> 'v gomap \<Rightarrow> 'v gomap" where
  "put_members kvs m = foldl (\<lambda>m kv. map_put (fst kv) (snd kv) m) m kvs"

text \<open>With \<^verbatim>\<open>UseNumber\<close> a number keeps its text, without it becomes a \<^verbatim>\<open>float64\<close>, which may not fit.\<close>

fun erase :: "jtree \<Rightarrow> goval" where
  "erase JNull = GNil"
| "erase (JBool b) = GBool b"
| "erase (JNum n) = GNumber n"
| "erase (JStr raw s) = GString s"
| "erase (JArr ts) = GSlice (map erase ts)"
| "erase (JObj ms) = GMap (put_members (map (\<lambda>kt. (fst kt, erase (snd kt))) ms) [])"

fun numbers_fit :: "jtree \<Rightarrow> bool" where
  "numbers_fit (JNum n) = (json_float n \<noteq> None)"
| "numbers_fit (JArr ts) = list_all numbers_fit ts"
| "numbers_fit (JObj ms) = list_all (\<lambda>kt. numbers_fit (snd kt)) ms"
| "numbers_fit _ = True"

fun any_value :: "jtree \<Rightarrow> goval" where
  "any_value JNull = GNil"
| "any_value (JBool b) = GBool b"
| "any_value (JNum n) = GFloat (json_float n)"
| "any_value (JStr raw s) = GString s"
| "any_value (JArr ts) = GSlice (map any_value ts)"
| "any_value (JObj ms) = GMap (put_members (map (\<lambda>kt. (fst kt, any_value (snd kt))) ms) [])"

subsection \<open>Fields\<close>

text \<open>
  The names of all fields are ASCII; besides the letters of the other case only the long s and the Kelvin
  sign fold to an ASCII letter.
\<close>

definition fold_rune :: "nat \<Rightarrow> nat" where
  "fold_rune r = (if 97 \<le> r \<and> r \<le> 122 then r - 32 else if r = 0x17F then 83 else if r = 0x212A then 75 else r)"

definition fold_name :: "string \<Rightarrow> nat list" where
  "fold_name s = map (\<lambda>rc. fold_rune (fst rc)) (utf8_chunks s)"

type_synonym 'r setter = "jtree \<Rightarrow> 'r \<Rightarrow> 'r option"

definition field_named :: "(string \<times> 'a) list \<Rightarrow> string \<Rightarrow> 'a option" where
  "field_named fs k =
     (case map_of fs k of Some f \<Rightarrow> Some f
      | None \<Rightarrow> map_option snd (find (\<lambda>f. fold_name (fst f) = fold_name k) fs))"

text \<open>The members in order. \<open>strict\<close> is \<^verbatim>\<open>DisallowUnknownFields\<close>.\<close>

fun set_members :: "bool \<Rightarrow> (string \<times> 'r setter) list \<Rightarrow> (string \<times> jtree) list \<Rightarrow> 'r \<Rightarrow> 'r option" where
  "set_members strict fs [] r = Some r"
| "set_members strict fs ((k, t) # ms) r =
     (case field_named fs k of
        None \<Rightarrow> if strict then None else set_members strict fs ms r
      | Some st \<Rightarrow> (case st t r of None \<Rightarrow> None | Some r' \<Rightarrow> set_members strict fs ms r'))"

definition set_struct :: "bool \<Rightarrow> (string \<times> 'r setter) list \<Rightarrow> 'r setter" where
  "set_struct strict fs t r =
     (case t of JNull \<Rightarrow> Some r | JObj ms \<Rightarrow> set_members strict fs ms r | _ \<Rightarrow> None)"

definition set_string :: "(string \<Rightarrow> 'r \<Rightarrow> 'r) \<Rightarrow> 'r setter" where
  "set_string upd t r = (case t of JNull \<Rightarrow> Some r | JStr raw s \<Rightarrow> Some (upd s r) | _ \<Rightarrow> None)"

definition set_bool :: "(bool \<Rightarrow> 'r \<Rightarrow> 'r) \<Rightarrow> 'r setter" where
  "set_bool upd t r = (case t of JNull \<Rightarrow> Some r | JBool b \<Rightarrow> Some (upd b r) | _ \<Rightarrow> None)"

text \<open>A pointer to a boolean, which \<^verbatim>\<open>null\<close> clears.\<close>

definition set_bool_ptr :: "(bool option \<Rightarrow> 'r \<Rightarrow> 'r) \<Rightarrow> 'r setter" where
  "set_bool_ptr upd t r = (case t of JNull \<Rightarrow> Some (upd None r) | JBool b \<Rightarrow> Some (upd (Some b) r) | _ \<Rightarrow> None)"

text \<open>\<^verbatim>\<open>Time.UnmarshalJSON\<close> reads the raw text.\<close>

definition set_time :: "(time \<Rightarrow> 'r \<Rightarrow> 'r) \<Rightarrow> 'r setter" where
  "set_time upd t r =
     (case t of JNull \<Rightarrow> Some r | JStr raw s \<Rightarrow> map_option (\<lambda>x. upd x r) (parse_rfc3339 raw) | _ \<Rightarrow> None)"

text \<open>Maps, which \<^verbatim>\<open>null\<close> clears; members are added to those a map already has.\<close>

definition str_member :: "string \<times> jtree \<Rightarrow> (string \<times> string) option" where
  "str_member kt = (case snd kt of JNull \<Rightarrow> Some (fst kt, []) | JStr raw s \<Rightarrow> Some (fst kt, s) | _ \<Rightarrow> None)"

definition set_str_map :: "('r \<Rightarrow> string gomap option) \<Rightarrow> (string gomap option \<Rightarrow> 'r \<Rightarrow> 'r) \<Rightarrow> 'r setter" where
  "set_str_map get upd t r =
     (case t of JNull \<Rightarrow> Some (upd None r)
      | JObj ms \<Rightarrow> map_option (\<lambda>kvs. upd (Some (put_members kvs (case get r of None \<Rightarrow> [] | Some m \<Rightarrow> m))) r)
          (those (map str_member ms))
      | _ \<Rightarrow> None)"

definition set_any_map :: "('r \<Rightarrow> goval gomap option) \<Rightarrow> (goval gomap option \<Rightarrow> 'r \<Rightarrow> 'r) \<Rightarrow> 'r setter" where
  "set_any_map get upd t r =
     (case t of JNull \<Rightarrow> Some (upd None r)
      | JObj ms \<Rightarrow> if numbers_fit t
          then Some (upd (Some (put_members (map (\<lambda>kt. (fst kt, any_value (snd kt))) ms) (case get r of None \<Rightarrow> [] | Some m \<Rightarrow> m))) r)
          else None
      | _ \<Rightarrow> None)"

text \<open>
  A slice as its backing array and its length. An element is stored over the one the array has at its place,
  also one left over from a longer slice before.
\<close>

fun set_elems :: "'e setter \<Rightarrow> 'e \<Rightarrow> jtree list \<Rightarrow> 'e list \<Rightarrow> 'e list option" where
  "set_elems st zero [] es = Some es"
| "set_elems st zero (t # ts) es =
     (case st t (if es = [] then zero else hd es) of None \<Rightarrow> None
      | Some e \<Rightarrow> map_option (\<lambda>rest. e # rest) (set_elems st zero ts (tl es)))"

definition set_slice :: "'e setter \<Rightarrow> 'e \<Rightarrow> ('r \<Rightarrow> 'e list \<times> nat) \<Rightarrow> ('e list \<times> nat \<Rightarrow> 'r \<Rightarrow> 'r) \<Rightarrow> 'r setter" where
  "set_slice st zero get upd t r =
     (case t of JNull \<Rightarrow> Some (upd ([], 0) r)
      | JArr [] \<Rightarrow> Some (upd ([], 0) r)
      | JArr ts \<Rightarrow> map_option (\<lambda>es. upd (es, length ts) r) (set_elems st zero ts (fst (get r)))
      | _ \<Rightarrow> None)"

definition slice_of :: "'e list \<times> nat \<Rightarrow> 'e list" where
  "slice_of s = take (snd s) (fst s)"

end
