(* ===== verification/Decode_Facts.thy ===== *)
theory Decode_Facts
  imports Go_Decode
begin

text \<open>
  Facts on decoding: the tree of a text is what \<^verbatim>\<open>UseNumber\<close> decoding makes of it; the text of a value
  reads back as its tree; and a text that was cut off does not read as a whole object.
\<close>

subsection \<open>Trees and values\<close>

definition erase_members :: "(string \<times> jtree) list \<Rightarrow> goval gomap" where
  "erase_members ms = put_members (map (\<lambda>kt. (fst kt, erase (snd kt))) ms) []"

lemma erase_members_simps [simp]:
  "erase_members [] = []" "erase_members (ms @ [(k, t)]) = map_put k (erase t) (erase_members ms)"
  by (simp_all add: erase_members_def put_members_def)

lemma erase_JObj: "erase (JObj ms) = GMap (erase_members ms)"
  by (simp add: erase_members_def)

lemma tree_literal_erase: "parse_literal s = map_option (map_prod erase id) (tree_literal s)"
  by (simp add: parse_literal_def tree_literal_def option.map_comp o_def split_def map_prod_def)

lemma parse_tree:
  "parse_value d s = map_option (map_prod erase id) (tree_value d s)"
  "parse_elems d (map erase acc) s = map_option (map_prod (map erase) id) (tree_elems d acc s)"
  "parse_members d (erase_members m) s = map_option (map_prod erase_members id) (tree_members d m s)"
proof (induction d s and d acc s and d m s rule: tree_value_tree_elems_tree_members.induct)
  case (1 d s)
  show ?case
  proof (cases "skip_ws s")
    case (Cons c t)
    show ?thesis
      using Cons 1
      by (auto simp: parse_value.simps [of d s] tree_value.simps [of d s] tree_str_def erase_JObj tree_literal_erase
          option.map_comp o_def split_def map_prod_def dquote_def simp del: erase.simps(6) split: list.splits)
  qed (simp add: parse_value.simps [of d s] tree_value.simps [of d s])
next
  case (2 d acc s)
  show ?case
  proof (cases "tree_value d s")
    case (Some vr)
    then show ?thesis
      using 2 by (cases vr) (auto simp: parse_elems.simps [of d "map erase acc"] tree_elems.simps [of d acc] split: list.splits)
  qed (use 2 in \<open>simp add: parse_elems.simps [of d "map erase acc"] tree_elems.simps [of d acc]\<close>)
next
  case (3 d m s)
  show ?case
  proof (cases "skip_ws s")
    case (Cons c t)
    show ?thesis
      using 3 Cons
      by (auto simp: parse_members.simps [of d "erase_members m"] tree_members.simps [of d m] split: list.splits option.splits)
  qed (simp add: parse_members.simps [of d "erase_members m"] tree_members.simps [of d m])
qed

subsection \<open>Reading what was written\<close>

text \<open>The tree of the text of a value, and what makes a value readable: floats with a text, bounded nesting.\<close>

fun tree_of :: "goval \<Rightarrow> jtree" where
  "tree_of GNil = JNull"
| "tree_of (GBool b) = JBool b"
| "tree_of (GString s) = JStr (quote_body True s) (utf8_coerce s)"
| "tree_of (GNumber n) = JNum (if n = [] then ''0'' else n)"
| "tree_of (GFloat t) = JNum (case t of None \<Rightarrow> [] | Some u \<Rightarrow> u)"
| "tree_of (GInt n) = JNum (itoa n)"
| "tree_of (GSlice vs) = JArr (map tree_of vs)"
| "tree_of GNilSlice = JNull"
| "tree_of (GMap m) = JObj (map (\<lambda>kt. (utf8_coerce (fst kt), snd kt)) (sort_key fst (map (\<lambda>kv. (fst kv, tree_of (snd kv))) m)))"
| "tree_of (GStrMap m) = JObj (map (\<lambda>kv. (utf8_coerce (fst kv), JStr (quote_body True (snd kv)) (utf8_coerce (snd kv)))) (sort_key fst m))"
| "tree_of GNilMap = JNull"
| "tree_of (GOther t) = JNull"

fun fits :: "nat \<Rightarrow> goval \<Rightarrow> bool" where
  "fits k (GFloat t) = (case t of None \<Rightarrow> False | Some u \<Rightarrow> valid_number u)"
| "fits k (GSlice vs) = (0 < k \<and> list_all (fits (k - 1)) vs)"
| "fits k (GMap m) = (0 < k \<and> list_all (\<lambda>kv. fits (k - 1) (snd kv)) m)"
| "fits k (GStrMap m) = (0 < k)"
| "fits k (GOther t) = False"
| "fits k v = True"

lemma tree_of_map: "tree_of (GMap m) = JObj (map (\<lambda>kv. (utf8_coerce (fst kv), tree_of (snd kv))) (sort_key fst m))"
  by (simp add: sort_key_map_Inr)

lemma collect_map:
  assumes "collect (map f xs) = Inr ys"
  shows "ys = map (\<lambda>x. projr (f x)) xs" "\<And>x. x \<in> set xs \<Longrightarrow> f x = Inr (projr (f x))"
proof -
  have "ys = map (\<lambda>x. projr (f x)) xs \<and> (\<forall>x \<in> set xs. f x = Inr (projr (f x)))"
    using assms
  proof (induction xs arbitrary: ys)
    case (Cons x xs)
    then show ?case by (cases "f x") (auto split: sum.splits)
  qed simp
  then show "ys = map (\<lambda>x. projr (f x)) xs" "\<And>x. x \<in> set xs \<Longrightarrow> f x = Inr (projr (f x))" by auto
qed

lemma valid_itoa: "valid_number (itoa n)"
proof -
  have dec: "int_part (dec_of_nat k) = Some (dec_of_nat k, [])" "hd (dec_of_nat k) \<noteq> CHR ''-''" for k
  proof -
    obtain c t where ct: "dec_of_nat k = c # t" by (cases "dec_of_nat k") auto
    have d: "is_digit c" "list_all is_digit t" using dec_of_nat_digits [of k] by (simp_all add: ct)
    have "t = []" if "c = CHR ''0''" using dec_of_nat_no_zero [of k] that by (cases t) (auto simp: ct)
    moreover have "takeWhile is_digit t = t" "dropWhile is_digit t = []" using d(2) by (induction t) simp_all
    ultimately show "int_part (dec_of_nat k) = Some (dec_of_nat k, [])" using d by (simp add: int_part_def ct)
    show "hd (dec_of_nat k) \<noteq> CHR ''-''" using d(1) digit_not_sign(2) ct by auto
  qed
  have "minus_sign (dec_of_nat k) = ([], dec_of_nat k)" for k
    using dec(2) [of k] by (cases "dec_of_nat k") (auto simp: minus_sign_def)
  then show ?thesis
    using dec by (simp add: valid_number_def scan_number_def itoa_def frac_part_def exp_part_def minus_sign_def [of "CHR ''-'' # t" for t])
qed

subsection \<open>What can be written\<close>

lemma collect_ok: "\<forall>x \<in> set rs. \<not> isl x \<Longrightarrow> \<not> isl (collect rs)"
proof (induction rs)
  case (Cons r rs)
  then show ?case by (cases r; cases "collect rs") auto
qed simp

lemma marshal_object:
  assumes "\<forall>kv \<in> set m. \<not> isl (marshal (snd kv))"
  shows "\<not> isl (marshal (GMap m))"
proof -
  have "\<not> isl (member True (fst kv, marshal (snd kv)))" if "kv \<in> set m" for kv
    using assms that by (cases "marshal (snd kv)") (auto simp: member_def)
  then have "\<not> isl (collect (map (member True) (sort_key fst (map (\<lambda>kv. (fst kv, marshal (snd kv))) m))))"
    by (intro collect_ok) auto
  then show ?thesis by (auto simp: encode_object_def wrap_object_def isl_def split: sum.splits)
qed

lemma marshal_slice:
  assumes "\<forall>v \<in> set vs. \<not> isl (marshal v)"
  shows "\<not> isl (marshal (GSlice vs))"
  using collect_ok [of "map marshal vs"] assms by (auto simp: wrap_list_def isl_def split: sum.splits)

lemma tree_value_literal:
  assumes "tree_literal s = Some (v, r)" "s = c # t" "\<not> is_ws c"
    "c \<noteq> dquote" "c \<noteq> CHR ''{''" "c \<noteq> CHR ''[''"
  shows "tree_value d s = Some (v, r)"
  using assms by (simp add: tree_value.simps [of d "c # t"] skip_ws_head)

lemma tree_value_number:
  assumes "valid_number n" "num_stop rest"
  shows "tree_value d (n @ rest) = Some (JNum n, rest)"
proof -
  obtain c t where n: "n = c # t" and c: "is_digit c \<or> c = CHR ''-''" using valid_number_head [OF assms(1)] .
  then have "tree_literal (n @ rest) = Some (JNum n, rest)"
    using valid_number_read [OF assms] by (auto simp: tree_literal_def has_prefix_def is_digit_def code_def)
  then show ?thesis
    using c n by (intro tree_value_literal [of _ _ _ c "t @ rest"]) (auto simp: is_ws_def is_digit_def code_def dquote_def)
qed

lemma tree_str_quote: "tree_str (quote_body html s @ dquote # t) = Some ((quote_body html s, utf8_coerce s), t)"
  by (simp add: tree_str_def parse_str_quote)

lemma tree_value_string: "tree_value d (json_quote html s @ r) = Some (JStr (quote_body html s) (utf8_coerce s), r)"
  by (simp add: json_quote_def tree_value.simps [of d "dquote # x" for x] tree_str_quote)

lemma tree_elems_join:
  assumes "vs \<noteq> []" "\<And>v r. v \<in> set vs \<Longrightarrow> num_stop r \<Longrightarrow> tree_value d (f v @ r) = Some (g v, r)"
  shows "tree_elems d acc (join '','' (map f vs) @ '']'' @ rest) = Some (acc @ map g vs, rest)"
  using assms
proof (induction vs arbitrary: acc rule: induct_list012)
  case (2 v)
  then show ?case by (simp add: tree_elems.simps [of d acc])
next
  case (3 v w vs)
  have "tree_elems d (acc @ [g v]) (join '','' (map f (w # vs)) @ '']'' @ rest) = Some ((acc @ [g v]) @ map g (w # vs), rest)"
    using 3 by (intro "3.IH"(2)) auto
  then show ?case using "3.prems" by (simp add: tree_elems.simps [of d acc])
qed simp

lemma tree_members_join:
  assumes "kvs \<noteq> []" "\<And>kv r. kv \<in> set kvs \<Longrightarrow> num_stop r \<Longrightarrow> tree_value d (f kv @ r) = Some (g kv, r)"
  shows "tree_members d m (join '','' (map (\<lambda>kv. json_quote html (fst kv) @ '':'' @ f kv) kvs) @ ''}'' @ rest)
    = Some (m @ map (\<lambda>kv. (utf8_coerce (fst kv), g kv)) kvs, rest)"
  using assms
proof (induction kvs arbitrary: m rule: induct_list012)
  case (2 kv)
  then show ?case by (simp add: tree_members.simps [of d m] json_quote_def parse_str_quote)
next
  case (3 kv kw kvs)
  let ?m = "m @ [(utf8_coerce (fst kv), g kv)]"
  have "tree_members d ?m (join '','' (map (\<lambda>kv. json_quote html (fst kv) @ '':'' @ f kv) (kw # kvs)) @ ''}'' @ rest)
      = Some (?m @ map (\<lambda>kv. (utf8_coerce (fst kv), g kv)) (kw # kvs), rest)"
    using 3 by (intro "3.IH"(2)) auto
  then show ?case using "3.prems" by (simp add: tree_members.simps [of d m] json_quote_def parse_str_quote)
qed simp

text \<open>A whole object, its members in any order.\<close>

lemma tree_object:
  assumes "d < max_depth" "\<And>kv r. kv \<in> set kvs \<Longrightarrow> num_stop r \<Longrightarrow> tree_value (Suc d) (f kv @ r) = Some (g kv, r)"
  shows "tree_value d (''{'' @ join '','' (map (\<lambda>kv. json_quote html (fst kv) @ '':'' @ f kv) kvs) @ ''}'' @ rest)
    = Some (JObj (map (\<lambda>kv. (utf8_coerce (fst kv), g kv)) kvs), rest)"
proof (cases kvs)
  case Nil
  then show ?thesis using assms(1) by (simp add: tree_value.simps [of d "CHR ''{'' # x" for x] dquote_def)
next
  case (Cons kv kws)
  let ?body = "join '','' (map (\<lambda>kv. json_quote html (fst kv) @ '':'' @ f kv) kvs) @ ''}'' @ rest"
  have "tree_members (Suc d) [] ?body = Some ([] @ map (\<lambda>kv. (utf8_coerce (fst kv), g kv)) kvs, rest)"
    using assms(2) Cons by (intro tree_members_join) auto
  moreover have "\<exists>u. ?body = dquote # u" using Cons by (cases kws) (auto simp: json_quote_def)
  then obtain u where u: "?body = dquote # u" by blast
  ultimately have "tree_value d (CHR ''{'' # dquote # u) = Some (JObj (map (\<lambda>kv. (utf8_coerce (fst kv), g kv)) kvs), rest)"
    using assms(1) by (simp add: tree_value.simps [of d "CHR ''{'' # x" for x]) (simp add: dquote_def)
  then have "tree_value d (CHR ''{'' # ?body) = Some (JObj (map (\<lambda>kv. (utf8_coerce (fst kv), g kv)) kvs), rest)"
    by (simp only: u)
  then show ?thesis by simp
qed

lemma marshal_head:
  assumes "marshal v = Inr b" "fits k v"
  obtains c t where "b = c # t" "\<not> is_ws c" "c \<noteq> CHR '']''"
proof -
  have number: "\<exists>c t. n = c # t \<and> \<not> is_ws c \<and> c \<noteq> CHR '']''" if "valid_number n" for n
    by (rule valid_number_head [OF that]) (auto simp: is_ws_def is_digit_def code_def)
  have "\<exists>c t. b = c # t \<and> \<not> is_ws c \<and> c \<noteq> CHR '']''"
    using assms number valid_itoa
    by (cases v) (auto simp: is_ws_def json_quote_def dquote_def marshal_number_def option_text_def wrap_list_def
        encode_object_def wrap_object_def split: if_splits option.splits sum.splits)
  then show thesis using that by blast
qed

lemma tree_slice:
  assumes "d < max_depth" "\<And>v. v \<in> set vs \<Longrightarrow> \<exists>c t. f v = c # t \<and> \<not> is_ws c \<and> c \<noteq> CHR '']''"
    "\<And>v r. v \<in> set vs \<Longrightarrow> num_stop r \<Longrightarrow> tree_value (Suc d) (f v @ r) = Some (g v, r)"
  shows "tree_value d (''['' @ join '','' (map f vs) @ '']'' @ rest) = Some (JArr (map g vs), rest)"
proof (cases vs)
  case Nil
  then show ?thesis using assms(1) by (simp add: tree_value.simps [of d "CHR ''['' # x" for x] dquote_def)
next
  case (Cons v ws)
  let ?body = "join '','' (map f vs) @ '']'' @ rest"
  have elems: "tree_elems (Suc d) [] ?body = Some ([] @ map g vs, rest)"
    using assms(3) Cons by (intro tree_elems_join) auto
  obtain c t where c: "f v = c # t" "\<not> is_ws c" "c \<noteq> CHR '']''" using assms(2) Cons by force
  have "\<exists>u. ?body = c # u" using c(1) Cons by (cases ws) auto
  then obtain u where u: "?body = c # u" by blast
  have "tree_value d (CHR ''['' # c # u) = Some (JArr (map g vs), rest)"
    using elems assms(1) c unfolding u by (simp add: tree_value.simps [of d "CHR ''['' # x" for x] dquote_def skip_ws_head)
  then have "tree_value d (CHR ''['' # ?body) = Some (JArr (map g vs), rest)" by (simp only: u)
  then show ?thesis by simp
qed

text \<open>The members of an object, each written as a readable value.\<close>

lemma members_read:
  assumes "collect (map (\<lambda>kv. member True (fst kv, w kv)) kvs) = Inr ps" "d < max_depth"
    "\<And>kv b r. kv \<in> set kvs \<Longrightarrow> w kv = Inr b \<Longrightarrow> num_stop r \<Longrightarrow> tree_value (Suc d) (b @ r) = Some (g kv, r)"
  shows "tree_value d (''{'' @ join '','' ps @ ''}'' @ rest) = Some (JObj (map (\<lambda>kv. (utf8_coerce (fst kv), g kv)) kvs), rest)"
proof -
  note c = collect_map [OF assms(1)]
  have w: "w kv = Inr (projr (w kv))" if "kv \<in> set kvs" for kv
    using c(2) [OF that] by (cases "w kv") (simp_all add: member_def)
  have "projr (member True (fst kv, w kv)) = json_quote True (fst kv) @ '':'' @ projr (w kv)" if "kv \<in> set kvs" for kv
    using w [OF that] by (cases "w kv") (simp_all add: member_def)
  then have ps: "ps = map (\<lambda>kv. json_quote True (fst kv) @ '':'' @ projr (w kv)) kvs" using c(1) by simp
  show ?thesis
    unfolding ps using assms(2,3) w by (intro tree_object) auto
qed

theorem tree_marshal:
  "marshal v = Inr b \<Longrightarrow> d \<le> max_depth \<Longrightarrow> fits (max_depth - d) v \<Longrightarrow> num_stop rest \<Longrightarrow>
     tree_value d (b @ rest) = Some (tree_of v, rest)"
proof (induction v arbitrary: d b rest rule: marshal.induct)
  case (7 vs)
  obtain ps where ps: "collect (map marshal vs) = Inr ps" "b = ''['' @ join '','' ps @ '']''"
    using "7.prems"(1) by (auto simp: wrap_list_def split: sum.splits)
  note c = collect_map [OF ps(1)]
  have d: "d < max_depth" "max_depth - d - 1 = max_depth - Suc d" "\<And>v. v \<in> set vs \<Longrightarrow> fits (max_depth - Suc d) v"
    using "7.prems"(3) by (auto simp: list_all_iff)
  have "tree_value d (''['' @ join '','' (map (\<lambda>v. projr (marshal v)) vs) @ '']'' @ rest) = Some (JArr (map tree_of vs), rest)"
  proof (rule tree_slice)
    show "\<exists>c t. projr (marshal v) = c # t \<and> \<not> is_ws c \<and> c \<noteq> CHR '']''" if "v \<in> set vs" for v
      using marshal_head [OF c(2) [OF that] d(3) [OF that]] by blast
    show "tree_value (Suc d) (projr (marshal v) @ r) = Some (tree_of v, r)" if "v \<in> set vs" "num_stop r" for v r
      using "7.IH" [OF that(1) c(2) [OF that(1)]] d that by simp
  qed (use d in simp)
  then show ?case using ps(2) c(1) by simp
next
  case (9 m)
  obtain ps where ps: "collect (map (member True) (sort_key fst (map (\<lambda>kv. (fst kv, marshal (snd kv))) m))) = Inr ps"
    "b = ''{'' @ join '','' ps @ ''}''"
    using "9.prems"(1) by (auto simp: encode_object_def wrap_object_def split: sum.splits)
  then have c: "collect (map (\<lambda>kv. member True (fst kv, marshal (snd kv))) (sort_key fst m)) = Inr ps"
    by (simp add: sort_key_map_Inr o_def)
  have d: "d < max_depth" "\<And>kv. kv \<in> set m \<Longrightarrow> fits (max_depth - Suc d) (snd kv)"
    using "9.prems"(3) by (auto simp: list_all_iff)
  have "tree_value d (''{'' @ join '','' ps @ ''}'' @ rest)
      = Some (JObj (map (\<lambda>kv. (utf8_coerce (fst kv), tree_of (snd kv))) (sort_key fst m)), rest)"
    using d "9.IH" by (intro members_read [OF c]) auto
  then show ?case using ps(2) by (simp only: tree_of_map append_assoc)
next
  case (10 m)
  obtain ps where ps: "collect (map (member True) (sort_key fst (map (\<lambda>kv. (fst kv, Inr (json_quote True (snd kv)))) m))) = Inr ps"
    "b = ''{'' @ join '','' ps @ ''}''"
    using "10.prems"(1) by (auto simp: encode_object_def wrap_object_def split: sum.splits)
  then have c: "collect (map (\<lambda>kv. member True (fst kv, Inr (json_quote True (snd kv)))) (sort_key fst m)) = Inr ps"
    by (simp add: sort_key_map_Inr [of "\<lambda>s. Inr (json_quote True s)"] o_def)
  have "tree_value d (''{'' @ join '','' ps @ ''}'' @ rest)
      = Some (JObj (map (\<lambda>kv. (utf8_coerce (fst kv), JStr (quote_body True (snd kv)) (utf8_coerce (snd kv)))) (sort_key fst m)), rest)"
    using "10.prems"(3) by (intro members_read [OF c]) (auto simp: tree_value_string)
  then show ?case using ps(2) by simp
next
  case (3 s)
  then show ?case by (auto simp: tree_value_string)
next
  case (4 n)
  have "valid_number ''0''" by code_simp
  then show ?case using 4 by (auto simp: marshal_number_def tree_value_number split: if_splits)
next
  case (5 t)
  then show ?case by (auto simp: option_text_def tree_value_number split: option.splits)
next
  case (6 n)
  then show ?case using valid_itoa by (auto simp: tree_value_number)
qed (auto intro!: tree_value_literal simp: tree_literal_def has_prefix_def is_ws_def dquote_def split: if_splits)

text \<open>A struct, its members in the order of declaration.\<close>

lemma tree_struct:
  assumes "collect (map (\<lambda>kv. member True (fst kv, marshal (snd kv))) kvs) = Inr ps"
    "d < max_depth" "list_all (\<lambda>kv. fits (max_depth - Suc d) (snd kv)) kvs"
  shows "tree_value d (''{'' @ join '','' ps @ ''}'' @ rest)
    = Some (JObj (map (\<lambda>kv. (utf8_coerce (fst kv), tree_of (snd kv))) kvs), rest)"
  using assms(2,3) tree_marshal by (intro members_read [OF assms(1)]) (auto simp: list_all_iff)

subsection \<open>Text that was cut off\<close>

text \<open>More text behind an object does not change how it reads; so the beginning of an object is not one.\<close>

lemma hex4_dquote: "dquote \<in> set (take 4 t) \<Longrightarrow> hex4 t = None"
proof -
  have "hex_val dquote = None" by (simp add: hex_val_def dquote_def code_def)
  then show "dquote \<in> set (take 4 t) \<Longrightarrow> hex4 t = None"
    by (cases t rule: hex4.cases) (auto split: option.splits)
qed

lemma hex4_extend:
  assumes "dquote \<in> set t"
  shows "hex4 (t @ x) = map_option (\<lambda>(r, u). (r, u @ x)) (hex4 t)"
proof (cases "length t < 4")
  case True
  then show ?thesis using assms by (simp add: hex4_dquote)
next
  case False
  then obtain a b c d s where "t = a # b # c # d # s"
    by (cases t rule: hex4.cases) auto
  then show ?thesis by (auto split: option.splits)
qed

lemma low_surrogate_extend:
  "dquote \<in> set v \<Longrightarrow> low_surrogate (v @ x) = map_option (\<lambda>(r, u). (r, u @ x)) (low_surrogate v)"
  by (auto simp: low_surrogate_def hex4_extend backslash_def dquote_def split: list.splits option.splits)

lemma decode_rune_extend:
  assumes "dquote \<in> set s"
  shows "decode_rune (s @ x) = decode_rune s"
proof -
  obtain a t where s: "s = a # t" using assms by (cases s) auto
  have no: "\<not> cont_byte dquote" "\<not> second_ok n dquote" for n
    by (simp_all add: cont_byte_def second_ok_def in_range_def dquote_def code_def)
  show ?thesis
  proof (cases "code a < 0x80")
    case True
    then show ?thesis by (simp add: s decode_rune_def)
  next
    case False
    then have q: "dquote \<in> set t" using assms by (auto simp: s dquote_def code_def)
    consider b where "t = [b]" | b c where "t = [b, c]" | b c d t' where "t = b # c # d # t'"
      using q by (cases t; cases "tl t"; cases "tl (tl t)") auto
    then show ?thesis using no q by cases (auto simp: s decode_rune_def Let_def split: list.splits)
  qed
qed

lemma next_rune_rest: "next_rune s = Some (r, t) \<Longrightarrow> \<exists>p. s = p @ t"
proof -
  have h: "\<exists>p. s = p @ t" if "hex4 s = Some (r, t)" for s r t
    using that by (cases s rule: hex4.cases) (auto split: option.splits)
  have l: "\<exists>p. s = p @ t" if "low_surrogate s = Some (r, t)" for s r t
    using that h by (force simp: low_surrogate_def split: list.splits if_splits option.splits)
  show "next_rune s = Some (r, t) \<Longrightarrow> \<exists>p. s = p @ t"
    by (auto simp: next_rune_def split: list.splits if_splits option.splits)
      (force dest: h l | metis append_take_drop_id)+
qed

lemma next_rune_extend:
  assumes "next_rune s = Some (r, t)" "dquote \<in> set t"
  shows "next_rune (s @ x) = Some (r, t @ x)"
proof -
  obtain c u where s: "s = c # u" using assms(1) by (cases s) (auto simp: next_rune_def)
  have q: "dquote \<in> set s" using next_rune_rest [OF assms(1)] assms(2) by auto
  show ?thesis
  proof (cases "c = backslash")
    case True
    have "dquote \<in> set u" using q s True by (auto simp: backslash_def dquote_def)
    then obtain e v where u: "u = e # v" by (cases u) auto
    show ?thesis
    proof (cases "e = CHR ''u''")
      case True
      have v: "dquote \<in> set v" using \<open>dquote \<in> set u\<close> u True by (auto simp: dquote_def)
      obtain n w where w: "hex4 v = Some (n, w)" using assms(1) s u \<open>c = backslash\<close> True
        by (cases "hex4 v") (auto simp: next_rune_def)
      have "dquote \<in> set w"
      proof (cases "low_surrogate w")
        case None
        then show ?thesis using assms s u w \<open>c = backslash\<close> True by (auto simp: next_rune_def split: if_splits)
      next
        case (Some z)
        then obtain p where "w = p @ snd z"
          by (cases z) (auto simp: low_surrogate_def split: list.splits if_splits option.splits elim!: hex4.elims)
        then show ?thesis using assms s u w Some \<open>c = backslash\<close> True
          by (cases z) (auto simp: next_rune_def split: if_splits)
      qed
      then show ?thesis
        using assms s u w \<open>c = backslash\<close> True hex4_extend [OF v] low_surrogate_extend [of w x]
        by (auto simp: next_rune_def split: if_splits option.splits)
    next
      case False
      then show ?thesis using assms s u \<open>c = backslash\<close> by (auto simp: next_rune_def)
    qed
  next
    case False
    then show ?thesis
      using assms s decode_rune_extend [OF q, of x] decode_rune_width [of s]
        drop_append [of "snd (decode_rune (c # u))" "c # u" x]
      by (auto simp: next_rune_def split: if_splits)
  qed
qed

lemma parse_str_dquote: "parse_str s = Some (u, t) \<Longrightarrow> dquote \<in> set s"
proof (induction s arbitrary: u rule: parse_str.induct)
  case (1 s)
  show ?case
  proof (cases "s \<noteq> [] \<and> hd s = dquote")
    case True
    then show ?thesis using hd_in_set by metis
  next
    case False
    then obtain r v w where "next_rune s = Some (r, v)" "parse_str v = Some (w, t)"
      using "1.prems" by (auto simp: parse_str.simps [of s] split: option.splits)
    then show ?thesis using 1(1) [OF False] next_rune_rest [of s r v] by auto
  qed
qed

lemma parse_str_extend: "parse_str s = Some (u, t) \<Longrightarrow> parse_str (s @ x) = Some (u, t @ x)"
proof (induction s arbitrary: u rule: parse_str.induct)
  case (1 s)
  show ?case
  proof (cases "s \<noteq> [] \<and> hd s = dquote")
    case True
    then show ?thesis using "1.prems" by (simp add: parse_str.simps [of s] parse_str.simps [of "s @ x"])
  next
    case False
    then obtain r v w where v: "next_rune s = Some (r, v)" "parse_str v = Some (w, t)" "u = encode_rune r @ w"
      using "1.prems" by (auto simp: parse_str.simps [of s] split: option.splits)
    have "s \<noteq> []" using v(1) by (auto simp: next_rune_def)
    then show ?thesis
      using False v 1(1) [OF False v(1)] next_rune_extend [OF v(1) parse_str_dquote [OF v(2)], of x]
      by (simp add: parse_str.simps [of "s @ x"])
  qed
qed

lemma skip_ws_extend: "skip_ws s \<noteq> [] \<Longrightarrow> skip_ws (s @ x) = skip_ws s @ x"
  by (induction s) (auto simp: skip_ws_def)

lemma skip_ws_stop:
  assumes "skip_ws r = c # t" "c = CHR '','' \<or> c = CHR '']'' \<or> c = CHR ''}''"
  shows "r \<noteq> []" "num_stop r"
proof -
  show ne: "r \<noteq> []" using assms(1) by (auto simp: skip_ws_def)
  have ws: "num_stop (a # t)" if "is_ws a" for a t
    using that by (auto simp: is_ws_def num_stop_def is_digit_def code_def)
  show "num_stop r"
  proof (cases "is_ws (hd r)")
    case True
    then show ?thesis using ws ne by (cases r) auto
  next
    case False
    then have "r = c # t" using assms(1) ne by (cases r) (auto simp: skip_ws_def)
    then show ?thesis using assms(2) by auto
  qed
qed

lemma tree_literal_extend:
  assumes "tree_literal s = Some (v, r)" "num_stop r" "r \<noteq> []"
  shows "tree_literal (s @ x) = Some (v, r @ x)"
proof -
  have whole: "\<exists>q. s = p @ q" if "has_prefix s p" for p
    using that by (metis append_take_drop_id has_prefix_def)
  consider q where "s = ''null'' @ q" | q where "s = ''true'' @ q" | q where "s = ''false'' @ q"
    | n where "scan_number s = Some (n, r)" "v = JNum n"
    using assms(1) whole [of "''null''"] whole [of "''true''"] whole [of "''false''"]
    unfolding tree_literal_def by (auto split: if_splits)
  then show ?thesis
  proof cases
    case (4 n)
    note out = scan_number_out [OF 4(1)]
    obtain c t where n: "n = c # t" "is_digit c \<or> c = CHR ''-''" using out(3,4) by (cases n) auto
    have "scan_number (n @ r @ x) = Some (n, r @ x)"
      using assms(2,3) by (intro out(2)) (auto simp: num_stop_def)
    then show ?thesis using out(1) n 4(2) by (auto simp: tree_literal_def has_prefix_def is_digit_def code_def)
  qed (use assms(1) in \<open>auto simp: tree_literal_def has_prefix_def\<close>)
qed

lemma tree_extend:
  "tree_value d s = Some (v, r) \<Longrightarrow> num_stop r \<and> r \<noteq> [] \<or> (\<exists>ms. v = JObj ms) \<Longrightarrow> tree_value d (s @ x) = Some (v, r @ x)"
  "tree_elems d acc s = Some (vs, r') \<Longrightarrow> tree_elems d acc (s @ x) = Some (vs, r' @ x)"
  "tree_members d m s = Some (ms, r'') \<Longrightarrow> tree_members d m (s @ x) = Some (ms, r'' @ x)"
proof (induction d s and d acc s and d m s arbitrary: v r and vs r' and ms r''
    rule: tree_value_tree_elems_tree_members.induct)
  case (1 d s)
  obtain c t where ct: "skip_ws s = c # t"
    using "1.prems"(1) by (auto simp: tree_value.simps [of d s] split: list.splits)
  then have ext: "skip_ws (s @ x) = c # t @ x" using skip_ws_extend [of s x] by simp
  have inner: "skip_ws (t @ x) = e # u @ x" if "skip_ws t = e # u" for e u using that skip_ws_extend [of t x] by simp
  consider "c = dquote" | "c = CHR ''{''" | "c = CHR ''[''" | "c \<noteq> dquote" "c \<noteq> CHR ''{''" "c \<noteq> CHR ''[''"
    by blast
  then show ?case
  proof cases
    case 1
    then show ?thesis
      using "1.prems"(1) ct ext parse_str_extend [of t _ _ x] parse_str_length [of t]
      by (fastforce simp: tree_value.simps [of d s] tree_value.simps [of d "s @ x"] tree_str_def)
  next
    case 2
    then show ?thesis
      using "1.prems"(1) ct ext inner "1.IH"(1) [OF ct _ 2]
      by (auto simp: tree_value.simps [of d s] tree_value.simps [of d "s @ x"] dquote_def split: if_splits list.splits)
  next
    case 3
    then show ?thesis
      using "1.prems"(1) ct ext inner "1.IH"(2) [OF ct _ _ 3]
      by (auto simp: tree_value.simps [of d s] tree_value.simps [of d "s @ x"] dquote_def split: if_splits list.splits)
  next
    case 4
    then have lit: "tree_literal (c # t) = Some (v, r)" using "1.prems"(1) ct by (simp add: tree_value.simps [of d s])
    then have "\<not> (\<exists>ms. v = JObj ms)" by (auto simp: tree_literal_def split: if_splits)
    then have "tree_literal (c # t @ x) = Some (v, r @ x)" using tree_literal_extend [OF lit, of x] "1.prems"(2) by simp
    then show ?thesis using 4 ext by (simp add: tree_value.simps [of d "s @ x"])
  qed
next
  case (2 d acc s)
  from "2.prems"(1) obtain w q c t where w: "tree_value d s = Some (w, q)" "skip_ws q = c # t"
    and c: "c = CHR '']'' \<or> c = CHR '','' \<and> length t < length s"
    by (auto simp: tree_elems.simps [of d acc s] split: option.splits list.splits if_splits)
  have val: "tree_value d (s @ x) = Some (w, q @ x)"
    using "2.IH"(1) [OF w(1)] skip_ws_stop [OF w(2)] c by auto
  have ext: "skip_ws (q @ x) = c # t @ x" using w(2) skip_ws_extend [of q x] by simp
  show ?case
  proof (cases "c = CHR '']''")
    case True
    then show ?thesis using "2.prems"(1) w val ext by (simp add: tree_elems.simps [of d acc s] tree_elems.simps [of d acc "s @ x"])
  next
    case False
    then show ?thesis
      using "2.prems"(1) w val ext c "2.IH"(2) [OF w(1) refl w(2) False]
      by (simp add: tree_elems.simps [of d acc s] tree_elems.simps [of d acc "s @ x"])
  qed
next
  case (3 d m s)
  from "3.prems"(1) obtain t k q u w y f z where
    s: "skip_ws s = dquote # t" and k: "parse_str t = Some (k, q)" and q: "skip_ws q = CHR '':'' # u"
    and w: "tree_value d u = Some (w, y)" and y: "skip_ws y = f # z" and f: "f = CHR ''}'' \<or> f = CHR '','' \<and> length z < length s"
    by (auto simp: tree_members.simps [of d m s] split: option.splits list.splits if_splits)
  have ext: "skip_ws (s @ x) = dquote # t @ x" "parse_str (t @ x) = Some (k, q @ x)" "skip_ws (q @ x) = CHR '':'' # u @ x"
    "skip_ws (y @ x) = f # z @ x"
    using s k q y parse_str_extend [OF k] skip_ws_extend [of s x] skip_ws_extend [of q x] skip_ws_extend [of y x] by simp_all
  have val: "tree_value d (u @ x) = Some (w, y @ x)"
    using "3.IH"(1) [OF s _ k refl q _ w] skip_ws_stop [OF y] f by auto
  show ?case
  proof (cases "f = CHR ''}''")
    case True
    then show ?thesis
      using "3.prems"(1) s k q w y ext val by (simp add: tree_members.simps [of d m s] tree_members.simps [of d m "s @ x"])
  next
    case False
    then have "tree_members d (m @ [(k, w)]) z = Some (ms, r'')"
      using "3.prems"(1) s k q w y f by (simp add: tree_members.simps [of d m s])
    then have "tree_members d (m @ [(k, w)]) (z @ x) = Some (ms, r'' @ x)"
      using "3.IH"(2) [OF s _ k refl q _ w refl y False] f False by simp
    then show ?thesis using False f ext val by (simp add: tree_members.simps [of d m "s @ x"])
  qed
qed

lemma tree_object_head:
  assumes "tree_value d s = Some (v, r)"
  shows "(\<exists>ms. v = JObj ms) \<longleftrightarrow> hd (skip_ws s) = CHR ''{''" "skip_ws s \<noteq> []"
  using assms by (auto simp: tree_value.simps [of d s] tree_literal_def dquote_def split: list.splits if_splits)

theorem cut_object_unreadable:
  assumes "tree_value 0 body = Some (JObj ms, [])" "decode_tree (take n body) = Some t"
  shows "t = JObj ms" "take n body = body"
proof -
  obtain r where r: "tree_value 0 (take n body) = Some (t, r)" using assms(2) by (auto simp: decode_tree_def)
  have "skip_ws (take n body @ drop n body) = skip_ws (take n body) @ drop n body"
    by (rule skip_ws_extend [OF tree_object_head(2) [OF r]])
  then have "hd (skip_ws (take n body)) = hd (skip_ws body)"
    using tree_object_head(2) [OF r] by simp
  then have "\<exists>ms. t = JObj ms" using tree_object_head(1) [OF assms(1)] tree_object_head(1) [OF r] by auto
  then have "tree_value 0 (take n body @ drop n body) = Some (t, r @ drop n body)" using tree_extend(1) [OF r] by blast
  then have "t = JObj ms" "drop n body = []" using assms(1) by simp_all
  then show "t = JObj ms" "take n body = body" by simp_all
qed

subsection \<open>Objects of texts\<close>

text \<open>The members of an object that are texts or truth values, and how they read back: sorted, and well-formed.\<close>

definition text_value :: "goval \<Rightarrow> bool" where
  "text_value v = (case v of GString s \<Rightarrow> True | GBool b \<Rightarrow> True | _ \<Rightarrow> False)"

definition text_members :: "goval gomap \<Rightarrow> bool" where
  "text_members m \<longleftrightarrow> distinct (keys m) \<and> list_all (\<lambda>kv. utf8_valid (fst kv) \<and> text_value (snd kv)) m"

definition coerce_text :: "goval \<Rightarrow> goval" where
  "coerce_text v = (case v of GString s \<Rightarrow> GString (utf8_coerce s) | _ \<Rightarrow> v)"

definition posted :: "goval gomap \<Rightarrow> goval gomap" where
  "posted m = map (\<lambda>kv. (fst kv, coerce_text (snd kv))) (sort_key fst m)"

lemma put_members_append: "distinct (keys m @ keys kvs) \<Longrightarrow> put_members kvs m = m @ kvs"
proof (induction kvs arbitrary: m)
  case (Cons kv kvs)
  have "map_put (fst kv) (snd kv) m = m @ [kv]" using Cons.prems by (simp add: map_put_new keys_def)
  then show ?case using Cons.IH [of "m @ [kv]"] Cons.prems by (simp add: put_members_def keys_def)
qed (simp add: put_members_def)

lemma text_tree:
  assumes "text_value v"
  shows "any_value (tree_of v) = coerce_text v" "erase (tree_of v) = coerce_text v" "numbers_fit (tree_of v)"
    "fits k v" "\<not> isl (marshal v)" "text_value (coerce_text v)" "coerce_text (coerce_text v) = coerce_text v"
  using assms by (auto simp: text_value_def coerce_text_def utf8_coerce_id split: goval.splits)

lemma text_members_tree:
  assumes "text_members m"
  shows "tree_of (GMap m) = JObj (map (\<lambda>kv. (fst kv, tree_of (snd kv))) (sort_key fst m))"
    "put_members (map (\<lambda>kt. (fst kt, any_value (snd kt))) (map (\<lambda>kv. (fst kv, tree_of (snd kv))) (sort_key fst m))) [] = posted m"
    "erase (tree_of (GMap m)) = GMap (posted m)" "numbers_fit (tree_of (GMap m))"
    "0 < k \<Longrightarrow> fits k (GMap m)" "\<not> isl (marshal (GMap m))" "text_members (posted m)" "posted (posted m) = posted m"
proof -
  let ?s = "sort_key fst m"
  have s: "kv \<in> set ?s \<Longrightarrow> utf8_valid (fst kv) \<and> text_value (snd kv)" for kv
    using assms by (auto simp: text_members_def list_all_iff)
  have keys: "keys (map (\<lambda>kv. (fst kv, f (snd kv))) ?s) = keys ?s" for f :: "goval \<Rightarrow> 'a" by (simp add: keys_def)
  have d: "distinct (keys ?s)" using assms by (simp add: text_members_def keys_def map_fst_sort_key)
  show tree: "tree_of (GMap m) = JObj (map (\<lambda>kv. (fst kv, tree_of (snd kv))) ?s)"
    unfolding tree_of_map using s by (auto simp: utf8_coerce_id)
  have any: "map (\<lambda>kt. (fst kt, any_value (snd kt))) (map (\<lambda>kv. (fst kv, tree_of (snd kv))) ?s) = posted m"
    "map (\<lambda>kt. (fst kt, erase (snd kt))) (map (\<lambda>kv. (fst kv, tree_of (snd kv))) ?s) = posted m"
    using s text_tree(1,2) by (auto simp: posted_def)
  have dp: "distinct (keys [] @ keys (posted m))" using d unfolding posted_def keys by (simp add: keys_def)
  show "put_members (map (\<lambda>kt. (fst kt, any_value (snd kt))) (map (\<lambda>kv. (fst kv, tree_of (snd kv))) ?s)) [] = posted m"
    unfolding any using put_members_append [OF dp] by simp
  show "erase (tree_of (GMap m)) = GMap (posted m)"
    unfolding tree erase.simps any using put_members_append [OF dp] by simp
  show "numbers_fit (tree_of (GMap m))" unfolding tree using s text_tree(3) by (auto simp: list_all_iff)
  show "fits k (GMap m)" if "0 < k" using that s text_tree(4) by (auto simp: list_all_iff)
  show "\<not> isl (marshal (GMap m))" using s text_tree(5) by (intro marshal_object) auto
  show "text_members (posted m)" unfolding text_members_def using dp s text_tree(6) by (auto simp: posted_def list_all_iff)
  have "sorted (map fst (posted m))" by (simp add: posted_def o_def)
  then have "sort_key fst (posted m) = posted m" by (rule sort_key_id_if_sorted)
  then show "posted (posted m) = posted m"
    unfolding posted_def [of "posted m"] using s text_tree(7) by (auto simp: posted_def)
qed

end
