(* ===== verification/Patterns.thy ===== *)
theory Patterns
  imports Rules_Engine Decode_Facts
begin

text \<open>
  \<^verbatim>\<open>engine/internal/rules/patterns.go\<close>: the signature rules. A compiled regular expression is
  represented by its \<^verbatim>\<open>FindStringIndex\<close>, a function from the text to the bounds of the leftmost
  match; the compiler and the reading of the file are arguments. Shown: a loaded set has no signature without a compiled expression; the rule blocks
  exactly when a signature matches a scanned field, whatever the order in which the header map is
  visited; the quoted excerpt is bounded, never out of range and free of control characters.
\<close>

subsection \<open>Signatures\<close>

type_synonym regexp = "string \<Rightarrow> (nat \<times> nat) option"

record Signature =
  SigID :: string
  Pattern :: string
  Description :: string
  re :: "regexp option"

record SignatureSet =
  SQLi :: "Signature list"
  XSS :: "Signature list"

datatype signature_error =
    ReadFailed string
  | ParseFailed string
  | NoID nat string
  | BadPattern string string
  | NoPatterns string

text \<open>The loop of \<^verbatim>\<open>compileAll\<close> from index \<open>i\<close> on; the signatures are compiled in place.\<close>

fun compile_from :: "(string \<Rightarrow> regexp option) \<Rightarrow> string \<Rightarrow> nat \<Rightarrow> Signature list
    \<Rightarrow> signature_error + Signature list" where
  "compile_from rx source i [] = Inr []"
| "compile_from rx source i (s # sigs) =
     (if SigID s = [] then Inl (NoID i source)
      else case rx (Pattern s) of
        None \<Rightarrow> Inl (BadPattern (SigID s) source)
      | Some r \<Rightarrow>
         (case compile_from rx source (i + 1) sigs of Inl e \<Rightarrow> Inl e
          | Inr out \<Rightarrow> Inr (s\<lparr>re := Some r\<rparr> # out)))"

definition compileAll :: "(string \<Rightarrow> regexp option) \<Rightarrow> Signature list \<Rightarrow> string
    \<Rightarrow> signature_error + Signature list" where
  "compileAll rx signatures source = compile_from rx source 0 signatures"

text \<open>
  The signature file into the struct. A slice is stored over what it held before, should its name be repeated;
  the compiled expression is not a field of the file.
\<close>

definition signature_fields :: "(string \<times> Signature setter) list" where
  "signature_fields = [(''id'', set_string (\<lambda>v. SigID_update (\<lambda>_. v))),
     (''pattern'', set_string (\<lambda>v. Pattern_update (\<lambda>_. v))),
     (''description'', set_string (\<lambda>v. Description_update (\<lambda>_. v)))]"

definition no_signature :: Signature where
  "no_signature = \<lparr>SigID = [], Pattern = [], Description = [], re = None\<rparr>"

type_synonym raw_set = "(Signature list \<times> nat) \<times> (Signature list \<times> nat)"

definition set_fields :: "(string \<times> raw_set setter) list" where
  "set_fields =
     [(''sqli'', set_slice (set_struct False signature_fields) no_signature fst (\<lambda>v r. (v, snd r))),
      (''xss'', set_slice (set_struct False signature_fields) no_signature snd (\<lambda>v r. (fst r, v)))]"

definition unmarshal_signatures :: "bytes \<Rightarrow> SignatureSet option" where
  "unmarshal_signatures raw =
     (case unmarshal_tree raw of None \<Rightarrow> None
      | Some t \<Rightarrow> map_option (\<lambda>r. \<lparr>SQLi = slice_of (fst r), XSS = slice_of (snd r)\<rparr>)
          (set_struct False set_fields t (([], 0), ([], 0))))"

text \<open>The file system is the function \<open>readFile\<close>.\<close>

definition LoadSignatures :: "(string \<Rightarrow> regexp option) \<Rightarrow> (string \<Rightarrow> bytes option)
    \<Rightarrow> bytes \<Rightarrow> string \<Rightarrow> signature_error + SignatureSet" where
  "LoadSignatures rx readFile defaultPatterns path =
     (case (if path \<noteq> [] then map_option (\<lambda>c. (c, path)) (readFile path)
            else Some (defaultPatterns, ''embedded'')) of
        None \<Rightarrow> Inl (ReadFailed path)
      | Some (raw, source) \<Rightarrow>
         (case unmarshal_signatures raw of None \<Rightarrow> Inl (ParseFailed source)
          | Some decoded \<Rightarrow>
             (case compileAll rx (SQLi decoded) source of Inl e \<Rightarrow> Inl e
              | Inr sqli \<Rightarrow>
                 (case compileAll rx (XSS decoded) source of Inl e \<Rightarrow> Inl e
                  | Inr xss \<Rightarrow>
                      if sqli = [] \<and> xss = [] then Inl (NoPatterns source)
                      else Inr \<lparr>SQLi = sqli, XSS = xss\<rparr>))))"

subsection \<open>What is scanned\<close>

text \<open>\<^verbatim>\<open>url.QueryUnescape\<close>: percent-decoding with plus for a space, an error on a malformed escape.\<close>

fun QueryUnescape :: "string \<Rightarrow> string option" where
  "QueryUnescape [] = Some []"
| "QueryUnescape (c # s) =
     (if c = CHR ''%'' then
        (case s of a # b # t \<Rightarrow>
           (case (hex_val a, hex_val b) of
              (Some h, Some l) \<Rightarrow> map_option (\<lambda>u. byte (h * 16 + l) # u) (QueryUnescape t)
            | _ \<Rightarrow> None)
         | _ \<Rightarrow> None)
      else map_option (\<lambda>u. (if c = CHR ''+'' then CHR '' '' else c) # u) (QueryUnescape s))"

definition rules_truncate :: "string \<Rightarrow> int \<Rightarrow> string" where
  "rules_truncate s mx = (if mx > 0 \<and> int (length s) > mx then take (nat mx) s else s)"

definition skipped_headers :: "string list" where
  "skipped_headers = [''host'', ''accept'', ''accept-encoding'', ''accept-language'', ''connection'',
     ''content-length'', ''content-type'', ''upgrade-insecure-requests'',
     ''x-request-id'', ''x-forwarded-for'', ''x-real-ip'']"

definition skipHeader :: "(nat \<Rightarrow> nat) \<Rightarrow> string \<Rightarrow> bool" where
  "skipHeader lower name \<longleftrightarrow> to_lower lower name \<in> set skipped_headers"

record scanField =
  fname :: string
  fvalue :: string

text \<open>The closure \<^verbatim>\<open>add\<close> of \<^verbatim>\<open>scanTargets\<close>.\<close>

definition scan_add :: "int \<Rightarrow> string \<Rightarrow> string \<Rightarrow> scanField list \<Rightarrow> scanField list" where
  "scan_add maxScan name val fs =
     (if val = [] then fs
      else let v = rules_truncate val maxScan;
               fs = fs @ [\<lparr>fname = name, fvalue = v\<rparr>]
           in case QueryUnescape v of
                Some decoded \<Rightarrow>
                  if decoded \<noteq> v then fs @ [\<lparr>fname = name @ '' (decoded)'', fvalue = decoded\<rparr>] else fs
              | None \<Rightarrow> fs)"

definition scanTargets :: "(nat \<Rightarrow> nat) \<Rightarrow> RequestContext \<Rightarrow> int \<Rightarrow> scanField list" where
  "scanTargets lower req maxScan =
     (let fs = scan_add maxScan ''path'' (Path req) [];
          fs = scan_add maxScan ''query'' (Query req) fs;
          fs = scan_add maxScan ''body'' (Body req) fs
      in foldl (\<lambda>fs (name, val).
             if skipHeader lower name then fs else scan_add maxScan (''header '' @ name) val fs)
           fs (Headers req))"

subsection \<open>The excerpt\<close>

definition ellipsis :: string where
  "ellipsis = encode_rune 0x2026"

definition clean_rune :: "nat \<Rightarrow> nat" where
  "clean_rune r = (if r < 0x20 \<or> r = 0x7F then 0x20 else r)"

text \<open>\<^const>\<open>None\<close> is the panic of a slice expression out of range.\<close>

definition excerpt_bounds :: "string \<Rightarrow> nat \<times> nat \<Rightarrow> int \<times> int" where
  "excerpt_bounds val loc =
     (let start = int (fst loc) - 10;
          start = (if start < 0 then 0 else start);
          fin = int (snd loc) + 10;
          fin = (if fin > int (length val) then int (length val) else fin);
          fin = (if fin - start > 60 then start + 60 else fin)
      in (start, fin))"

definition excerpt :: "string \<Rightarrow> nat \<times> nat \<Rightarrow> string option" where
  "excerpt val loc =
     (let (start, fin) = excerpt_bounds val loc in
      case go_slice val (nat start) (nat fin) of None \<Rightarrow> None
      | Some window \<Rightarrow>
         (let out = strings_map clean_rune (trim_space window) in
          Some (if fin < int (length val) \<or> start > 0 then ellipsis @ out @ ellipsis else out)))"

subsection \<open>The rule\<close>

record PatternRule =
  pname :: string
  signatures :: "Signature list"
  maxScan :: int

definition NewPatternRule :: "string \<Rightarrow> Signature list \<Rightarrow> int \<Rightarrow> PatternRule" where
  "NewPatternRule name sigs mx =
     \<lparr>pname = name, signatures = sigs, maxScan = (if mx \<le> 0 then 8192 else mx)\<rparr>"

text \<open>The inner loop: the first signature that matches a field, and where.\<close>

fun first_match :: "Signature list \<Rightarrow> string \<Rightarrow> (Signature \<times> (nat \<times> nat)) option" where
  "first_match [] val = None"
| "first_match (s # sigs) val =
     (case re s of None \<Rightarrow> first_match sigs val
      | Some r \<Rightarrow> (case r val of Some loc \<Rightarrow> Some (s, loc) | None \<Rightarrow> first_match sigs val))"

fun first_field :: "Signature list \<Rightarrow> scanField list \<Rightarrow> (scanField \<times> Signature \<times> (nat \<times> nat)) option" where
  "first_field sigs [] = None"
| "first_field sigs (f # fs) =
     (case first_match sigs (fvalue f) of Some (s, loc) \<Rightarrow> Some (f, s, loc)
      | None \<Rightarrow> first_field sigs fs)"

definition match_reason :: "(nat \<Rightarrow> bool) \<Rightarrow> PatternRule \<Rightarrow> Signature \<Rightarrow> scanField \<Rightarrow> string \<Rightarrow> string" where
  "match_reason printable r s f text =
     pname r @ '' signature '' @ go_quote printable (SigID s) @ '' matched in '' @ fname f @ '': '' @ text"

text \<open>
  The rule keeps no state, and \<^const>\<open>None\<close> is a panic. \<open>lower\<close> and \<open>printable\<close> are the Unicode
  tables behind \<^verbatim>\<open>strings.ToLower\<close> and \<^verbatim>\<open>%q\<close>.
\<close>

definition pattern_Evaluate :: "(nat \<Rightarrow> nat) \<Rightarrow> (nat \<Rightarrow> bool) \<Rightarrow> PatternRule \<Rightarrow> RequestContext
    \<Rightarrow> (Verdict \<times> string) option" where
  "pattern_Evaluate lower printable r req =
     (case first_field (signatures r) (scanTargets lower req (maxScan r)) of
        None \<Rightarrow> Some (Allow, [])
      | Some (f, s, loc) \<Rightarrow>
         (case excerpt (fvalue f) loc of None \<Rightarrow> None
          | Some text \<Rightarrow> Some (Block, match_reason printable r s f text)))"

subsection \<open>Loading\<close>

definition usable :: "(string \<Rightarrow> regexp option) \<Rightarrow> Signature \<Rightarrow> bool" where
  "usable rx s \<longleftrightarrow> SigID s \<noteq> [] \<and> re s \<noteq> None \<and> re s = rx (Pattern s)"

lemma compile_from_ok:
  "compile_from rx source i sigs = Inr out \<Longrightarrow>
     list_all (usable rx) out \<and> map (\<lambda>s. s\<lparr>re := None\<rparr>) out = map (\<lambda>s. s\<lparr>re := None\<rparr>) sigs"
  by (induction sigs arbitrary: i out) (auto simp: usable_def split: if_splits option.splits sum.splits)

lemma compile_from_total:
  "compile_from rx source i sigs = Inl e \<Longrightarrow> \<exists>s \<in> set sigs. SigID s = [] \<or> rx (Pattern s) = None"
  by (induction sigs arbitrary: i) (auto split: if_splits option.splits sum.splits)

subsection \<open>The scanned texts\<close>

text \<open>The forms in which one value is scanned: cut to the limit, and decoded when that is possible.\<close>

definition forms :: "int \<Rightarrow> string \<Rightarrow> string set" where
  "forms mx v = (if v = [] then {} else insert (rules_truncate v mx) (set_option (QueryUnescape (rules_truncate v mx))))"

definition scanned_texts :: "(nat \<Rightarrow> nat) \<Rightarrow> RequestContext \<Rightarrow> int \<Rightarrow> string set" where
  "scanned_texts lower req mx =
     forms mx (Path req) \<union> forms mx (Query req) \<union> forms mx (Body req)
     \<union> (\<Union>(n, v) \<in> {h \<in> set (Headers req). \<not> skipHeader lower (fst h)}. forms mx v)"

lemma scan_add_values: "fvalue ` set (scan_add mx n v fs) = fvalue ` set fs \<union> forms mx v"
  by (auto simp: scan_add_def forms_def Let_def split: option.splits)

lemma scan_headers_values:
  "fvalue ` set (foldl (\<lambda>fs (name, val). if skipHeader lower name then fs else scan_add mx (''header '' @ name) val fs) fs hs)
     = fvalue ` set fs \<union> (\<Union>(n, v) \<in> {h \<in> set hs. \<not> skipHeader lower (fst h)}. forms mx v)"
proof (induction hs arbitrary: fs)
  case (Cons h hs)
  then show ?case by (cases h) (auto simp: scan_add_values)
qed simp

lemma scanTargets_values: "fvalue ` set (scanTargets lower req mx) = scanned_texts lower req mx"
  by (simp add: scanTargets_def Let_def scan_headers_values scan_add_values scanned_texts_def)

subsection \<open>Matching\<close>

definition matches :: "Signature list \<Rightarrow> string \<Rightarrow> bool" where
  "matches sigs val \<longleftrightarrow> (\<exists>s \<in> set sigs. case re s of None \<Rightarrow> False | Some r \<Rightarrow> r val \<noteq> None)"

text \<open>What the documentation of \<^verbatim>\<open>FindStringIndex\<close> promises of the bounds it returns.\<close>

definition in_bounds :: "regexp \<Rightarrow> bool" where
  "in_bounds r \<longleftrightarrow> (\<forall>val i j. r val = Some (i, j) \<longrightarrow> i \<le> j \<and> j \<le> length val)"

definition sound_signatures :: "Signature list \<Rightarrow> bool" where
  "sound_signatures sigs \<longleftrightarrow> (\<forall>s \<in> set sigs. \<forall>r. re s = Some r \<longrightarrow> in_bounds r)"

lemma matches_iff: "matches sigs val \<longleftrightarrow> first_match sigs val \<noteq> None"
  by (induction sigs) (auto simp: matches_def split: option.splits)

lemma first_match_Some:
  "first_match sigs val = Some (s, loc) \<Longrightarrow> s \<in> set sigs \<and> (\<exists>r. re s = Some r \<and> r val = Some loc)"
  by (induction sigs) (auto split: option.splits)

lemma first_field_None: "first_field sigs fs = None \<longleftrightarrow> \<not> (\<exists>f \<in> set fs. matches sigs (fvalue f))"
  by (induction fs) (auto simp: matches_iff split: option.splits)

lemma first_field_Some:
  "first_field sigs fs = Some (f, s, loc) \<Longrightarrow>
     f \<in> set fs \<and> s \<in> set sigs \<and> (\<exists>r. re s = Some r \<and> r (fvalue f) = Some loc)"
  by (induction fs) (auto split: option.splits dest: first_match_Some)

subsection \<open>Excerpts\<close>

lemma excerpt_bounds_ok:
  assumes "i \<le> j" "j \<le> length val" "excerpt_bounds val (i, j) = (start, fin)"
  shows "0 \<le> start" "start \<le> fin" "fin \<le> int (length val)" "fin - start \<le> 60"
  using assms by (auto simp: excerpt_bounds_def Let_def split: if_splits)

lemma encode_rune_length: "length (encode_rune r) \<le> 4" "r < 0x80 \<Longrightarrow> length (encode_rune r) = 1"
  "length (encode_rune rune_error) = 3"
  by (simp_all add: encode_rune_def Let_def rune_error_def valid_rune_def)

lemma encode_rune_printable:
  assumes "0x20 \<le> r" "r \<noteq> 0x7F" "c \<in> set (encode_rune r)"
  shows "0x20 \<le> code c \<and> code c \<noteq> 0x7F"
proof -
  have "code (byte (n mod 256)) = n mod 256" for n by (simp add: code_byte)
  then show ?thesis
    using assms by (auto simp: encode_rune_def Let_def code_byte valid_rune_def rune_error_def split: if_splits)
qed

lemma chunk_length:
  assumes "rc \<in> set (utf8_chunks s)"
  shows "length (encode_rune (clean_rune (fst rc))) \<le> 3 * length (snd rc)"
proof (cases "chunk_ok rc")
  case True
  then have "snd rc = encode_rune (fst rc)" using utf8_chunks_cases [of "fst rc" "snd rc" s] assms by simp
  then show ?thesis
    by (cases "clean_rune (fst rc) = fst rc") (auto simp: clean_rune_def encode_rune_length split: if_splits)
next
  case False
  then show ?thesis
    using encode_rune_length(3) by (simp add: chunk_ok_def clean_rune_def rune_error_def)
qed

lemma strings_map_length: "length (strings_map clean_rune s) \<le> 3 * length s"
proof -
  have "(\<Sum>rc \<leftarrow> cs. length (encode_rune (clean_rune (fst rc)))) \<le> 3 * (\<Sum>rc \<leftarrow> cs. length (snd rc))"
    if "set cs \<subseteq> set (utf8_chunks s)" for cs
    using that by (induction cs) (use chunk_length in force)+
  from this [of "utf8_chunks s"] have
    "length (strings_map clean_rune s) \<le> 3 * length (concat (map snd (utf8_chunks s)))"
    by (simp add: strings_map_def length_concat comp_def)
  then show ?thesis by (simp add: concat_chunks)
qed

lemma strings_map_printable: "c \<in> set (strings_map clean_rune s) \<Longrightarrow> 0x20 \<le> code c \<and> code c \<noteq> 0x7F"
  unfolding strings_map_def set_concat
  by (auto simp: clean_rune_def split: if_splits dest!: encode_rune_printable [rotated 2])

lemma trim_space_length: "length (trim_space s) \<le> length s"
proof -
  have drop: "length (concat (map snd (dropWhile P cs))) \<le> length (concat (map snd cs))"
    for P and cs :: "(nat \<times> string) list"
    by (induction cs) auto
  have rv: "length (concat (map snd (rev cs))) = length (concat (map snd cs))" for cs :: "(nat \<times> string) list"
    by (simp add: length_concat rev_map [symmetric] sum_list_rev comp_def)
  let ?sp = "\<lambda>rc :: nat \<times> string. is_space_rune (fst rc)"
  have "length (trim_space s) \<le> length (concat (map snd (dropWhile ?sp (utf8_chunks s))))"
    unfolding trim_space_def Let_def rv using drop rv by metis
  also have "\<dots> \<le> length s" using drop [of ?sp "utf8_chunks s"] by (simp add: concat_chunks)
  finally show ?thesis .
qed

lemma excerpt_ok:
  assumes "i \<le> j" "j \<le> length val"
  shows "\<exists>t. excerpt val (i, j) = Some t \<and> length t \<le> 186 \<and> (\<forall>c \<in> set t. 0x20 \<le> code c \<and> code c \<noteq> 0x7F)"
proof -
  obtain start fin where b: "excerpt_bounds val (i, j) = (start, fin)" by fastforce
  note ok = excerpt_bounds_ok [OF assms b]
  define w where "w = take (nat fin - nat start) (drop (nat start) val)"
  have slice: "go_slice val (nat start) (nat fin) = Some w"
    unfolding w_def by (rule go_slice_Some) (use ok in auto)
  have "length w \<le> 60" using go_slice_length [OF slice] ok by linarith
  then have "length (strings_map clean_rune (trim_space w)) \<le> 180"
    using strings_map_length [of "trim_space w"] trim_space_length [of w] by linarith
  moreover have "length ellipsis = 3" by (simp add: ellipsis_def encode_rune_def Let_def valid_rune_def)
  moreover have "\<forall>c \<in> set ellipsis. 0x20 \<le> code c \<and> code c \<noteq> 0x7F"
  proof -
    have "0x20 \<le> (0x2026 :: nat)" "(0x2026 :: nat) \<noteq> 0x7F" by simp_all
    from encode_rune_printable [OF this] show ?thesis unfolding ellipsis_def by blast
  qed
  ultimately show ?thesis
    using strings_map_printable [of _ "trim_space w"] by (auto simp: excerpt_def b slice Let_def)
qed

subsection \<open>The rule in the chain\<close>

text \<open>The value of a panic is left open; the contract below shows there is none.\<close>

definition pattern_rule :: "(nat \<Rightarrow> nat) \<Rightarrow> (nat \<Rightarrow> bool) \<Rightarrow> PatternRule \<Rightarrow> 's Rule" where
  "pattern_rule lower printable r =
     \<lparr>Name = pname r, Evaluate = (\<lambda>req s. (the (pattern_Evaluate lower printable r req), s)), BlockStatus = None\<rparr>"

lemma pattern_Evaluate_cases:
  assumes "sound_signatures (signatures r)"
  shows "if \<exists>t \<in> scanned_texts lower req (maxScan r). matches (signatures r) t
    then \<exists>f s loc text. pattern_Evaluate lower printable r req
        = Some (Block, match_reason printable r s f text)
      \<and> f \<in> set (scanTargets lower req (maxScan r)) \<and> s \<in> set (signatures r)
      \<and> (\<exists>x. re s = Some x \<and> x (fvalue f) = Some loc) \<and> excerpt (fvalue f) loc = Some text
    else pattern_Evaluate lower printable r req = Some (Allow, [])"
proof (cases "first_field (signatures r) (scanTargets lower req (maxScan r))")
  case None
  then have "\<not> (\<exists>t \<in> scanned_texts lower req (maxScan r). matches (signatures r) t)"
    unfolding first_field_None scanTargets_values [symmetric] by blast
  then show ?thesis using None by (simp add: pattern_Evaluate_def)
next
  case (Some hit)
  obtain f s i j where hit: "hit = (f, s, (i, j))" by (metis surj_pair)
  note m = first_field_Some [OF Some [unfolded hit]]
  then have "i \<le> j \<and> j \<le> length (fvalue f)"
    using assms by (auto simp: sound_signatures_def in_bounds_def)
  then obtain t where t: "excerpt (fvalue f) (i, j) = Some t" using excerpt_ok by blast
  have "\<exists>t \<in> scanned_texts lower req (maxScan r). matches (signatures r) t"
    using Some first_field_None [of "signatures r" "scanTargets lower req (maxScan r)"]
      scanTargets_values [of lower req "maxScan r"] by auto
  moreover have "pattern_Evaluate lower printable r req = Some (Block, match_reason printable r s f t)"
    using Some hit t by (simp add: pattern_Evaluate_def)
  ultimately show ?thesis using m t by (simp only: if_True) blast
qed

lemma pattern_rule_contract:
  assumes "sound_signatures (signatures r)"
  shows "rule_contract (Evaluate (pattern_rule lower printable r))"
proof -
  have "\<exists>s f t. pattern_Evaluate lower printable r req = Some (Block, match_reason printable r s f t)
      \<or> pattern_Evaluate lower printable r req = Some (Allow, [])" for req
    using pattern_Evaluate_cases [OF assms, of lower req printable] by (auto split: if_splits)
  moreover have "match_reason printable r s f t \<noteq> []" for s f t by (simp add: match_reason_def)
  ultimately show ?thesis
    by unfold_locales (simp_all add: pattern_rule_def, (metis Pair_inject Verdict.distinct(1) option.sel)+)
qed

subsection \<open>Properties\<close>

text \<open>C21: A signature rule blocks exactly what it scans for. With a regular-expression library whose match
  bounds lie within the text, evaluation never panics; it blocks if and only if some signature matches one of
  the scanned texts (path, query, body and every header not on the skip list, each cut to the limit and also
  percent-decoded), so the order in which the header map is visited never changes the verdict, and the
  reason names a field and a signature that did match there.\<close>

theorem pattern_rule_exact:
  assumes "sound_signatures (signatures r)"
  shows "if \<exists>t \<in> scanned_texts lower req (maxScan r). matches (signatures r) t
    then \<exists>f s loc text. pattern_Evaluate lower printable r req
        = Some (Block, match_reason printable r s f text)
      \<and> f \<in> set (scanTargets lower req (maxScan r)) \<and> s \<in> set (signatures r)
      \<and> (\<exists>x. re s = Some x \<and> x (fvalue f) = Some loc) \<and> excerpt (fvalue f) loc = Some text
    else pattern_Evaluate lower printable r req = Some (Allow, [])"
  using pattern_Evaluate_cases [OF assms] .

text \<open>A matcher for the literal text \<^verbatim>\<open>\<open>'or\<close>\<close> and a request that carries it percent-encoded.\<close>

fun find_literal :: "string \<Rightarrow> nat \<Rightarrow> regexp" where
  "find_literal p i [] = (if p = [] then Some (i, i) else None)"
| "find_literal p i (c # s) =
     (if has_prefix (c # s) p then Some (i, i + length p) else find_literal p (i + 1) s)"

lemma find_literal_bounds: "find_literal p k s = Some (i, j) \<Longrightarrow> k \<le> i \<and> i \<le> j \<and> j \<le> k + length s"
proof (induction s arbitrary: k)
  case (Cons c s)
  then show ?case
    by (cases "has_prefix (c # s) p") (fastforce simp: has_prefix_def dest: arg_cong [where f = length])+
qed (auto split: if_splits)

lemma find_literal_in_bounds: "in_bounds (find_literal p 0)"
  using find_literal_bounds [of p 0] by (fastforce simp: in_bounds_def)

definition quote_or :: Signature where
  "quote_or = \<lparr>SigID = ''q1'', Pattern = CHR 0x27 # ''or'', Description = [], re = Some (find_literal (CHR 0x27 # ''or'') 0)\<rparr>"

definition demo_rule :: PatternRule where
  "demo_rule = NewPatternRule ''sqli'' [quote_or] 0"

definition encoded_request :: RequestContext where
  "encoded_request = \<lparr>ReqID = ''r'', IP = ''10.0.0.1'', Method = ''GET'', Path = ''/'', Query = ''q=%27or+1'',
     Headers = [(''host'', ''h'')], Body = [], BodyTruncated = False, ReceivedAt = 0\<rparr>"

lemma demo_sound: "sound_signatures (signatures demo_rule)"
  using find_literal_in_bounds by (simp add: sound_signatures_def demo_rule_def quote_or_def NewPatternRule_def)

lemma demo_hit: "\<exists>t \<in> scanned_texts id encoded_request (maxScan demo_rule). matches (signatures demo_rule) t"
proof
  let ?t = "CHR ''q'' # CHR ''='' # CHR 0x27 # ''or 1''"
  have "QueryUnescape ''q=%27or+1'' = Some ?t" by code_simp
  then show "?t \<in> scanned_texts id encoded_request (maxScan demo_rule)"
    by (simp add: scanned_texts_def forms_def demo_rule_def encoded_request_def NewPatternRule_def
        rules_truncate_def del: QueryUnescape.simps)
  show "matches (signatures demo_rule) ?t"
    by (simp add: matches_def demo_rule_def quote_or_def NewPatternRule_def has_prefix_def)
qed

theorem pattern_rule_exact_witness:
  "sound_signatures (signatures demo_rule)
   \<and> (\<exists>reason. pattern_Evaluate id (\<lambda>_. True) demo_rule encoded_request = Some (Block, reason))"
  using pattern_rule_exact [OF demo_sound, of id encoded_request "\<lambda>_. True"] demo_hit demo_sound
  by (auto split: if_splits)

text \<open>C22: The excerpt quoted in a reason is safe to keep. For match bounds within the text the slice
  expressions do not panic, the excerpt has at most 186 bytes, whatever the size of the match, and no byte of
  it is an ASCII control character.\<close>

theorem excerpt_bounded:
  assumes "i \<le> j" "j \<le> length val"
  shows "\<exists>t. excerpt val (i, j) = Some t \<and> length t \<le> 186 \<and> (\<forall>c \<in> set t. 0x20 \<le> code c \<and> code c \<noteq> 0x7F)"
  using excerpt_ok [OF assms] .

theorem excerpt_bounded_witness:
  "\<exists>t. excerpt (CHR 0x0A # ''evil'') (0, 5) = Some t \<and> length t \<le> 186
     \<and> (\<forall>c \<in> set t. 0x20 \<le> code c \<and> code c \<noteq> 0x7F)"
  using excerpt_bounded [of 0 5 "CHR 0x0A # ''evil''"] by simp

lemma QueryUnescape_bad_end: "QueryUnescape (s @ ''%'') = None"
proof (induction s rule: QueryUnescape.induct)
  case (2 c s)
  have pct: "hex_val (CHR ''%'') = None" by code_simp
  show ?case
  proof (cases "c = CHR ''%''")
    case True
    consider "s = []" | a where "s = [a]" | a b t where "s = a # b # t" by (metis list.exhaust)
    then show ?thesis using True pct 2(1) by cases (auto split: option.splits)
  qed (use 2(2) in simp)
qed simp

text \<open>One malformed escape switches decoding off. A value that ends in a lone percent sign is scanned
  only in its raw form, so a payload that a rule blocks when percent-encoded passes once a percent sign is
  appended to it.\<close>

lemma malformed_escape_hides_payload:
  "scanTargets lower (req\<lparr>Path := [], Query := q @ ''%'', Body := [], Headers := []\<rparr>) 0
     = [\<lparr>fname = ''query'', fvalue = q @ ''%''\<rparr>]
   \<and> map_option fst (pattern_Evaluate id (\<lambda>_. True) demo_rule encoded_request) = Some Block
   \<and> pattern_Evaluate id (\<lambda>_. True) demo_rule (encoded_request\<lparr>Query := Query encoded_request @ ''%''\<rparr>)
     = Some (Allow, [])"
proof (intro conjI)
  show "scanTargets lower (req\<lparr>Path := [], Query := q @ ''%'', Body := [], Headers := []\<rparr>) 0
     = [\<lparr>fname = ''query'', fvalue = q @ ''%''\<rparr>]"
    by (simp add: scanTargets_def scan_add_def rules_truncate_def QueryUnescape_bad_end)
  show "map_option fst (pattern_Evaluate id (\<lambda>_. True) demo_rule encoded_request) = Some Block"
    using pattern_Evaluate_cases [OF demo_sound, of id encoded_request "\<lambda>_. True"] demo_hit
    by (auto split: if_splits)
  show "pattern_Evaluate id (\<lambda>_. True) demo_rule (encoded_request\<lparr>Query := Query encoded_request @ ''%''\<rparr>)
     = Some (Allow, [])"
    by code_simp
qed

text \<open>A signature set that loads is usable. Loading succeeds only when every signature has an id and a
  pattern that compiles and there is at least one; the loaded signatures are those of the file, each holding
  the compilation of its own pattern.\<close>

lemma loaded_signatures_usable:
  assumes "LoadSignatures rx readFile embedded path = Inr sigs"
  shows "\<exists>decoded raw. unmarshal_signatures raw = Some decoded \<and> (raw = embedded \<and> path = [] \<or> readFile path = Some raw \<and> path \<noteq> [])
    \<and> list_all (usable rx) (SQLi sigs @ XSS sigs) \<and> SQLi sigs @ XSS sigs \<noteq> []
    \<and> map Pattern (SQLi sigs) = map Pattern (SQLi decoded) \<and> map Pattern (XSS sigs) = map Pattern (XSS decoded)"
proof -
  have same: "map Pattern out = map Pattern ss" if "map (\<lambda>s. s\<lparr>re := None\<rparr>) out = map (\<lambda>s. s\<lparr>re := None\<rparr>) ss"
    for out ss
    using arg_cong [OF that, of "map Pattern"] by (simp add: comp_def)
  show ?thesis
    using assms
    by (auto simp: LoadSignatures_def compileAll_def split: option.splits sum.splits if_splits prod.splits
        dest!: compile_from_ok same)
qed

subsection \<open>A signature file reads as what was written\<close>

definition signature_value :: "Signature \<Rightarrow> goval" where
  "signature_value s = GMap [(''description'', GString (Description s)), (''id'', GString (SigID s)), (''pattern'', GString (Pattern s))]"

definition signatures_file :: "SignatureSet \<Rightarrow> goval" where
  "signatures_file sigs = GMap [(''sqli'', GSlice (map signature_value (SQLi sigs))), (''xss'', GSlice (map signature_value (XSS sigs)))]"

definition plain_signature :: "Signature \<Rightarrow> bool" where
  "plain_signature s \<longleftrightarrow> utf8_valid (SigID s) \<and> utf8_valid (Pattern s) \<and> utf8_valid (Description s) \<and> re s = None"

lemma read_signature:
  assumes "plain_signature s"
  shows "set_struct False signature_fields (tree_of (signature_value s)) no_signature = Some s"
proof -
  have le: "''description'' \<le> ''id''" "''id'' \<le> ''pattern''" "''description'' \<le> ''pattern''" by code_simp+
  have asc: "utf8_coerce ''description'' = ''description''" "utf8_coerce ''id'' = ''id''" "utf8_coerce ''pattern'' = ''pattern''"
    by (simp_all add: utf8_coerce_id utf8_valid_ascii ascii_def code_def)
  show ?thesis
    using assms
    by (simp add: signature_value_def tree_of_map le asc set_struct_def field_named_def signature_fields_def set_string_def
        no_signature_def plain_signature_def utf8_coerce_id del: tree_of.simps(9))
qed

lemma set_elems_fresh:
  "(\<And>x. x \<in> set xs \<Longrightarrow> st (f x) zero = Some x) \<Longrightarrow> set_elems st zero (map f xs) [] = Some xs"
  by (induction xs) auto

lemma read_slice:
  assumes "list_all plain_signature sigs" "fst (get r) = []"
  shows "set_slice (set_struct False signature_fields) no_signature get upd (tree_of (GSlice (map signature_value sigs))) r
    = Some (upd (sigs, length sigs) r)"
proof -
  have "set_elems (set_struct False signature_fields) no_signature (map (\<lambda>s. tree_of (signature_value s)) sigs) [] = Some sigs"
    using assms(1) read_signature by (intro set_elems_fresh) (auto simp: list_all_iff)
  then show ?thesis using assms(2) by (cases sigs) (auto simp: set_slice_def o_def)
qed

lemma signatures_file_reads:
  assumes "marshal (signatures_file sigs) = Inr b" "list_all plain_signature (SQLi sigs)" "list_all plain_signature (XSS sigs)"
  shows "unmarshal_signatures b = Some sigs"
proof -
  have le: "''sqli'' \<le> ''xss''" by code_simp
  have asc: "utf8_coerce ''sqli'' = ''sqli''" "utf8_coerce ''xss'' = ''xss''"
    by (simp_all add: utf8_coerce_id utf8_valid_ascii ascii_def code_def)
  have fit: "fits max_depth (signatures_file sigs)"
    by (simp add: signatures_file_def signature_value_def max_depth_def list_all_iff)
  have tree: "unmarshal_tree b = Some (tree_of (signatures_file sigs))"
    using tree_marshal [OF assms(1), of 0 "[]"] fit by (simp add: unmarshal_tree_def skip_ws_def)
  have "tree_of (signatures_file sigs) = JObj [(''sqli'', tree_of (GSlice (map signature_value (SQLi sigs)))),
      (''xss'', tree_of (GSlice (map signature_value (XSS sigs))))]"
    unfolding signatures_file_def tree_of_map by (simp add: le asc del: tree_of.simps)
  then have "set_struct False set_fields (tree_of (signatures_file sigs)) (([], 0), ([], 0))
      = Some ((SQLi sigs, length (SQLi sigs)), (XSS sigs, length (XSS sigs)))"
    using assms(2,3) by (simp add: set_struct_def field_named_def set_fields_def read_slice del: tree_of.simps)
  then show ?thesis by (simp add: unmarshal_signatures_def tree slice_of_def)
qed

lemma signatures_file_writes: "\<exists>b. marshal (signatures_file sigs) = Inr b"
proof -
  have "\<not> isl (marshal (signature_value s))" for s
    unfolding signature_value_def by (rule marshal_object) simp
  then have "\<not> isl (marshal (GSlice (map signature_value ss)))" for ss by (intro marshal_slice) simp
  then have "\<not> isl (marshal (signatures_file sigs))"
    unfolding signatures_file_def by (intro marshal_object) (simp del: marshal.simps)
  then show ?thesis by (metis sum.collapse(2))
qed

end
