(* ===== verification/Go_Http.thy ===== *)
theory Go_Http
  imports Go_Json
begin

text \<open>
  What the two HTTP servers use of \<^verbatim>\<open>net/http\<close>: a response as status, headers and the value
  encoded as its body, and the routing of \<^verbatim>\<open>http.ServeMux\<close> for patterns of a method and
  literal or wildcard path segments.
\<close>

record Response =
  rstatus :: int
  rheaders :: "string gomap"
  rbody :: goval

definition json_type :: string where
  "json_type = ''application/json; charset=utf-8''"

text \<open>The body of an error answer.\<close>

definition error_body :: "string \<Rightarrow> goval" where
  "error_body msg = GStrMap [(''error'', msg)]"

subsection \<open>Routing\<close>

text \<open>
  A pattern is a method, or the empty text for any, and segments; \<open>Wild\<close> is \<^verbatim>\<open>{name}\<close>, which takes
  one non-empty segment, \<open>Rest\<close> is \<^verbatim>\<open>{name...}\<close> or a trailing slash, which takes what is left,
  possibly an empty segment. The path is the cleaned, decoded path split at its slashes.
\<close>

datatype segment = Lit string | Wild | Rest

fun segs_match :: "segment list \<Rightarrow> string list \<Rightarrow> bool" where
  "segs_match [] [] = True"
| "segs_match [Rest] (p # ps) = True"
| "segs_match (Lit s # ss) (p # ps) = (s = p \<and> segs_match ss ps)"
| "segs_match (Wild # ss) (p # ps) = (p \<noteq> [] \<and> segs_match ss ps)"
| "segs_match _ _ = False"

definition path_segments :: "string \<Rightarrow> string list" where
  "path_segments p = tl (split_on (CHR ''/'') p)"

text \<open>A pattern for \<^verbatim>\<open>GET\<close> also serves \<^verbatim>\<open>HEAD\<close>.\<close>

definition method_match :: "string \<Rightarrow> string \<Rightarrow> bool" where
  "method_match pat m \<longleftrightarrow> pat = [] \<or> pat = m \<or> pat = ''GET'' \<and> m = ''HEAD''"

text \<open>
  The more specific of two patterns wins: a literal over a wildcard, a wildcard over a rest, and a
  pattern with a method over one without. The routes below are listed from specific to general, so the
  first that fits is the one the multiplexer picks. Without one, the answer is 405 when only the method
  is wrong, and 404 otherwise.
\<close>

text \<open>
  A path that a pattern would serve with a slash behind it is redirected there, unless a pattern without a
  trailing slash fits it as it is.
\<close>

definition slash_redirect :: "(string \<times> segment list \<times> 'r) list \<Rightarrow> string \<Rightarrow> string list \<Rightarrow> bool" where
  "slash_redirect rs m path \<longleftrightarrow> path \<noteq> [] \<and> last path \<noteq> []
     \<and> (\<exists>(pm, segs, r) \<in> set rs. method_match pm m \<and> last segs = Rest \<and> length segs = length path + 1
          \<and> segs_match segs (path @ [[]]))"

definition route :: "(string \<times> segment list \<times> 'r) list \<Rightarrow> string \<Rightarrow> string list \<Rightarrow> int + 'r" where
  "route rs m path =
     (case find (\<lambda>(pm, segs, r). method_match pm m \<and> segs_match segs path) rs of
        Some (_, segs, r) \<Rightarrow> if last segs = Rest \<and> slash_redirect rs m path then Inl 301 else Inr r
      | None \<Rightarrow> Inl (if slash_redirect rs m path then 301
                     else if \<exists>(pm, segs, r) \<in> set rs. segs_match segs path then 405 else 404))"

lemma segs_match_Nil [simp]: "segs_match [] p \<longleftrightarrow> p = []"
  by (cases p) simp_all

lemma segs_match_Rest [simp]: "segs_match [Rest] p \<longleftrightarrow> p \<noteq> []"
  by (cases p) simp_all

lemma segs_match_Lit [simp]: "segs_match (Lit s # ss) p \<longleftrightarrow> (\<exists>ps. p = s # ps \<and> segs_match ss ps)"
  by (cases p) auto

lemma segs_match_Wild [simp]: "segs_match (Wild # ss) p \<longleftrightarrow> (\<exists>q ps. p = q # ps \<and> q \<noteq> [] \<and> segs_match ss ps)"
  by (cases p) auto

lemma find_mem: "find P xs = Some x \<Longrightarrow> x \<in> set xs \<and> P x"
  by (induction xs) (auto split: if_splits)

lemma route_Inr:
  assumes "route rs m p = Inr r"
  obtains pm segs where "(pm, segs, r) \<in> set rs" "method_match pm m" "segs_match segs p"
proof -
  obtain pm segs where "find (\<lambda>(pm, segs, r). method_match pm m \<and> segs_match segs p) rs = Some (pm, segs, r)"
    using assms by (auto simp: route_def split: option.splits if_splits)
  from find_mem [OF this] show thesis using that by auto
qed

end
