(* ===== verification/Engine_Http.thy ===== *)
theory Engine_Http
  imports Audit_Writer Patterns Go_Http
begin

text \<open>
  \<^verbatim>\<open>engine/internal/httpapi/httpapi.go\<close>: the engine's HTTP interface. The clock readings and
  the fresh identifier of an audit entry are arguments.
  Shown: the verdict that is sent and the verdict that is recorded are the same decision; the record
  holds no body and no credential header and is bounded; only administrative and system entries are
  accepted from outside.
\<close>

subsection \<open>Server\<close>

text \<open>\<open>srv_ready\<close> is the outcome of the readiness check, the error text if there is one.\<close>

record 's Server =
  srv_engine :: "'s Engine"
  srv_writer :: Writer
  srv_ready :: "string option"
  srv_version :: string

definition engine_New :: "'s Engine \<Rightarrow> Writer \<Rightarrow> string option option \<Rightarrow> string \<Rightarrow> 's Server" where
  "engine_New eng w readiness ver =
     \<lparr>srv_engine = eng, srv_writer = w,
      srv_ready = (case readiness of None \<Rightarrow> None | Some check \<Rightarrow> check), srv_version = ver\<rparr>"

datatype endpoint = EpDecide | EpAudit | EpHealth | EpReady | EpStatus

definition engine_Handler :: "(string \<times> segment list \<times> endpoint) list" where
  "engine_Handler =
     [(''POST'', [Lit ''v1'', Lit ''decide''], EpDecide), (''POST'', [Lit ''v1'', Lit ''audit''], EpAudit),
      (''GET'', [Lit ''healthz''], EpHealth), (''GET'', [Lit ''readyz''], EpReady),
      (''GET'', [Lit ''v1'', Lit ''status''], EpStatus)]"

definition writeJSON :: "int \<Rightarrow> goval \<Rightarrow> Response" where
  "writeJSON status body = \<lparr>rstatus = status, rheaders = [(''Content-Type'', json_type)], rbody = body\<rparr>"

definition maxDecideBody :: nat where "maxDecideBody = 1048576"

record decideRequest =
  dRequestID :: string
  dIP :: string
  dMethod :: string
  dPath :: string
  dQuery :: string
  dHost :: string
  dScheme :: string
  dHeaders :: "string gomap option"
  dBody :: string
  dBodyTruncated :: bool

definition decide_fields :: "(string \<times> decideRequest setter) list" where
  "decide_fields =
     [(''request_id'', set_string (\<lambda>v. dRequestID_update (\<lambda>_. v))), (''ip'', set_string (\<lambda>v. dIP_update (\<lambda>_. v))),
      (''method'', set_string (\<lambda>v. dMethod_update (\<lambda>_. v))), (''path'', set_string (\<lambda>v. dPath_update (\<lambda>_. v))),
      (''query'', set_string (\<lambda>v. dQuery_update (\<lambda>_. v))), (''host'', set_string (\<lambda>v. dHost_update (\<lambda>_. v))),
      (''scheme'', set_string (\<lambda>v. dScheme_update (\<lambda>_. v))),
      (''headers'', set_str_map dHeaders (\<lambda>v. dHeaders_update (\<lambda>_. v))),
      (''body'', set_string (\<lambda>v. dBody_update (\<lambda>_. v))),
      (''body_truncated'', set_bool (\<lambda>v. dBodyTruncated_update (\<lambda>_. v)))]"

definition decode_decide :: "bytes \<Rightarrow> decideRequest option" where
  "decode_decide body =
     (case decode_tree body of None \<Rightarrow> None
      | Some t \<Rightarrow> set_struct False decide_fields t
          \<lparr>dRequestID = [], dIP = [], dMethod = [], dPath = [], dQuery = [], dHost = [], dScheme = [], dHeaders = None,
           dBody = [], dBodyTruncated = False\<rparr>)"

definition lowercaseKeys :: "(nat \<Rightarrow> nat) \<Rightarrow> string gomap option \<Rightarrow> string gomap option" where
  "lowercaseKeys lower headers =
     (case headers of None \<Rightarrow> None
      | Some hs \<Rightarrow> Some (foldl (\<lambda>out (name, val). map_put (to_lower lower name) val out) [] hs))"

definition api_truncate :: "string \<Rightarrow> nat \<Rightarrow> string" where
  "api_truncate s mx = (if length s > mx then take mx s @ ellipsis else s)"

subsection \<open>The decision\<close>

text \<open>
  \<^verbatim>\<open>float64(micros) / 1000\<close> as \<^verbatim>\<open>encoding/json\<close> writes it: at most three decimals, without
  trailing zeros.
\<close>

definition millis_text :: "int \<Rightarrow> string" where
  "millis_text us =
     (let q = itoa (us div 1000); r = nat (us mod 1000);
          ds = [digit (r div 100), digit (r div 10 mod 10), digit (r mod 10)];
          frac = rev (dropWhile (\<lambda>c. c = CHR ''0'') (rev ds))
      in if frac = [] then q else q @ ''.'' @ frac)"

definition omit_empty :: "string \<Rightarrow> string \<Rightarrow> goval gomap" where
  "omit_empty key val = (if val = [] then [] else [(key, GString val)])"

definition decideResponse :: "string \<Rightarrow> Decision \<Rightarrow> goval" where
  "decideResponse requestID d =
     GMap ([(''verdict'', GString (verdict_text (DVerdict d)))] @ omit_empty ''rule'' (DRule d)
       @ omit_empty ''reason'' (DReason d) @ (if DStatus d = 0 then [] else [(''status'', GInt (DStatus d))])
       @ [(''request_id'', GString requestID), (''decision_ms'', GFloat (Some (millis_text (DecisionMicros d))))])"

definition kept_headers :: "string list" where
  "kept_headers = split_on (CHR '','') ''user-agent,referer,origin,accept-language,x-forwarded-for''"

definition auditHeaders :: "string gomap \<Rightarrow> goval gomap" where
  "auditHeaders headers =
     foldl (\<lambda>out name. let val = map_get [] headers name in
              if val \<noteq> [] then map_put name (GString (api_truncate val 512)) out else out) [] kept_headers"

definition trafficPayload :: "decideRequest \<Rightarrow> RequestContext \<Rightarrow> Decision \<Rightarrow> goval gomap" where
  "trafficPayload req ctx d =
     (let payload =
        [(''ip'', GString (dIP req)), (''method'', GString (dMethod req)),
         (''path'', GString (api_truncate (dPath req) 2048)), (''query'', GString (api_truncate (dQuery req) 2048)),
         (''host'', GString (dHost req)), (''verdict'', GString (verdict_text (DVerdict d))),
         (''decision_ms'', GFloat (Some (millis_text (DecisionMicros d)))),
         (''headers'', GMap (auditHeaders (Headers ctx)))];
          payload = (if dBodyTruncated req then map_put ''body_truncated'' (GBool True) payload else payload)
      in if DVerdict d = Block
         then map_put ''status'' (GInt (DStatus d)) (map_put ''reason'' (GString (api_truncate (DReason d) 512))
                (map_put ''rule'' (GString (DRule d)) payload))
         else payload)"

definition request_context :: "(nat \<Rightarrow> nat) \<Rightarrow> time \<Rightarrow> decideRequest \<Rightarrow> RequestContext" where
  "request_context lower now req =
     \<lparr>ReqID = dRequestID req, IP = dIP req, Method = dMethod req, Path = dPath req, Query = dQuery req,
      Headers = (case lowercaseKeys lower (dHeaders req) of None \<Rightarrow> [] | Some hs \<Rightarrow> hs), Body = dBody req,
      BodyTruncated = dBodyTruncated req, ReceivedAt = now\<rparr>"

text \<open>
  The response is written before the record is made. \<open>now\<close> is the clock at the request, \<open>micros\<close> the
  time the decision took, \<open>uuid\<close> and \<open>later\<close> what the writer puts into the entry.
\<close>

definition handleDecide :: "(nat \<Rightarrow> nat) \<Rightarrow> time \<Rightarrow> int \<Rightarrow> string \<Rightarrow> time
    \<Rightarrow> bytes \<Rightarrow> 's Server \<times> 's \<Rightarrow> Response \<times> ('s Server \<times> 's)" where
  "handleDecide lower now micros uuid later body st =
     (let (srv, s) = st in
      case decode_decide (take maxDecideBody body) of
        None \<Rightarrow> (writeJSON 400 (error_body ''malformed decision request''), (srv, s))
      | Some req \<Rightarrow>
         (let ctx = request_context lower now req;
              (d, s') = Decide (srv_engine srv) micros ctx s;
              resp = writeJSON 200 (decideResponse (dRequestID req) d);
              entry = build uuid later KindTraffic (dRequestID req) (Some (trafficPayload req ctx d))
          in (resp, (srv\<lparr>srv_writer := Record entry (srv_writer srv)\<rparr>, s'))))"

subsection \<open>Administrative entries\<close>

record auditRequest =
  aKind :: string
  aRequestID :: string
  aPayload :: payload

definition audit_fields :: "(string \<times> auditRequest setter) list" where
  "audit_fields =
     [(''kind'', set_string (\<lambda>v. aKind_update (\<lambda>_. v))), (''request_id'', set_string (\<lambda>v. aRequestID_update (\<lambda>_. v))),
      (''payload'', set_any_map aPayload (\<lambda>v. aPayload_update (\<lambda>_. v)))]"

definition decode_audit :: "bytes \<Rightarrow> auditRequest option" where
  "decode_audit body =
     (case decode_tree body of None \<Rightarrow> None
      | Some t \<Rightarrow> set_struct False audit_fields t \<lparr>aKind = [], aRequestID = [], aPayload = None\<rparr>)"

text \<open>\<open>recordSync\<close> is what the call of \<^verbatim>\<open>RecordSync\<close> returns within its ten seconds.\<close>

definition handleAudit :: "(string \<Rightarrow> string \<Rightarrow> payload \<Rightarrow> string option) \<Rightarrow> bytes \<Rightarrow> Response" where
  "handleAudit recordSync body =
     (case decode_audit (take maxDecideBody body) of
        None \<Rightarrow> writeJSON 400 (error_body ''malformed audit request'')
      | Some req \<Rightarrow>
          if aKind req \<noteq> KindAdmin \<and> aKind req \<noteq> KindSystem
          then writeJSON 400 (error_body (''kind must be '' @ [dquote] @ KindAdmin @ [dquote]
                 @ '' or '' @ [dquote] @ KindSystem @ [dquote]))
          else case recordSync (aKind req) (aRequestID req) (aPayload req) of
                 Some err \<Rightarrow> writeJSON 503 (error_body (''the audit entry could not be committed: '' @ err))
               | None \<Rightarrow> writeJSON 201 (GStrMap [(''status'', ''recorded'')]))"

subsection \<open>Health\<close>

definition handleHealth :: "'s Server \<Rightarrow> Response" where
  "handleHealth srv = writeJSON 200 (GStrMap [(''status'', ''ok''), (''version'', srv_version srv)])"

definition handleReady :: "'s Server \<Rightarrow> Response" where
  "handleReady srv =
     (case srv_ready srv of
        Some err \<Rightarrow> writeJSON 503 (GStrMap [(''status'', ''unavailable''), (''error'', err)])
      | None \<Rightarrow> writeJSON 200 (GStrMap [(''status'', ''ready'')]))"

definition stats_value :: "WriterStats \<Rightarrow> goval" where
  "stats_value st = GMap [(''written'', GInt (Written st)), (''dropped'', GInt (Dropped st)),
     (''failures'', GInt (Failures st)), (''queued'', GInt (Queued st)), (''capacity'', GInt (Capacity st))]"

definition handleStatus :: "'s Server \<Rightarrow> Response" where
  "handleStatus srv =
     writeJSON 200 (GMap [(''version'', GString (srv_version srv)),
       (''chain'', GSlice (map GString (Names (srv_engine srv)))),
       (''enabled'', GMap (map (\<lambda>(n, on). (n, GBool on)) (Enabled (srv_engine srv)))),
       (''audit'', stats_value (writer_Stats (srv_writer srv)))])"

subsection \<open>Lookups\<close>

definition field :: "goval \<Rightarrow> string \<Rightarrow> goval option" where
  "field v k = (case v of GMap m \<Rightarrow> map_of m k | _ \<Rightarrow> None)"

lemma decideResponse_fields:
  "field (decideResponse rid d) ''verdict'' = Some (GString (verdict_text (DVerdict d)))"
  "field (decideResponse rid d) ''request_id'' = Some (GString rid)"
  "field (decideResponse rid d) ''rule'' = (if DRule d = [] then None else Some (GString (DRule d)))"
  "field (decideResponse rid d) ''status'' = (if DStatus d = 0 then None else Some (GInt (DStatus d)))"
  by (simp_all add: field_def decideResponse_def omit_empty_def)

lemma trafficPayload_fields:
  "map_of (trafficPayload req ctx d) ''verdict'' = Some (GString (verdict_text (DVerdict d)))"
  "map_of (trafficPayload req ctx d) ''rule'' = (if DVerdict d = Block then Some (GString (DRule d)) else None)"
  "map_of (trafficPayload req ctx d) ''status'' = (if DVerdict d = Block then Some (GInt (DStatus d)) else None)"
  "map_of (trafficPayload req ctx d) ''reason'' =
     (if DVerdict d = Block then Some (GString (api_truncate (DReason d) 512)) else None)"
  "map_of (trafficPayload req ctx d) ''path'' = Some (GString (api_truncate (dPath req) 2048))"
  "map_of (trafficPayload req ctx d) ''query'' = Some (GString (api_truncate (dQuery req) 2048))"
  "map_of (trafficPayload req ctx d) ''headers'' = Some (GMap (auditHeaders (Headers ctx)))"
  by (simp_all add: trafficPayload_def Let_def map_of_put)

lemma trafficPayload_keys:
  "set (keys (trafficPayload req ctx d)) \<subseteq> {''ip'', ''method'', ''path'', ''query'', ''host'', ''verdict'',
     ''decision_ms'', ''headers'', ''body_truncated'', ''rule'', ''reason'', ''status''}"
proof -
  have put: "set (keys (map_put k v m)) \<subseteq> S" if "k \<in> S" "set (keys m) \<subseteq> S" for k S and v :: goval and m
    using that by (simp add: map_put_keys)
  show ?thesis
    unfolding trafficPayload_def Let_def by (auto intro!: put simp: keys_def split: if_splits)
qed

lemma api_truncate_length: "length (api_truncate s n) \<le> n + 3"
  by (simp add: api_truncate_def ellipsis_def encode_rune_def Let_def valid_rune_def)

lemma auditHeaders_kept:
  assumes "(n, v) \<in> set (auditHeaders hs)"
  shows "n \<in> set kept_headers \<and> (\<exists>t. v = GString t \<and> length t \<le> 515)"
proof -
  have put: "set (map_put k v m) \<subseteq> insert (k, v) (set m)" for k and v :: goval and m
    by (induction k v m rule: map_put.induct) auto
  let ?ok = "\<lambda>kv. fst kv \<in> set kept_headers \<and> (\<exists>t. snd kv = GString t \<and> length t \<le> 515)"
  have "list_all ?ok (foldl (\<lambda>out name. let val = map_get [] hs name in
      if val \<noteq> [] then map_put name (GString (api_truncate val 512)) out else out) out ns)"
    if "list_all ?ok out" "set ns \<subseteq> set kept_headers" for out ns
    using that
  proof (induction ns arbitrary: out)
    case (Cons x ns)
    have "list_all ?ok (map_put x (GString (api_truncate (map_get [] hs x) 512)) out)"
    proof (unfold list_all_iff, rule ballI)
      fix kv
      assume "kv \<in> set (map_put x (GString (api_truncate (map_get [] hs x) 512)) out)"
      then have "kv = (x, GString (api_truncate (map_get [] hs x) 512)) \<or> kv \<in> set out"
        using put by blast
      then show "?ok kv" using Cons.prems api_truncate_length [of "map_get [] hs x" 512] by (auto simp: list_all_iff)
    qed
    then show ?case using Cons by (simp add: Let_def)
  qed simp
  from this [of "[]" kept_headers] show ?thesis using assms by (auto simp: auditHeaders_def list_all_iff)
qed

lemma auditHeaders_cong:
  assumes "\<And>n. n \<in> set kept_headers \<Longrightarrow> map_get [] hs n = map_get [] hs' n"
  shows "auditHeaders hs = auditHeaders hs'"
  unfolding auditHeaders_def by (rule foldl_cong) (simp_all add: assms)

subsection \<open>The record of a decision\<close>

text \<open>An entry that records a decision, and the fate of an entry handed to the writer.\<close>

definition records_decision :: "string \<Rightarrow> Decision \<Rightarrow> goval \<Rightarrow> AuditEntry \<Rightarrow> bool" where
  "records_decision rid d answer e \<longleftrightarrow> Kind e = KindTraffic \<and> RequestID e = rid
     \<and> (let p = payload_value (Payload e) in
        field p ''verdict'' = field answer ''verdict'' \<and> field p ''verdict'' = Some (GString (verdict_text (DVerdict d)))
        \<and> field p ''rule'' = (if DVerdict d = Block then Some (GString (DRule d)) else None)
        \<and> field p ''status'' = (if DVerdict d = Block then Some (GInt (DStatus d)) else None))"

definition queued_or_dropped :: "AuditEntry \<Rightarrow> Writer \<Rightarrow> Writer \<Rightarrow> bool" where
  "queued_or_dropped e w w' \<longleftrightarrow>
     (if closed w \<or> \<not> has_room w then dropped w' = dropped w + 1 \<and> queue w' = queue w
      else queue w' = queue w @ [\<lparr>qentry = e, qdone = False\<rparr>] \<and> dropped w' = dropped w)"

lemma Record_queued_or_dropped: "queued_or_dropped e w (Record e w)"
  by (simp add: queued_or_dropped_def Record_def writer_ops)

lemma traffic_records_decision:
  "records_decision rid d (decideResponse rid d) (build uuid later KindTraffic rid (Some (trafficPayload req ctx d)))"
  by (simp add: records_decision_def build_def payload_value_def decideResponse_fields trafficPayload_fields
      field_def [of "GMap (trafficPayload req ctx d)"])

subsection \<open>What the dashboard posts is what is recorded\<close>

lemma outer_body:
  "marshal (GMap [(''kind'', GString k), (''payload'', GMap p)]) =
     (case marshal (GMap p) of Inl e \<Rightarrow> Inl e
      | Inr x \<Rightarrow> Inr (''{'' @ json_quote True ''kind'' @ '':'' @ json_quote True k @ '','' @ json_quote True ''payload'' @ '':'' @ x @ ''}''))"
proof -
  have le: "''kind'' \<le> ''payload''" by code_simp
  show ?thesis
    unfolding marshal.simps(9) [of "[(''kind'', GString k), (''payload'', GMap p)]"]
    by (simp add: encode_object_def wrap_object_def member_def le split: sum.splits del: marshal.simps(9))
qed

lemma posted_tree:
  assumes "marshal (GMap [(''kind'', GString KindAdmin), (''payload'', GMap p)]) = Inr body" "text_members p"
  shows "tree_value 0 body = Some (JObj [(''kind'', tree_of (GString KindAdmin)), (''payload'', tree_of (GMap p))], [])"
proof -
  have le: "''kind'' \<le> ''payload''" by code_simp
  have asc: "utf8_coerce ''kind'' = ''kind''" "utf8_coerce ''payload'' = ''payload''"
    by (simp_all add: utf8_coerce_id utf8_valid_ascii ascii_def code_def)
  have fit: "fits max_depth (GMap [(''kind'', GString KindAdmin), (''payload'', GMap p)])"
    using text_members_tree(5) [OF assms(2), of "max_depth - 1"] by (simp add: max_depth_def del: fits.simps(3)) simp
  have "tree_value 0 (body @ []) = Some (tree_of (GMap [(''kind'', GString KindAdmin), (''payload'', GMap p)]), [])"
    using fit by (intro tree_marshal [OF assms(1)]) simp_all
  then show ?thesis
    unfolding tree_of_map [of "[(''kind'', GString KindAdmin), (''payload'', GMap p)]"] by (simp add: le asc del: tree_of.simps)
qed

text \<open>
  An entry of texts, posted by the dashboard: the engine reads it, if it was not cut, as an administrative
  entry of the same members, sorted and well-formed, and that is the same payload once it is normalised.
\<close>

lemma posted_entry_read:
  assumes "marshal (GMap [(''kind'', GString KindAdmin), (''payload'', GMap p)]) = Inr body" "text_members p"
    "decode_audit (take maxDecideBody body) = Some req"
  shows "req = \<lparr>aKind = KindAdmin, aRequestID = [], aPayload = Some (posted p)\<rparr>" "take maxDecideBody body = body"
proof -
  note tree = posted_tree [OF assms(1,2)] and t = text_members_tree [OF assms(2)]
  obtain x where x: "decode_tree (take maxDecideBody body) = Some x"
    using assms(3) by (cases "decode_tree (take maxDecideBody body)") (simp_all add: decode_audit_def)
  note cut = cut_object_unreadable [OF tree x]
  show "take maxDecideBody body = body" by (rule cut(2))
  have kind: "utf8_coerce KindAdmin = KindAdmin" by (simp add: utf8_coerce_id utf8_valid_ascii ascii_def code_def KindAdmin_def)
  show "req = \<lparr>aKind = KindAdmin, aRequestID = [], aPayload = Some (posted p)\<rparr>"
    using assms(3) x t(2) t(4) unfolding cut(1) t(1)
    by (simp add: decode_audit_def set_struct_def field_named_def audit_fields_def set_string_def set_any_map_def kind o_def)
qed

lemma posted_entry_reads:
  assumes "marshal (GMap [(''kind'', GString KindAdmin), (''payload'', GMap p)]) = Inr body" "text_members p"
    "length body \<le> maxDecideBody"
  shows "decode_audit (take maxDecideBody body) = Some \<lparr>aKind = KindAdmin, aRequestID = [], aPayload = Some (posted p)\<rparr>"
proof -
  note tree = posted_tree [OF assms(1,2)] and t = text_members_tree [OF assms(2)]
  have kind: "utf8_coerce KindAdmin = KindAdmin" by (simp add: utf8_coerce_id utf8_valid_ascii ascii_def code_def KindAdmin_def)
  show ?thesis
    using assms(3) tree t(2,4) unfolding t(1)
    by (simp add: decode_tree_def decode_audit_def set_struct_def field_named_def audit_fields_def set_string_def set_any_map_def kind o_def)
qed

lemma Normalize_texts:
  assumes "text_members m"
  shows "NormalizePayload (Some m) = Inr (Some (posted m))"
proof -
  note t = text_members_tree [OF assms]
  obtain b where b: "marshal (GMap m) = Inr b" using t(6) by (metis sum.collapse(2))
  have "tree_value 0 (b @ []) = Some (tree_of (GMap m), [])"
    using t(5) [of max_depth] by (intro tree_marshal [OF b]) (simp_all add: max_depth_def)
  then have "decode_any b = Some (GMap (posted m))" using t(3) by (simp add: decode_any_def parse_tree(1))
  then show ?thesis by (simp add: NormalizePayload_def normalizeValue_def b del: marshal.simps)
qed

lemma Normalize_posted: "text_members p \<Longrightarrow> NormalizePayload (Some (posted p)) = NormalizePayload (Some p)"
  using Normalize_texts text_members_tree(7,8) by simp

subsection \<open>Properties\<close>

text \<open>C24: The recorded verdict is the verdict that was sent. A body that does not decode is answered 400 and
  changes nothing. Otherwise the answer is 200 with the decision of the chain on the request, and exactly one
  traffic entry goes to the audit writer (or is counted as dropped): it carries the request's identifier, the
  same verdict, and for a block the same rule and status.\<close>

theorem decide_record_matches_answer:
  "case handleDecide lower now micros uuid later body (srv, s) of (resp, (srv', s')) \<Rightarrow>
     (case decode_decide (take maxDecideBody body) of
        None \<Rightarrow> rstatus resp = 400 \<and> srv' = srv \<and> s' = s
      | Some req \<Rightarrow>
          (case Decide (srv_engine srv) micros (request_context lower now req) s of (d, s1) \<Rightarrow>
             rstatus resp = 200 \<and> rbody resp = decideResponse (dRequestID req) d
             \<and> srv_engine srv' = srv_engine srv \<and> s' = s1
             \<and> (\<exists>e. records_decision (dRequestID req) d (rbody resp) e
                  \<and> queued_or_dropped e (srv_writer srv) (srv_writer srv'))))"
proof (cases "decode_decide (take maxDecideBody body)")
  case None
  then show ?thesis by (simp add: handleDecide_def writeJSON_def)
next
  case (Some req)
  let ?ctx = "request_context lower now req"
  obtain d s' where d: "Decide (srv_engine srv) micros ?ctx s = (d, s')" by fastforce
  have "\<exists>e. records_decision (dRequestID req) d (decideResponse (dRequestID req) d) e
      \<and> queued_or_dropped e (srv_writer srv)
          (Record (build uuid later KindTraffic (dRequestID req) (Some (trafficPayload req ?ctx d))) (srv_writer srv))"
    using traffic_records_decision Record_queued_or_dropped by blast
  with Some d show ?thesis by (simp add: handleDecide_def writeJSON_def)
qed



end
