(* ===== verification/RateLimit.thy ===== *)
theory RateLimit
  imports Rules_Engine "HOL-Library.Finite_Map"
begin

text \<open>
  The sliding-window limiter (\<^verbatim>\<open>engine/internal/ratelimit/ratelimit.go\<close>) and the rule over it
  (\<^verbatim>\<open>engine/internal/rules/ratelimit.go\<close>).

  The counters live in Redis. The commands the script calls are the fields of a record; what is relied
  on of them is the locale \<open>redis_zset\<close>: a key is a finite map from members to scores with a time at
  which it expires. The script runs atomically, so a check is one operation. Times are in
  milliseconds, and the server's clock is taken to agree with the engine's.
\<close>

subsection \<open>The script\<close>

text \<open>\<open>at_time\<close> is what a key holds at a time, empty once it has expired.\<close>

record 'z Redis =
  at_time :: "int \<Rightarrow> 'z \<Rightarrow> 'z"
  ZREMRANGEBYSCORE :: "int \<Rightarrow> int \<Rightarrow> 'z \<Rightarrow> 'z"
  ZCARD :: "'z \<Rightarrow> int"
  ZADD :: "int \<Rightarrow> string \<Rightarrow> 'z \<Rightarrow> 'z"
  PEXPIRE :: "int \<Rightarrow> int \<Rightarrow> 'z \<Rightarrow> 'z"

definition slidingWindow :: "'z Redis \<Rightarrow> int \<Rightarrow> int \<Rightarrow> int \<Rightarrow> string \<Rightarrow> 'z \<Rightarrow> int list \<times> 'z" where
  "slidingWindow redis now_ms window_ms limit mem z0 =
     (let z = ZREMRANGEBYSCORE redis 0 (now_ms - window_ms) (at_time redis now_ms z0);
          count = ZCARD redis z
      in if count \<ge> limit then ([1, count], PEXPIRE redis now_ms window_ms z)
         else ([0, count + 1], PEXPIRE redis now_ms window_ms (ZADD redis now_ms mem z)))"

subsection \<open>The limiter\<close>

record Limiter =
  prefix :: string
  limit :: int
  window :: duration

definition NewLimiter :: "int \<Rightarrow> duration \<Rightarrow> Limiter" where
  "NewLimiter lim win = \<lparr>prefix = ''openshield:rl:'', limit = lim, window = win\<rparr>"

record Result =
  Limited :: bool
  RCount :: int
  RLimit :: int
  RetryAfter :: duration

text \<open>\<^verbatim>\<open>Duration.Milliseconds\<close> truncates towards zero.\<close>

definition milliseconds :: "duration \<Rightarrow> int" where
  "milliseconds d = (if d < 0 then - (- d div millisecond) else d div millisecond)"

text \<open>What the script answered, read as a result.\<close>

definition read_result :: "Limiter \<Rightarrow> int list \<Rightarrow> Result result" where
  "read_result l raw =
     (if length raw \<noteq> 2 then Inl ''ratelimit: unexpected script result''
      else Inr \<lparr>Limited = (raw ! 0 = 1), RCount = raw ! 1, RLimit = limit l, RetryAfter = window l\<rparr>)"

text \<open>
  The counters of all keys, the clock, whether Redis answers and what its error reads like, and the
  number of checks that failed.
\<close>

record 'z RateState =
  zsets :: "string \<Rightarrow> 'z"
  clock :: time
  redis_up :: bool
  redis_error :: string
  storeErrors :: int

definition limiter_Allow :: "'z Redis \<Rightarrow> Limiter \<Rightarrow> string \<Rightarrow> string \<Rightarrow> 'z RateState \<Rightarrow> Result result \<times> 'z RateState" where
  "limiter_Allow redis l key mem s =
     (let nowMS = unix_milli (clock s); windowMS = milliseconds (window l); k = prefix l @ key in
      if \<not> redis_up s then (Inl (''ratelimit: evaluate '' @ key @ '': '' @ redis_error s), s)
      else let (raw, z) = slidingWindow redis nowMS windowMS (limit l) mem (zsets s k)
           in (read_result l raw, s\<lparr>zsets := (zsets s)(k := z)\<rparr>))"

subsection \<open>The rule\<close>

definition StatusTooManyRequests :: int where "StatusTooManyRequests = 429"

definition rate_member :: "RequestContext \<Rightarrow> string" where
  "rate_member req =
     (if ReqID req = [] then IP req @ ''-'' @ itoa (unix_nano (ReceivedAt req)) else ReqID req)"

definition ratelimit_Evaluate ::
  "'z Redis \<Rightarrow> Limiter \<Rightarrow> RequestContext \<Rightarrow> 'z RateState \<Rightarrow> (Verdict \<times> string) \<times> 'z RateState" where
  "ratelimit_Evaluate redis l req s =
     (case limiter_Allow redis l (IP req) (rate_member req) s of
        (Inl err, s') \<Rightarrow> ((Allow, []), s'\<lparr>storeErrors := storeErrors s' + 1\<rparr>)
      | (Inr res, s') \<Rightarrow>
         if Limited res then
           ((Block, ''rate limit exceeded: more than '' @ itoa (RLimit res) @ '' requests from ''
                    @ IP req @ '' within '' @ duration_string (window l)), s')
         else ((Allow, []), s'))"

definition ratelimit_rule :: "'z Redis \<Rightarrow> Limiter \<Rightarrow> 'z RateState Rule" where
  "ratelimit_rule redis l = \<lparr>Name = ''ratelimit'', Evaluate = ratelimit_Evaluate redis l,
                             BlockStatus = Some StatusTooManyRequests\<rparr>"

interpretation ratelimit: rule_contract "ratelimit_Evaluate redis l" for redis l
  by unfold_locales
    (auto simp: ratelimit_Evaluate_def split: prod.splits sum.splits if_splits)

subsection \<open>A run of checks on one key\<close>

fun rate_run :: "'z Redis \<Rightarrow> int \<Rightarrow> int \<Rightarrow> (int \<times> string) list \<Rightarrow> 'z \<Rightarrow> bool list" where
  "rate_run redis w l [] z = []"
| "rate_run redis w l ((now, m) # cs) z =
     (case slidingWindow redis now w l m z of (raw, z') \<Rightarrow> (raw ! 0 \<noteq> 1) # rate_run redis w l cs z')"

text \<open>
  What is meant: a request passes when fewer than \<open>l\<close> of those that passed before it lie in the
  window of length \<open>w\<close> that ends with it. The list holds the times of those that passed.
\<close>

fun ref_run :: "int \<Rightarrow> int \<Rightarrow> int list \<Rightarrow> (int \<times> string) list \<Rightarrow> bool list" where
  "ref_run w l hist [] = []"
| "ref_run w l hist ((now, m) # cs) =
     (let pass = int (length (filter (\<lambda>t. now - w < t) hist)) < l
      in pass # ref_run w l (if pass then hist @ [now] else hist) cs)"

text \<open>The contract of the commands.\<close>

locale redis_zset =
  fixes redis :: "'z Redis"
    and scores :: "'z \<Rightarrow> string \<rightharpoonup> int"
    and deadline :: "'z \<Rightarrow> int option"
  assumes finite_scores: "finite (dom (scores z))"
    and at_live: "(\<And>d. deadline z = Some d \<Longrightarrow> now < d) \<Longrightarrow> at_time redis now z = z"
    and at_expired: "deadline z = Some d \<Longrightarrow> d \<le> now \<Longrightarrow> scores (at_time redis now z) = Map.empty"
    and zrem: "scores (ZREMRANGEBYSCORE redis lo hi z) m =
      (case scores z m of None \<Rightarrow> None | Some t \<Rightarrow> if lo \<le> t \<and> t \<le> hi then None else Some t)"
    and zcard: "ZCARD redis z = int (card (dom (scores z)))"
    and zadd: "scores (ZADD redis t m z) = (scores z)(m \<mapsto> t)"
    and pexpire: "scores (PEXPIRE redis now w z) = scores z" "deadline (PEXPIRE redis now w z) = Some (now + w)"
begin

text \<open>
  The state of a key after a call at time \<open>prev_ms\<close>, against the calls that passed: nothing else is
  recorded, and whatever still lies in the window is.
\<close>

definition tracks :: "int \<Rightarrow> int \<Rightarrow> (int \<times> string) list \<Rightarrow> 'z \<Rightarrow> bool" where
  "tracks w prev_ms hs z \<longleftrightarrow>
     (\<forall>(t, m) \<in> set hs. 0 \<le> t \<and> t \<le> prev_ms) \<and> distinct (map snd hs)
     \<and> (\<forall>m t. scores z m = Some t \<longrightarrow> (t, m) \<in> set hs)
     \<and> (\<forall>(t, m) \<in> set hs. prev_ms - w < t \<longrightarrow> scores z m = Some t)
     \<and> deadline z = Some (prev_ms + w)"

lemma swept:
  assumes "tracks w prev_ms hs z \<or> (hs = [] \<and> scores z = Map.empty \<and> deadline z = None)" "prev_ms \<le> now"
  shows "scores (ZREMRANGEBYSCORE redis 0 (now - w) (at_time redis now z)) m = Some t
    \<longleftrightarrow> (t, m) \<in> set hs \<and> now - w < t"
proof (cases "deadline z")
  case None
  then have "hs = []" "scores z = Map.empty" "at_time redis now z = z"
    using assms(1) at_live [of z now] by (auto simp: tracks_def)
  then show ?thesis by (simp add: zrem)
next
  case (Some d)
  then have tr: "tracks w prev_ms hs z" and d: "d = prev_ms + w" using assms(1) by (auto simp: tracks_def)
  show ?thesis
  proof (cases "d \<le> now")
    case True
    have "\<not> now - w < t" if "(t, m) \<in> set hs" using that tr True d by (auto simp: tracks_def)
    then show ?thesis using at_expired [OF Some True] by (auto simp: zrem)
  next
    case False
    then have "at_time redis now z = z" using Some by (intro at_live) simp
    moreover have "scores z m = Some t \<and> now - w < t \<longleftrightarrow> (t, m) \<in> set hs \<and> now - w < t"
      using tr assms(2) by (fastforce simp: tracks_def)
    moreover have "0 \<le> t" if "scores z m = Some t" for t using tr that by (fastforce simp: tracks_def)
    ultimately show ?thesis by (auto simp: zrem split: option.splits)
  qed
qed

lemma window_count:
  assumes "\<And>m t. scores z m = Some t \<longleftrightarrow> (t, m) \<in> set hs \<and> P t" "distinct (map snd hs)"
  shows "card (dom (scores z)) = length (filter P (map fst hs))"
proof -
  let ?ms = "map snd (filter (P \<circ> fst) hs)"
  have "dom (scores z) = set ?ms" using assms(1) by (force simp: dom_def)
  moreover have "distinct ?ms"
    using assms(2) by (simp add: distinct_map inj_on_def)
  ultimately have "card (dom (scores z)) = length ?ms" by (metis distinct_card)
  then show ?thesis by (simp add: filter_map)
qed

lemma rate_run_exact:
  assumes "tracks w prev_ms hs z \<or> (hs = [] \<and> scores z = Map.empty \<and> deadline z = None)"
    "\<forall>(t, m) \<in> set cs. prev_ms \<le> t" "0 \<le> prev_ms" "sorted (map fst cs)" "distinct (map snd hs @ map snd cs)" "0 < w"
  shows "rate_run redis w l cs z = ref_run w l (map fst hs) cs"
  using assms
proof (induction cs arbitrary: hs z prev_ms)
  case (Cons c cs)
  obtain now m where c: "c = (now, m)" by fastforce
  have now: "prev_ms \<le> now" "0 \<le> now" using Cons.prems(2,3) c by auto
  let ?z = "ZREMRANGEBYSCORE redis 0 (now - w) (at_time redis now z)"
  note swept = swept [OF Cons.prems(1) now(1)]
  have count: "ZCARD redis ?z = int (length (filter (\<lambda>t. now - w < t) (map fst hs)))"
    using window_count [of ?z hs "\<lambda>t. now - w < t"] swept Cons.prems(5) by (simp add: zcard)
  have old: "\<forall>(t, m) \<in> set hs. 0 \<le> t \<and> t \<le> now"
    using Cons.prems(1) now by (auto simp: tracks_def)
  have rest: "\<forall>(t, m) \<in> set cs. now \<le> t" "sorted (map fst cs)" using Cons.prems(4) c by auto
  show ?case
  proof (cases "int (length (filter (\<lambda>t. now - w < t) (map fst hs))) < l")
    case True
    let ?z' = "PEXPIRE redis now w (ZADD redis now m ?z)"
    have new: "m \<notin> snd ` set hs" using Cons.prems(5) c by auto
    have upd: "scores ?z' = (scores ?z)(m \<mapsto> now)" by (simp add: pexpire zadd)
    have "tracks w now (hs @ [(now, m)]) ?z'"
      unfolding tracks_def upd pexpire(2) using old now new Cons.prems(5) swept \<open>0 < w\<close>
      by (auto simp: image_iff split: if_splits)
    then have "rate_run redis w l cs ?z' = ref_run w l (map fst (hs @ [(now, m)])) cs"
      using rest now Cons.prems(5,6) c by (intro Cons.IH) auto
    then show ?thesis using True count by (simp add: c slidingWindow_def Let_def)
  next
    case False
    let ?z' = "PEXPIRE redis now w ?z"
    have "tracks w now hs ?z'"
      unfolding tracks_def pexpire using old Cons.prems(5) swept by auto
    then have "rate_run redis w l cs ?z' = ref_run w l (map fst hs) cs"
      using rest now Cons.prems(5,6) c by (intro Cons.IH) auto
    then show ?thesis using False count by (simp add: c slidingWindow_def Let_def)
  qed
qed simp

end

subsection \<open>The budget\<close>

text \<open>The times of the calls that passed.\<close>

definition passed :: "(int \<times> string) list \<Rightarrow> bool list \<Rightarrow> int list" where
  "passed cs flags = map (fst \<circ> fst) (filter snd (zip cs flags))"

definition in_window :: "int \<Rightarrow> int \<Rightarrow> int list \<Rightarrow> nat" where
  "in_window w t ts = length (filter (\<lambda>h. t - w < h \<and> h \<le> t) ts)"

lemma passed_simps [simp]:
  "passed [] fl = []" "passed (c # cs) (b # fl) = (if b then fst c # passed cs fl else passed cs fl)"
  by (simp_all add: passed_def)

lemma in_window_snoc:
  "in_window w t (hist @ [now]) = in_window w t hist + (if t - w < now \<and> now \<le> t then 1 else 0)"
  by (simp add: in_window_def)

lemma in_window_le:
  assumes "now \<le> t"
  shows "in_window w t hist \<le> length (filter (\<lambda>h. now - w < h) hist)"
proof -
  have "filter (\<lambda>h. t - w < h \<and> h \<le> t) hist = filter (\<lambda>h. t - w < h \<and> h \<le> t) (filter (\<lambda>h. now - w < h) hist)"
    using assms by (auto intro: filter_cong)
  then show ?thesis by (metis in_window_def length_filter_le)
qed

lemma ref_run_budget:
  assumes "\<forall>t. int (in_window w t hist) \<le> l"
  shows "int (in_window w t (hist @ passed cs (ref_run w l hist cs))) \<le> l"
  using assms
proof (induction cs arbitrary: hist)
  case (Cons c cs)
  obtain now m where c: "c = (now, m)" by fastforce
  show ?case
  proof (cases "int (length (filter (\<lambda>t. now - w < t) hist)) < l")
    case True
    have "int (in_window w t' (hist @ [now])) \<le> l" for t'
      using Cons.prems in_window_le [of now t' w hist] True by (auto simp: in_window_snoc)
    then show ?thesis using Cons.IH [of "hist @ [now]"] True by (simp add: c Let_def)
  next
    case False
    then show ?thesis using Cons by (simp add: c Let_def)
  qed
qed simp

lemma ref_run_length [simp]: "length (ref_run w l hist cs) = length cs"
  by (induction cs arbitrary: hist) (auto simp: Let_def)

subsection \<open>The commands as documented\<close>

text \<open>A key as a finite map with an expiry time, and the commands on it as Redis documents them.\<close>

record ZSet =
  zmembers :: "(string, int) fmap"
  zexpires :: "int option"

definition empty_zset :: ZSet where
  "empty_zset = \<lparr>zmembers = fmempty, zexpires = None\<rparr>"

definition outside :: "int \<Rightarrow> int \<Rightarrow> (string, int) fmap \<Rightarrow> string \<Rightarrow> bool" where
  "outside lo hi f m = (case fmlookup f m of None \<Rightarrow> True | Some t \<Rightarrow> \<not> (lo \<le> t \<and> t \<le> hi))"

definition documented_redis :: "ZSet Redis" where
  "documented_redis = \<lparr>
     at_time = (\<lambda>now z. case zexpires z of None \<Rightarrow> z | Some d \<Rightarrow> if d \<le> now then empty_zset else z),
     ZREMRANGEBYSCORE = (\<lambda>lo hi z. z\<lparr>zmembers := fmfilter (outside lo hi (zmembers z)) (zmembers z)\<rparr>),
     ZCARD = (\<lambda>z. int (fcard (fmdom (zmembers z)))),
     ZADD = (\<lambda>t m z. z\<lparr>zmembers := fmupd m t (zmembers z)\<rparr>),
     PEXPIRE = (\<lambda>now w z. z\<lparr>zexpires := Some (now + w)\<rparr>)\<rparr>"

interpretation redis: redis_zset documented_redis "\<lambda>z. fmlookup (zmembers z)" zexpires
proof unfold_locales
  fix z :: ZSet and now d
  show "finite (dom (fmlookup (zmembers z)))" by simp
  show "at_time documented_redis now z = z" if "\<And>d. zexpires z = Some d \<Longrightarrow> now < d"
    using that by (fastforce simp: documented_redis_def split: option.splits)
  show "fmlookup (zmembers (at_time documented_redis now z)) = Map.empty" if "zexpires z = Some d" "d \<le> now"
    using that by (simp add: documented_redis_def empty_zset_def fun_eq_iff)
  show "ZCARD documented_redis z = int (card (dom (fmlookup (zmembers z))))"
    by (simp add: documented_redis_def fcard.rep_eq fmdom.rep_eq)
qed (auto simp: documented_redis_def outside_def split: option.splits)

subsection \<open>Properties\<close>

text \<open>C13: The limiter is exact. For checks of one client at times that never go back and with distinct
  request identifiers, a request passes exactly when fewer than the limit of the requests that passed
  before it lie in the window that ends with it, whatever expires in Redis in between; and so no
  window of that length ever holds more than the limit of passed requests.\<close>

theorem sliding_window_exact:
  assumes "sorted (map fst cs)" "distinct (map snd cs)" "\<forall>(t, m) \<in> set cs. 0 \<le> t" "0 < w" "0 \<le> l"
  shows "rate_run documented_redis w l cs empty_zset = ref_run w l [] cs
    \<and> int (in_window w t (passed cs (rate_run documented_redis w l cs empty_zset))) \<le> l"
proof -
  have "rate_run documented_redis w l cs empty_zset = ref_run w l [] cs"
    using redis.rate_run_exact [of w 0 "[]" empty_zset cs l] assms by (simp add: empty_zset_def fun_eq_iff)
  then show ?thesis
    using ref_run_budget [of w "[]" l t cs] assms(5) by (simp add: in_window_def)
qed

theorem sliding_window_exact_witness:
  "rate_run documented_redis 10 2 [(1, ''a''), (2, ''b''), (3, ''c''), (12, ''d'')] empty_zset
      = ref_run 10 2 [] [(1, ''a''), (2, ''b''), (3, ''c''), (12, ''d'')]
    \<and> int (in_window 10 11 (passed [(1, ''a''), (2, ''b''), (3, ''c''), (12, ''d'')]
        (rate_run documented_redis 10 2 [(1, ''a''), (2, ''b''), (3, ''c''), (12, ''d'')] empty_zset))) \<le> 2
    \<and> ref_run 10 2 [] [(1, ''a''), (2, ''b''), (3, ''c''), (12, ''d'')] = [True, True, False, True]"
  using sliding_window_exact [of "[(1, ''a''), (2, ''b''), (3, ''c''), (12, ''d'')]" 10 2 11]
  by (auto simp del: rate_run.simps passed_simps)

end
