(* ===== verification/Netip.thy ===== *)
theory Netip
  imports Go_Strings
begin

text \<open>
  The part of Go's \<^verbatim>\<open>net/netip\<close> the program uses: parsing of addresses and prefixes, masking,
  containment and printing. An address is a 32-bit word, or a 128-bit word with a zone. An IPv6
  address that embeds an IPv4 address is an IPv6 address: Go keeps the two apart, and so does the
  access list.
\<close>

unbundle bit_operations_syntax

datatype Addr = V4 "32 word" | V6 "128 word" string

record Prefix =
  paddr :: Addr
  pbits :: nat

definition BitLen :: "Addr \<Rightarrow> nat" where
  "BitLen a = (case a of V4 _ \<Rightarrow> 32 | V6 _ _ \<Rightarrow> 128)"

definition hasZone :: "Addr \<Rightarrow> bool" where
  "hasZone a = (case a of V4 _ \<Rightarrow> False | V6 _ z \<Rightarrow> z \<noteq> [])"

definition withoutZone :: "Addr \<Rightarrow> Addr" where
  "withoutZone a = (case a of V4 w \<Rightarrow> V4 w | V6 w _ \<Rightarrow> V6 w [])"

subsection \<open>Parsing addresses\<close>

text \<open>A decimal octet: digits only, no leading zero, at most 255.\<close>

definition parse_octet :: "string \<Rightarrow> int option" where
  "parse_octet s =
     (if s \<noteq> [] \<and> list_all is_digit s \<and> (length s > 1 \<longrightarrow> hd s \<noteq> CHR ''0'') \<and> nat_of_dec s \<le> 255
      then Some (int (nat_of_dec s)) else None)"

fun parse_octets :: "string list \<Rightarrow> int list option" where
  "parse_octets [] = Some []"
| "parse_octets (p # ps) =
     (case parse_octet p of None \<Rightarrow> None
      | Some n \<Rightarrow> (case parse_octets ps of None \<Rightarrow> None | Some ns \<Rightarrow> Some (n # ns)))"

definition parseIPv4Fields :: "string \<Rightarrow> int list option" where
  "parseIPv4Fields s =
     (let ps = split_on (CHR ''.'') s in if length ps = 4 then parse_octets ps else None)"

text \<open>A number from its digits, most significant first.\<close>

definition from_digits :: "int \<Rightarrow> int list \<Rightarrow> int" where
  "from_digits b ds = foldl (\<lambda>n d. n * b + d) 0 ds"

definition parseIPv4 :: "string \<Rightarrow> Addr option" where
  "parseIPv4 s = map_option (\<lambda>ns. V4 (of_int (from_digits 256 ns))) (parseIPv4Fields s)"

definition hex_digit_val :: "char \<Rightarrow> nat option" where
  "hex_digit_val c = (let n = code c in
     if 48 \<le> n \<and> n \<le> 57 then Some (n - 48)
     else if 97 \<le> n \<and> n \<le> 102 then Some (n - 87)
     else if 65 \<le> n \<and> n \<le> 70 then Some (n - 55) else None)"

definition is_hex :: "char \<Rightarrow> bool" where
  "is_hex c \<longleftrightarrow> hex_digit_val c \<noteq> None"

definition hex_number :: "string \<Rightarrow> int" where
  "hex_number s = from_digits 16 (map (\<lambda>c. case hex_digit_val c of Some n \<Rightarrow> int n | None \<Rightarrow> 0) s)"

text \<open>
  The loop over the groups of an IPv6 address: the 16-bit groups read so far, the number of groups
  before the ellipsis if there was one, and the text left. It returns the groups and the ellipsis,
  \<^const>\<open>None\<close> on any of the parser's errors.
\<close>

function v6_loop :: "int list \<Rightarrow> nat option \<Rightarrow> string \<Rightarrow> (int list \<times> nat option) option" where
  "v6_loop gs ell s =
     (if length gs \<ge> 8 then (if s = [] then Some (gs, ell) else None)
      else let h = takeWhile is_hex s; t = dropWhile is_hex s in
        if h = [] \<or> length h > 4 then None
        else if t \<noteq> [] \<and> hd t = CHR ''.'' then
          (if ell = None \<and> length gs \<noteq> 6 \<or> length gs > 6 then None
           else case parseIPv4Fields s of
                  Some [a, b, c, d] \<Rightarrow> Some (gs @ [a * 256 + b, c * 256 + d], ell)
                | _ \<Rightarrow> None)
        else let gs' = gs @ [hex_number h] in
          if t = [] then Some (gs', ell)
          else if hd t \<noteq> CHR '':'' \<or> length t = 1 then None
          else let u = tl t in
            if hd u = CHR '':'' then
              (if ell \<noteq> None then None
               else if tl u = [] then Some (gs', Some (length gs'))
               else v6_loop gs' (Some (length gs')) (tl u))
            else v6_loop gs' ell u)"
  by pat_completeness auto
termination
proof (relation "measure (\<lambda>(gs, ell, s). length s)", goal_cases)
  case (2 gs ell s h t gs' u)
  have "length s = length h + length t" using 2(2,3) by (metis length_append takeWhile_dropWhile_id)
  moreover have "0 < length h" using 2(4) by simp
  ultimately have "length (tl (tl t)) < length s" unfolding length_tl by linarith
  then show ?case using 2(9) by simp
next
  case (3 gs ell s h t gs' u)
  have "length s = length h + length t" using 3(2,3) by (metis length_append takeWhile_dropWhile_id)
  moreover have "0 < length h" using 3(4) by simp
  ultimately have "length (tl t) < length s" unfolding length_tl by linarith
  then show ?case using 3(9) by simp
qed simp

declare v6_loop.simps [simp del]

definition v6_expand :: "int list \<times> nat option \<Rightarrow> int list option" where
  "v6_expand ge =
     (let (gs, ell) = ge in
      if length gs < 8 then
        (case ell of None \<Rightarrow> None
         | Some e \<Rightarrow> Some (take e gs @ replicate (8 - length gs) 0 @ drop e gs))
      else if ell \<noteq> None then None else Some gs)"

definition parseIPv6 :: "string \<Rightarrow> Addr option" where
  "parseIPv6 input =
     (let s = takeWhile (\<lambda>c. c \<noteq> CHR ''%'') input; r = dropWhile (\<lambda>c. c \<noteq> CHR ''%'') input;
          zone = tl r in
      if r \<noteq> [] \<and> zone = [] then None
      else let lead = has_prefix s ''::''; s' = (if lead then drop 2 s else s) in
        if lead \<and> s' = [] then Some (V6 0 zone)
        else case v6_loop [] (if lead then Some 0 else None) s' of None \<Rightarrow> None
             | Some ge \<Rightarrow> map_option (\<lambda>gs. V6 (of_int (from_digits 65536 gs)) zone) (v6_expand ge))"

text \<open>The first of \<^verbatim>\<open>.\<close>, \<^verbatim>\<open>:\<close> and \<^verbatim>\<open>%\<close> decides what is parsed.\<close>

fun ParseAddr_scan :: "string \<Rightarrow> string \<Rightarrow> Addr option" where
  "ParseAddr_scan all [] = None"
| "ParseAddr_scan all (c # s) =
     (if c = CHR ''.'' then parseIPv4 all
      else if c = CHR '':'' then parseIPv6 all
      else if c = CHR ''%'' then None
      else ParseAddr_scan all s)"

definition ParseAddr :: "string \<Rightarrow> Addr option" where
  "ParseAddr s = ParseAddr_scan s s"

subsection \<open>Prefixes\<close>

definition PrefixFrom :: "Addr \<Rightarrow> nat \<Rightarrow> Prefix" where
  "PrefixFrom a bits = \<lparr>paddr = withoutZone a, pbits = bits\<rparr>"

text \<open>The text before and after the last slash.\<close>

definition split_last :: "char \<Rightarrow> string \<Rightarrow> (string \<times> string) option" where
  "split_last c s =
     (if c \<in> set s
      then Some (rev (tl (dropWhile (\<lambda>x. x \<noteq> c) (rev s))), rev (takeWhile (\<lambda>x. x \<noteq> c) (rev s)))
      else None)"

definition netip_ParsePrefix :: "string \<Rightarrow> Prefix option" where
  "netip_ParsePrefix s =
     (case split_last (CHR ''/'') s of None \<Rightarrow> None
      | Some (a, b) \<Rightarrow>
         (case ParseAddr a of None \<Rightarrow> None
          | Some ip \<Rightarrow>
             if hasZone ip then None
             else if length b > 1 \<and> \<not> (is_digit (hd b) \<and> hd b \<noteq> CHR ''0'') then None
             else (case parse_int b of None \<Rightarrow> None
                   | Some n \<Rightarrow> if n < 0 \<or> n > int (BitLen ip) then None
                               else Some (PrefixFrom ip (nat n)))))"

definition mask_addr :: "nat \<Rightarrow> Addr \<Rightarrow> Addr" where
  "mask_addr bits a =
     (case a of V4 w \<Rightarrow> V4 (push_bit (32 - bits) (drop_bit (32 - bits) w))
      | V6 w _ \<Rightarrow> V6 (push_bit (128 - bits) (drop_bit (128 - bits) w)) [])"

definition Masked :: "Prefix \<Rightarrow> Prefix" where
  "Masked p = p\<lparr>paddr := mask_addr (pbits p) (paddr p)\<rparr>"

definition Contains :: "Prefix \<Rightarrow> Addr \<Rightarrow> bool" where
  "Contains p ip =
     (if hasZone ip then False
      else case (paddr p, ip) of
             (V4 a, V4 b) \<Rightarrow> drop_bit (32 - pbits p) (a XOR b) = 0
           | (V6 a _, V6 b _) \<Rightarrow> drop_bit (128 - pbits p) (a XOR b) = 0
           | _ \<Rightarrow> False)"

subsection \<open>Printing\<close>

definition v4_octets :: "32 word \<Rightarrow> int list" where
  "v4_octets w = (let n = uint w in [n div 16777216, n div 65536 mod 256, n div 256 mod 256, n mod 256])"

definition v4_string :: "32 word \<Rightarrow> string" where
  "v4_string w = join ''.'' (map (\<lambda>o8. dec_of_nat (nat o8)) (v4_octets w))"

definition v6_groups :: "128 word \<Rightarrow> int list" where
  "v6_groups w = map (\<lambda>i. uint w div 65536 ^ (7 - i) mod 65536) [0..<8]"

fun hex_of_nat :: "nat \<Rightarrow> string" where
  "hex_of_nat n = (if n < 16 then [hex_digit n] else hex_of_nat (n div 16) @ [hex_digit (n mod 16)])"

declare hex_of_nat.simps [simp del]

text \<open>The longest run of at least two zero groups, the first of them when several are longest.\<close>

definition zero_run :: "int list \<Rightarrow> nat \<Rightarrow> nat" where
  "zero_run gs i = length (takeWhile (\<lambda>g. g = 0) (drop i gs))"

definition longest_zeros :: "int list \<Rightarrow> (nat \<times> nat) option" where
  "longest_zeros gs =
     foldl (\<lambda>best i. let l = zero_run gs i in
              if l \<ge> 2 \<and> (case best of None \<Rightarrow> True | Some (a, b) \<Rightarrow> l > b - a) then Some (i, i + l) else best)
       None [0..<length gs]"

definition v6_string :: "128 word \<Rightarrow> string" where
  "v6_string w =
     (let gs = v6_groups w; hex = (\<lambda>l. join '':'' (map (\<lambda>g. hex_of_nat (nat g)) l)) in
      if take 6 gs = [0, 0, 0, 0, 0, 0xFFFF] then ''::ffff:'' @ v4_string (ucast w)
      else case longest_zeros gs of None \<Rightarrow> hex gs
           | Some (a, b) \<Rightarrow> hex (take a gs) @ ''::'' @ hex (drop b gs))"

definition Addr_String :: "Addr \<Rightarrow> string" where
  "Addr_String a =
     (case a of V4 w \<Rightarrow> v4_string w
      | V6 w z \<Rightarrow> v6_string w @ (if z = [] then [] else ''%'' @ z))"

definition Prefix_String :: "Prefix \<Rightarrow> string" where
  "Prefix_String p = Addr_String (paddr p) @ ''/'' @ dec_of_nat (pbits p)"

subsection \<open>Containment\<close>

lemma xor_zero_iff: "a XOR b = 0 \<longleftrightarrow> a = (b :: 'a::len word)"
  by (auto simp: bit_eq_iff bit_xor_iff)

lemma drop_bit_eq_iff:
  fixes a b :: "'a::len word"
  shows "drop_bit k a = drop_bit k b \<longleftrightarrow> (\<forall>i < LENGTH('a). k \<le> i \<longrightarrow> bit a i = bit b i)"
proof
  assume eq: "drop_bit k a = drop_bit k b"
  show "\<forall>i < LENGTH('a). k \<le> i \<longrightarrow> bit a i = bit b i"
  proof (intro allI impI)
    fix i assume "k \<le> i"
    then have "bit (drop_bit k a) (i - k) = bit a i" "bit (drop_bit k b) (i - k) = bit b i"
      by (simp_all add: bit_drop_bit_eq)
    then show "bit a i = bit b i" using eq by simp
  qed
next
  assume "\<forall>i < LENGTH('a). k \<le> i \<longrightarrow> bit a i = bit b i"
  then show "drop_bit k a = drop_bit k b"
    by (intro bit_eqI) (metis bit_drop_bit_eq bit_imp_le_length le_add1 o_apply)
qed

lemma drop_bit_xor_zero:
  fixes a b :: "'a::len word"
  shows "drop_bit k (a XOR b) = 0 \<longleftrightarrow> drop_bit k a = drop_bit k b"
  by (simp add: xor_zero_iff)

text \<open>An address is in a prefix of its own family when they agree on the leading bits.\<close>

lemma Contains_V4:
  "Contains \<lparr>paddr = V4 a, pbits = n\<rparr> (V4 b) \<longleftrightarrow> (\<forall>i < 32. 32 - n \<le> i \<longrightarrow> bit a i = bit b i)"
  by (simp add: Contains_def hasZone_def xor_zero_iff drop_bit_eq_iff)

lemma Contains_V6:
  "Contains \<lparr>paddr = V6 a [], pbits = n\<rparr> (V6 b []) \<longleftrightarrow> (\<forall>i < 128. 128 - n \<le> i \<longrightarrow> bit a i = bit b i)"
  by (simp add: Contains_def hasZone_def xor_zero_iff drop_bit_eq_iff)

lemma Contains_family: "Contains p ip \<Longrightarrow> BitLen (paddr p) = BitLen ip \<and> \<not> hasZone ip"
  by (auto simp: Contains_def BitLen_def split: Addr.splits if_splits)

lemma drop_push_drop: "drop_bit k (push_bit k (drop_bit k (a :: 'a::len word))) = drop_bit k a"
  unfolding drop_bit_eq_iff by (auto simp: bit_simps)

lemma Contains_Masked: "Contains (Masked p) ip = Contains p ip"
  by (cases "paddr p"; cases ip) (simp_all add: Contains_def Masked_def mask_addr_def drop_push_drop)

lemma Contains_self: "\<not> hasZone (paddr p) \<Longrightarrow> Contains p (paddr p)"
  by (auto simp: Contains_def split: Addr.splits)

lemma Masked_idem: "Masked (Masked p) = Masked p"
proof -
  show ?thesis by (cases "paddr p") (simp_all add: Masked_def mask_addr_def drop_push_drop)
qed

subsection \<open>Printing and parsing IPv4\<close>

lemma parse_octet_dec: "n < 256 \<Longrightarrow> parse_octet (dec_of_nat n) = Some (int n)"
  using dec_of_nat_no_zero [of n] by (simp add: parse_octet_def dec_of_nat_digits)

lemma dot_not_digit: "CHR ''.'' \<notin> set (dec_of_nat n)"
  using dec_of_nat_digits [of n] by (auto simp: list_all_iff is_digit_def code_def)

lemma split_on_four:
  assumes "c \<notin> set p" "c \<notin> set q" "c \<notin> set r" "c \<notin> set s"
  shows "split_on c (p @ c # q @ c # r @ c # s) = [p, q, r, s]"
  using assms by (simp add: split_on_sep split_on_no_sep)

lemma octets_value:
  fixes n :: int
  shows "((n div 16777216 * 256 + n div 65536 mod 256) * 256 + n div 256 mod 256) * 256 + n mod 256 = n"
proof -
  have d: "n div 65536 = n div 256 div 256" "n div 16777216 = n div 256 div 256 div 256"
    by (simp_all add: zdiv_zmult2_eq [symmetric])
  show ?thesis by (simp only: d div_mult_mod_eq)
qed

lemma parse_octets_map:
  "(\<And>x. x \<in> set xs \<Longrightarrow> parse_octet (f x) = Some x) \<Longrightarrow> parse_octets (map f xs) = Some xs"
  by (induction xs) auto

lemma v4_string_parts:
  "v4_string w = dec_of_nat (nat (v4_octets w ! 0)) @ CHR ''.'' # dec_of_nat (nat (v4_octets w ! 1))
     @ CHR ''.'' # dec_of_nat (nat (v4_octets w ! 2)) @ CHR ''.'' # dec_of_nat (nat (v4_octets w ! 3))"
  by (simp add: v4_string_def v4_octets_def Let_def)

lemma parseIPv4_string: "parseIPv4 (v4_string w) = Some (V4 w)"
proof -
  let ?n = "uint w"
  have "0 \<le> ?n" "?n < 4294967296" using uint_bounded [of w] by simp_all
  then have top: "0 \<le> ?n div 16777216" "?n div 16777216 < 256"
    by (simp_all add: pos_imp_zdiv_nonneg_iff div_less_iff_less_mult)
  let ?os = "[?n div 16777216, ?n div 65536 mod 256, ?n div 256 mod 256, ?n mod 256]"
  have os: "v4_octets w = ?os" by (simp add: v4_octets_def Let_def)
  have range: "0 \<le> x \<and> x < 256" if "x \<in> set ?os" for x using that top by auto
  have octet: "parse_octet (dec_of_nat (nat x)) = Some x" if "x \<in> set ?os" for x
    using range [OF that] parse_octet_dec [of "nat x"] by (simp add: nat_less_iff)
  have "split_on (CHR ''.'') (v4_string w) = map (\<lambda>x. dec_of_nat (nat x)) ?os"
    unfolding v4_string_parts os by (simp add: split_on_four dot_not_digit)
  moreover have "parse_octets (map (\<lambda>x. dec_of_nat (nat x)) ?os) = Some ?os"
    by (rule parse_octets_map) (rule octet)
  moreover have "length (map (\<lambda>x. dec_of_nat (nat x)) ?os) = 4" by simp
  ultimately have "parseIPv4Fields (v4_string w) = Some ?os"
    by (simp only: parseIPv4Fields_def Let_def if_True HOL.simp_thms)
  moreover have "from_digits 256 ?os = ?n"
    unfolding from_digits_def foldl.simps mult_zero_left add_0 by (rule octets_value)
  ultimately show ?thesis by (simp only: parseIPv4_def option.map of_int_uint) simp
qed

lemma ParseAddr_scan_digits:
  "list_all is_digit ds \<Longrightarrow> ParseAddr_scan all (ds @ CHR ''.'' # s) = parseIPv4 all"
  by (induction ds) (auto simp: is_digit_def code_def)

lemma ParseAddr_v4_string: "ParseAddr (v4_string w) = Some (V4 w)"
  using parseIPv4_string [of w]
  by (simp add: ParseAddr_def v4_string_parts ParseAddr_scan_digits dec_of_nat_digits)

lemma slash_not_in_v4: "CHR ''/'' \<notin> set (v4_string w)" "CHR ''/'' \<notin> set (dec_of_nat n)"
proof -
  have d: "CHR ''/'' \<notin> set (dec_of_nat n)" for n
    using dec_of_nat_digits [of n] by (auto simp: list_all_iff is_digit_def code_def)
  then show "CHR ''/'' \<notin> set (v4_string w)" "CHR ''/'' \<notin> set (dec_of_nat n)" by (simp_all add: v4_string_parts)
qed

lemma split_last_append: "c \<notin> set b \<Longrightarrow> split_last c (a @ c # b) = Some (a, b)"
  by (simp add: split_last_def takeWhile_append dropWhile_append)

lemma netip_ParsePrefix_V4:
  assumes "n \<le> 32"
  shows "netip_ParsePrefix (Prefix_String \<lparr>paddr = V4 a, pbits = n\<rparr>) = Some \<lparr>paddr = V4 a, pbits = n\<rparr>"
proof -
  have "parse_int (itoa (int n)) = Some (int n)"
    using assms by (intro parse_itoa) (simp add: in_int64_def int64_min_def int64_max_def)
  then have "parse_int (dec_of_nat n) = Some (int n)" by (simp add: itoa_def)
  moreover have "\<not> (length (dec_of_nat n) > 1 \<and> \<not> (is_digit (hd (dec_of_nat n)) \<and> hd (dec_of_nat n) \<noteq> CHR ''0''))"
    using dec_of_nat_no_zero [of n] dec_of_nat_digits [of n] by (cases "dec_of_nat n") auto
  moreover have "split_last (CHR ''/'') (v4_string a @ CHR ''/'' # dec_of_nat n) = Some (v4_string a, dec_of_nat n)"
    by (rule split_last_append) (rule slash_not_in_v4)
  ultimately show ?thesis
    using assms by (simp add: netip_ParsePrefix_def Prefix_String_def Addr_String_def ParseAddr_v4_string
        hasZone_def BitLen_def PrefixFrom_def withoutZone_def)
qed

lemma netip_ParsePrefix_ok:
  "netip_ParsePrefix s = Some p \<Longrightarrow> pbits p \<le> BitLen (paddr p) \<and> \<not> hasZone (paddr p)"
  by (auto simp: netip_ParsePrefix_def PrefixFrom_def withoutZone_def BitLen_def hasZone_def
      split: option.splits if_splits Addr.splits)

lemma BitLen_Masked [simp]: "BitLen (paddr (Masked p)) = BitLen (paddr p)" "pbits (Masked p) = pbits p"
  by (simp_all add: Masked_def mask_addr_def BitLen_def split: Addr.splits)

lemma hasZone_Masked [simp]: "\<not> hasZone (paddr (Masked p))"
  by (simp add: Masked_def mask_addr_def hasZone_def split: Addr.splits)

lemma Masked_host: "Masked (PrefixFrom a (BitLen a)) = PrefixFrom a (BitLen a)"
  by (cases a) (simp_all add: Masked_def mask_addr_def PrefixFrom_def withoutZone_def BitLen_def)

end
