(* ===== verification/IPBlock.thy ===== *)
theory IPBlock
  imports Rules_Engine Netip
begin

text \<open>
  \<^verbatim>\<open>engine/internal/rules/ipblock.go\<close>: the access list. An allow entry beats a deny entry, an
  entry that cannot be parsed is reported and skipped, and an address that cannot be parsed is let
  through to the other rules.
\<close>

subsection \<open>The list\<close>

record IPBlock =
  allow :: "Prefix list"
  deny :: "Prefix list"
  rule_notes :: "string gomap"

definition NewIPBlock :: IPBlock where
  "NewIPBlock = \<lparr>allow = [], deny = [], rule_notes = []\<rparr>"

datatype ip_error = NotPrefix string | UnknownAction string string

definition ParsePrefix :: "string \<Rightarrow> ip_error + Prefix" where
  "ParsePrefix val =
     (case netip_ParsePrefix val of Some prefix \<Rightarrow> Inr (Masked prefix)
      | None \<Rightarrow>
         (case ParseAddr val of
            None \<Rightarrow> Inl (NotPrefix val)
          | Some addr \<Rightarrow> Inr (PrefixFrom addr (BitLen addr))))"

text \<open>One round of the loop of \<^verbatim>\<open>Set\<close>.\<close>

definition set_round :: "IPRule \<Rightarrow> IPBlock \<times> ip_error list \<Rightarrow> IPBlock \<times> ip_error list" where
  "set_round e acc =
     (let (r, errs) = acc in
      case ParsePrefix (CIDR e) of
        Inl err \<Rightarrow> (r, errs @ [err])
      | Inr prefix \<Rightarrow>
         (let r = r\<lparr>rule_notes := map_put (Prefix_String prefix) (Note e) (rule_notes r)\<rparr> in
          if Action e = ''allow'' then (r\<lparr>allow := allow r @ [prefix]\<rparr>, errs)
          else if Action e = ''deny'' then (r\<lparr>deny := deny r @ [prefix]\<rparr>, errs)
          else (r, errs @ [UnknownAction (CIDR e) (Action e)])))"

text \<open>\<^verbatim>\<open>Set\<close> builds the new list aside and swaps it in; it returns the errors.\<close>

definition ipblock_Set :: "IPRule list \<Rightarrow> IPBlock \<Rightarrow> IPBlock \<times> ip_error list" where
  "ipblock_Set entries r = fold set_round entries (NewIPBlock, [])"

definition denied_reason :: "IPBlock \<Rightarrow> Prefix \<Rightarrow> string" where
  "denied_reason r prefix =
     (let note = map_get [] (rule_notes r) (Prefix_String prefix) in
      if note \<noteq> [] then ''source address is in denied range '' @ Prefix_String prefix @ '' ('' @ note @ '')''
      else ''source address is in denied range '' @ Prefix_String prefix)"

definition ipblock_Evaluate :: "RequestContext \<Rightarrow> IPBlock \<Rightarrow> (Verdict \<times> string) \<times> IPBlock" where
  "ipblock_Evaluate req r =
     (case ParseAddr (IP req) of None \<Rightarrow> ((Allow, []), r)
      | Some addr \<Rightarrow>
         (case find (\<lambda>p. Contains p addr) (allow r) of Some _ \<Rightarrow> ((Allow, []), r)
          | None \<Rightarrow>
             (case find (\<lambda>p. Contains p addr) (deny r) of
                Some prefix \<Rightarrow> ((Block, denied_reason r prefix), r)
              | None \<Rightarrow> ((Allow, []), r))))"

definition ipblock_Size :: "IPBlock \<Rightarrow> int \<times> int" where
  "ipblock_Size r = (int (length (allow r)), int (length (deny r)))"

definition ipblock_Name :: string where "ipblock_Name = ''ipblock''"

subsection \<open>What the list holds after Set\<close>

text \<open>The prefixes of the rows with a given action, in order, unparseable rows left out.\<close>

definition prefixes_of :: "string \<Rightarrow> IPRule list \<Rightarrow> Prefix list" where
  "prefixes_of act es =
     concat (map (\<lambda>e. case ParsePrefix (CIDR e) of Inl _ \<Rightarrow> [] | Inr p \<Rightarrow> if Action e = act then [p] else []) es)"

lemma fold_set_round:
  "allow (fst (fold set_round es acc)) = allow (fst acc) @ prefixes_of ''allow'' es
   \<and> deny (fst (fold set_round es acc)) = deny (fst acc) @ prefixes_of ''deny'' es"
proof (induction es arbitrary: acc)
  case (Cons e es)
  obtain r errs where acc: "acc = (r, errs)" by fastforce
  show ?case
    using Cons [of "set_round e acc"]
    by (auto simp: acc set_round_def prefixes_of_def Let_def split: sum.splits)
qed (simp add: prefixes_of_def)

lemma ipblock_Set_lists:
  "allow (fst (ipblock_Set es r)) = prefixes_of ''allow'' es"
  "deny (fst (ipblock_Set es r)) = prefixes_of ''deny'' es"
  by (simp_all add: ipblock_Set_def fold_set_round NewIPBlock_def)

lemma mem_prefixes_of:
  "p \<in> set (prefixes_of act es) \<longleftrightarrow> (\<exists>e \<in> set es. ParsePrefix (CIDR e) = Inr p \<and> Action e = act)"
proof
  assume "p \<in> set (prefixes_of act es)"
  then show "\<exists>e \<in> set es. ParsePrefix (CIDR e) = Inr p \<and> Action e = act"
    by (auto simp: prefixes_of_def split: sum.split_asm if_split_asm)
next
  assume "\<exists>e \<in> set es. ParsePrefix (CIDR e) = Inr p \<and> Action e = act"
  then show "p \<in> set (prefixes_of act es)" by (force simp: prefixes_of_def)
qed

lemma set_errors:
  "length (snd (fold set_round es acc)) = length (snd acc)
     + length (filter (\<lambda>e. isl (ParsePrefix (CIDR e)) \<or> Action e \<noteq> ''allow'' \<and> Action e \<noteq> ''deny'') es)"
proof (induction es arbitrary: acc)
  case (Cons e es)
  obtain r errs where acc: "acc = (r, errs)" by fastforce
  show ?case using Cons by (auto simp: acc set_round_def Let_def split: sum.splits)
qed simp

lemma ipblock_block_iff:
  "fst (fst (ipblock_Evaluate req r)) = Block \<longleftrightarrow>
     (\<exists>addr. ParseAddr (IP req) = Some addr \<and> (\<exists>p \<in> set (deny r). Contains p addr)
        \<and> \<not> (\<exists>p \<in> set (allow r). Contains p addr))"
proof -
  have "find (\<lambda>p. Contains p a) ps = None \<longleftrightarrow> \<not> (\<exists>p \<in> set ps. Contains p a)" for a ps
    by (auto simp: find_None_iff)
  then show ?thesis
    by (auto simp: ipblock_Evaluate_def split: option.splits) (metis option.distinct(1))+
qed

interpretation ipblock: rule_contract ipblock_Evaluate
  by unfold_locales
    (auto simp: ipblock_Evaluate_def denied_reason_def Let_def split: option.splits if_splits)

subsection \<open>Properties\<close>

text \<open>C14: The access list blocks exactly what it should. After the list has been replaced by rows of the
  database, a request is blocked if and only if its address parses, some parseable deny row covers it
  and no parseable allow row does; every other row is reported as an error, one each.\<close>

theorem access_list_exact:
  "(fst (fst (ipblock_Evaluate req (fst (ipblock_Set es r)))) = Block \<longleftrightarrow>
     (\<exists>addr. ParseAddr (IP req) = Some addr
        \<and> (\<exists>e \<in> set es. \<exists>p. Action e = ActionDeny \<and> ParsePrefix (CIDR e) = Inr p \<and> Contains p addr)
        \<and> \<not> (\<exists>e \<in> set es. \<exists>p. Action e = ActionAllow \<and> ParsePrefix (CIDR e) = Inr p \<and> Contains p addr)))
   \<and> length (snd (ipblock_Set es r))
     = length (filter (\<lambda>e. isl (ParsePrefix (CIDR e)) \<or> Action e \<noteq> ActionAllow \<and> Action e \<noteq> ActionDeny) es)"
proof
  show "fst (fst (ipblock_Evaluate req (fst (ipblock_Set es r)))) = Block \<longleftrightarrow>
     (\<exists>addr. ParseAddr (IP req) = Some addr
        \<and> (\<exists>e \<in> set es. \<exists>p. Action e = ActionDeny \<and> ParsePrefix (CIDR e) = Inr p \<and> Contains p addr)
        \<and> \<not> (\<exists>e \<in> set es. \<exists>p. Action e = ActionAllow \<and> ParsePrefix (CIDR e) = Inr p \<and> Contains p addr))"
    unfolding ipblock_block_iff ipblock_Set_lists Bex_def mem_prefixes_of ActionAllow_def ActionDeny_def
    by blast
  show "length (snd (ipblock_Set es r))
     = length (filter (\<lambda>e. isl (ParsePrefix (CIDR e)) \<or> Action e \<noteq> ActionAllow \<and> Action e \<noteq> ActionDeny) es)"
    by (simp add: ipblock_Set_def set_errors ActionAllow_def ActionDeny_def)
qed

lemma ParsePrefix_canonical:
  "ParsePrefix s = Inr p \<Longrightarrow> Masked p = p \<and> pbits p \<le> BitLen (paddr p)"
  using netip_ParsePrefix_ok [of s]
  by (auto simp: ParsePrefix_def Masked_idem Masked_host split: option.splits)
    (auto simp: PrefixFrom_def withoutZone_def BitLen_def split: Addr.splits)



end
