(* ===== verification/Rulestore.thy ===== *)
theory Rulestore
  imports IPBlock "HOL-Library.Product_Lexorder"
begin

text \<open>
  \<^verbatim>\<open>internal/rulestore/rulestore.go\<close>: the mutable configuration of the chain, two tables of the
  database. What PostgreSQL does with a \<^verbatim>\<open>CIDR\<close> value and how it sorts are the fields of a
  record; the statements are modelled on lists of rows. A call can fail as a whole (\<open>up\<close> is false) and
  a result set can end early (\<open>brk\<close> is the number of rows delivered before the connection breaks).

  The locale \<open>access_list\<close> is what the engine and the dashboard rely on: the table is a finite map from
  prefixes to actions, adding updates it at one prefix and deleting removes one prefix.
\<close>

subsection \<open>Tables\<close>

record rule_row =
  rr_name :: string
  rr_enabled :: bool
  rr_config :: string
  rr_updated :: time
  rr_by :: string

record ip_row =
  ir_cidr :: Prefix
  ir_action :: string
  ir_note :: string
  ir_created :: time
  ir_by :: string

record RuleTables =
  rules_table :: "rule_row list"
  ip_table :: "ip_row list"

record RuleSQL =
  cidr_in :: "string \<Rightarrow> Prefix option"
  cidr_out :: "Prefix \<Rightarrow> string"
  cidr_rank :: "Prefix \<Rightarrow> int"
  text_collate :: "string \<Rightarrow> string"

datatype store_error =
    StoreFailed
  | BadConfig json_error
  | ErrUnknownRule string
  | BadAction string

subsection \<open>Rules\<close>

definition scan_rule :: "rule_row \<Rightarrow> store_error + RuleConfig" where
  "scan_rule r =
     (case DecodeJSONPayload (rr_config r) of Inl e \<Rightarrow> Inl (BadConfig e)
      | Inr c \<Rightarrow> Inr \<lparr>RCName = rr_name r, RCEnabled = rr_enabled r, RCConfig = c,
                       UpdatedAt = rr_updated r, UpdatedBy = rr_by r\<rparr>)"

text \<open>The loop over a result set, shared by the two listings.\<close>

fun scan_rows :: "('r \<Rightarrow> store_error + 'a) \<Rightarrow> nat option \<Rightarrow> 'r list \<Rightarrow> store_error + 'a list" where
  "scan_rows scan brk [] = (if brk = None then Inr [] else Inl StoreFailed)"
| "scan_rows scan brk (r # rs) =
     (if brk = Some 0 then Inl StoreFailed
      else case scan r of Inl e \<Rightarrow> Inl e
           | Inr x \<Rightarrow> (case scan_rows scan (map_option (\<lambda>n. n - 1) brk) rs of
                         Inl e \<Rightarrow> Inl e | Inr xs \<Rightarrow> Inr (x # xs)))"

definition Rules :: "RuleSQL \<Rightarrow> bool \<Rightarrow> nat option \<Rightarrow> RuleTables \<Rightarrow> store_error + RuleConfig list" where
  "Rules sql up brk db =
     (if \<not> up then Inl StoreFailed
      else scan_rows scan_rule brk (sort_key (\<lambda>r. text_collate sql (rr_name r)) (rules_table db)))"

definition EnabledMap :: "RuleSQL \<Rightarrow> bool \<Rightarrow> nat option \<Rightarrow> RuleTables \<Rightarrow> store_error + bool gomap" where
  "EnabledMap sql up brk db =
     (case Rules sql up brk db of Inl e \<Rightarrow> Inl e
      | Inr rs \<Rightarrow> Inr (foldl (\<lambda>m r. map_put (RCName r) (RCEnabled r) m) [] rs))"

text \<open>The \<^verbatim>\<open>UPDATE\<close> of one row and what it returns; the name is the primary key.\<close>

definition update_rule :: "string \<Rightarrow> bool \<Rightarrow> string \<Rightarrow> time \<Rightarrow> rule_row \<Rightarrow> rule_row" where
  "update_rule name on actor now r =
     (if rr_name r = name then r\<lparr>rr_enabled := on, rr_updated := now, rr_by := actor\<rparr> else r)"

definition store_SetEnabled :: "bool \<Rightarrow> time \<Rightarrow> string \<Rightarrow> bool \<Rightarrow> string \<Rightarrow> RuleTables
    \<Rightarrow> (store_error + RuleConfig) \<times> RuleTables" where
  "store_SetEnabled up now name on actor db =
     (if \<not> up then (Inl StoreFailed, db)
      else let rows = map (update_rule name on actor now) (rules_table db) in
        case find (\<lambda>r. rr_name r = name) rows of
          None \<Rightarrow> (Inl (ErrUnknownRule name), db)
        | Some r \<Rightarrow> (scan_rule r, db\<lparr>rules_table := rows\<rparr>))"

subsection \<open>The access list\<close>

definition scan_ip :: "RuleSQL \<Rightarrow> ip_row \<Rightarrow> store_error + IPRule" where
  "scan_ip sql r = Inr \<lparr>CIDR = cidr_out sql (ir_cidr r), Action = ir_action r, Note = ir_note r,
                        CreatedAt = ir_created r, CreatedBy = ir_by r\<rparr>"

definition IPRules :: "RuleSQL \<Rightarrow> bool \<Rightarrow> nat option \<Rightarrow> RuleTables \<Rightarrow> store_error + IPRule list" where
  "IPRules sql up brk db =
     (if \<not> up then Inl StoreFailed
      else scan_rows (scan_ip sql) brk
             (sort_key (\<lambda>r. (text_collate sql (ir_action r), cidr_rank sql (ir_cidr r))) (ip_table db)))"

text \<open>\<^verbatim>\<open>INSERT ... ON CONFLICT (cidr) DO UPDATE\<close>.\<close>

definition upsert_ip :: "ip_row \<Rightarrow> ip_row list \<Rightarrow> ip_row list" where
  "upsert_ip row rows =
     (if \<exists>r \<in> set rows. ir_cidr r = ir_cidr row
      then map (\<lambda>r. if ir_cidr r = ir_cidr row then row else r) rows else rows @ [row])"

definition AddIPRule :: "RuleSQL \<Rightarrow> bool \<Rightarrow> time \<Rightarrow> IPRule \<Rightarrow> string \<Rightarrow> RuleTables
    \<Rightarrow> (store_error + IPRule) \<times> RuleTables" where
  "AddIPRule sql up now rule actor db =
     (if Action rule \<noteq> ActionAllow \<and> Action rule \<noteq> ActionDeny then (Inl (BadAction (Action rule)), db)
      else if \<not> up then (Inl StoreFailed, db)
      else case cidr_in sql (CIDR rule) of None \<Rightarrow> (Inl StoreFailed, db)
        | Some p \<Rightarrow>
           (let row = \<lparr>ir_cidr = p, ir_action = Action rule, ir_note = Note rule, ir_created = now, ir_by = actor\<rparr>
            in (scan_ip sql row, db\<lparr>ip_table := upsert_ip row (ip_table db)\<rparr>)))"

definition DeleteIPRule :: "RuleSQL \<Rightarrow> bool \<Rightarrow> string \<Rightarrow> RuleTables \<Rightarrow> (store_error + bool) \<times> RuleTables" where
  "DeleteIPRule sql up cidr db =
     (if \<not> up then (Inl StoreFailed, db)
      else case cidr_in sql cidr of None \<Rightarrow> (Inl StoreFailed, db)
        | Some p \<Rightarrow>
           (let rest = filter (\<lambda>r. ir_cidr r \<noteq> p) (ip_table db)
            in (Inr (length (ip_table db) - length rest > 0), db\<lparr>ip_table := rest\<rparr>)))"

subsection \<open>Well-formed tables\<close>

text \<open>The primary keys of the two tables, and configuration documents that decode.\<close>

definition tables_ok :: "RuleTables \<Rightarrow> bool" where
  "tables_ok db \<longleftrightarrow> distinct (map rr_name (rules_table db)) \<and> distinct (map ir_cidr (ip_table db))
     \<and> list_all (\<lambda>r. \<not> isl (DecodeJSONPayload (rr_config r))) (rules_table db)
     \<and> list_all (\<lambda>r. ir_action r = ActionAllow \<or> ir_action r = ActionDeny) (ip_table db)"

lemma update_rule_fields [simp]:
  "rr_name (update_rule n on a t r) = rr_name r" "rr_config (update_rule n on a t r) = rr_config r"
  by (simp_all add: update_rule_def)

lemma upsert_keys: "map ir_cidr (upsert_ip row rows) =
    (if ir_cidr row \<in> set (map ir_cidr rows) then map ir_cidr rows else map ir_cidr rows @ [ir_cidr row])"
proof -
  have "(\<exists>r \<in> set rows. ir_cidr r = ir_cidr row) \<longleftrightarrow> ir_cidr row \<in> set (map ir_cidr rows)"
    unfolding set_map image_iff by (rule bex_cong [OF refl eq_commute])
  then show ?thesis by (auto simp: upsert_ip_def)
qed

lemma tables_ok_ops [wf_intros]:
  assumes "tables_ok db"
  shows "tables_ok (snd (store_SetEnabled up now name on actor db))"
    "tables_ok (snd (AddIPRule sql up now rule actor db))"
    "tables_ok (snd (DeleteIPRule sql up cidr db))"
proof -
  show "tables_ok (snd (store_SetEnabled up now name on actor db))"
    using assms by (auto simp: tables_ok_def store_SetEnabled_def Let_def comp_def list_all_iff split: option.splits)
  show "tables_ok (snd (AddIPRule sql up now rule actor db))"
    using assms
    by (auto simp: tables_ok_def AddIPRule_def Let_def upsert_keys list_all_iff split: option.splits;
        auto simp: upsert_ip_def split: if_splits)
  show "tables_ok (snd (DeleteIPRule sql up cidr db))"
    using assms
    by (auto simp: tables_ok_def DeleteIPRule_def Let_def list_all_iff distinct_map_filter split: option.splits)
qed
subsection \<open>Listings\<close>

lemma scan_rows_whole:
  "(\<And>r. r \<in> set rs \<Longrightarrow> \<not> isl (scan r)) \<Longrightarrow> scan_rows scan None rs = Inr (map (\<lambda>r. projr (scan r)) rs)"
proof (induction rs)
  case (Cons r rs)
  then show ?case using Cons.prems [of r] by (cases "scan r") auto
qed simp

lemma scan_rows_interrupted: "scan_rows scan (Some n) rs \<noteq> Inr xs"
  by (induction scan "Some n" rs arbitrary: n xs rule: scan_rows.induct) (auto split: sum.splits)

lemma Rules_ok:
  assumes "tables_ok db"
  obtains rs where "Rules sql True None db = Inr rs"
    "mset (map (\<lambda>c. (RCName c, RCEnabled c)) rs) = mset (map (\<lambda>r. (rr_name r, rr_enabled r)) (rules_table db))"
proof -
  let ?rows = "sort_key (\<lambda>r. text_collate sql (rr_name r)) (rules_table db)"
  have ok: "\<not> isl (scan_rule r)" if "r \<in> set ?rows" for r
    using assms that by (auto simp: tables_ok_def list_all_iff scan_rule_def split: sum.splits)
  have "(RCName (projr (scan_rule r)), RCEnabled (projr (scan_rule r))) = (rr_name r, rr_enabled r)"
    if "r \<in> set ?rows" for r
    using ok [OF that] by (auto simp: scan_rule_def split: sum.splits)
  then have "map (\<lambda>c. (RCName c, RCEnabled c)) (map (\<lambda>r. projr (scan_rule r)) ?rows)
      = map (\<lambda>r. (rr_name r, rr_enabled r)) ?rows"
    by (simp only: map_map comp_def cong: map_cong)
  then have "mset (map (\<lambda>c. (RCName c, RCEnabled c)) (map (\<lambda>r. projr (scan_rule r)) ?rows))
      = mset (map (\<lambda>r. (rr_name r, rr_enabled r)) (rules_table db))"
    by (simp only: mset_map mset_sort)
  moreover have "Rules sql True None db = Inr (map (\<lambda>r. projr (scan_rule r)) ?rows)"
    unfolding Rules_def using scan_rows_whole [OF ok, of ?rows] by simp
  ultimately show thesis using that by blast
qed

lemma bex_image_pair: "(\<exists>x \<in> S. n x = k \<and> e x) \<longleftrightarrow> (k, True) \<in> (\<lambda>x. (n x, e x)) ` S"
  by (auto simp: image_iff)

text \<open>The map the engine receives holds exactly the stored state of every rule.\<close>

lemma EnabledMap_ok:
  assumes "tables_ok db"
  obtains m where "EnabledMap sql True None db = Inr m"
    "\<And>k. map_get False m k = (\<exists>r \<in> set (rules_table db). rr_name r = k \<and> rr_enabled r)"
proof -
  obtain rs where rs: "Rules sql True None db = Inr rs"
    "mset (map (\<lambda>c. (RCName c, RCEnabled c)) rs) = mset (map (\<lambda>r. (rr_name r, rr_enabled r)) (rules_table db))"
    using assms by (rule Rules_ok)
  let ?m = "foldl (\<lambda>m r. map_put (RCName r) (RCEnabled r) m) [] rs"
  have pairs: "(k, b) \<in> (\<lambda>c. (RCName c, RCEnabled c)) ` set rs
      \<longleftrightarrow> (k, b) \<in> (\<lambda>r. (rr_name r, rr_enabled r)) ` set (rules_table db)" for k b
    using mset_eq_setD [OF rs(2)] by simp
  have stored_row: "\<exists>r \<in> set (rules_table db). rr_name r = RCName x \<and> rr_enabled r = RCEnabled x" if "x \<in> set rs" for x
  proof -
    have "(RCName x, RCEnabled x) \<in> (\<lambda>r. (rr_name r, rr_enabled r)) ` set (rules_table db)"
      unfolding pairs [symmetric] using that by (rule imageI)
    then show ?thesis by auto
  qed
  have uniq: "RCEnabled x = RCEnabled y" if "x \<in> set rs" "y \<in> set rs" "RCName x = RCName y" for x y
  proof -
    have inj: "r = q" if "r \<in> set (rules_table db)" "q \<in> set (rules_table db)" "rr_name r = rr_name q" for r q
      using assms that by (auto simp: tables_ok_def distinct_map inj_on_def)
    show ?thesis using stored_row [OF that(1)] stored_row [OF that(2)] that(3) inj by fastforce
  qed
  have "map_get False ?m k = (\<exists>c \<in> set rs. RCName c = k \<and> RCEnabled c)" for k
  proof (cases "\<exists>c \<in> set rs. RCName c = k")
    case True
    then obtain c where c: "c \<in> set rs" "RCName c = k" by blast
    have "map_get False ?m (RCName c) = RCEnabled c" by (rule map_get_fold_name [OF uniq c(1)])
    moreover have "RCEnabled d = RCEnabled c" if "d \<in> set rs" "RCName d = k" for d
      using uniq [OF that(1) c(1)] that(2) c(2) by simp
    then have "(\<exists>d \<in> set rs. RCName d = k \<and> RCEnabled d) \<longleftrightarrow> RCEnabled c" using c by blast
    ultimately show ?thesis using c(2) by (simp only:)
  next
    case False
    then have "k \<notin> set (keys ?m)" by (auto simp: fold_put_keys)
    then show ?thesis using False map_get_not_key by metis
  qed
  then have "map_get False ?m k = (\<exists>r \<in> set (rules_table db). rr_name r = k \<and> rr_enabled r)" for k
    unfolding bex_image_pair by (simp only: pairs)
  then show thesis using that rs(1) by (simp add: EnabledMap_def)
qed

subsection \<open>The access list as a map\<close>

definition access :: "RuleTables \<Rightarrow> Prefix \<rightharpoonup> string" where
  "access db = map_of (map (\<lambda>r. (ir_cidr r, ir_action r)) (ip_table db))"

text \<open>PostgreSQL reads a prefix as it was printed, and prints it so that it parses again.\<close>

definition cidr_ok :: "RuleSQL \<Rightarrow> Prefix \<Rightarrow> bool" where
  "cidr_ok sql p \<longleftrightarrow> cidr_in sql (Prefix_String p) = Some p \<and> ParsePrefix (cidr_out sql p) = Inr p"

definition list_inv :: "RuleSQL \<Rightarrow> RuleTables \<Rightarrow> bool" where
  "list_inv sql db \<longleftrightarrow> tables_ok db \<and> (\<forall>r \<in> set (ip_table db). cidr_ok sql (ir_cidr r))"

definition add_prefix :: "RuleSQL \<Rightarrow> time \<Rightarrow> string \<Rightarrow> string \<Rightarrow> Prefix \<Rightarrow> string \<Rightarrow> RuleTables \<Rightarrow> RuleTables" where
  "add_prefix sql now nt actor p act db =
     snd (AddIPRule sql True now \<lparr>CIDR = Prefix_String p, Action = act, Note = nt, CreatedAt = 0, CreatedBy = []\<rparr> actor db)"

definition delete_prefix :: "RuleSQL \<Rightarrow> Prefix \<Rightarrow> RuleTables \<Rightarrow> RuleTables" where
  "delete_prefix sql p db = snd (DeleteIPRule sql True (Prefix_String p) db)"

definition listed :: "RuleSQL \<Rightarrow> RuleTables \<Rightarrow> IPRule list" where
  "listed sql db = projr (IPRules sql True None db)"

lemma map_of_replace:
  "map_of (map (\<lambda>r. (f r, g r)) (map (\<lambda>r. if f r = f row then row else r) rows)) p
     = (if p = f row \<and> (\<exists>r \<in> set rows. f r = f row) then Some (g row) else map_of (map (\<lambda>r. (f r, g r)) rows) p)"
proof (induction rows)
  case (Cons r rows)
  then show ?case by (cases "f r = f row") (auto simp del: map_map split: if_splits)
qed simp

lemma access_upsert:
  "map_of (map (\<lambda>r. (ir_cidr r, ir_action r)) (upsert_ip row rows))
     = (map_of (map (\<lambda>r. (ir_cidr r, ir_action r)) rows))(ir_cidr row \<mapsto> ir_action row)"
proof (cases "\<exists>r \<in> set rows. ir_cidr r = ir_cidr row")
  case True
  show ?thesis
    using map_of_replace [where f = ir_cidr and g = ir_action and row = row and rows = rows] True
    unfolding upsert_ip_def if_P [OF True] fun_eq_iff fun_upd_def by presburger
next
  case False
  then have "map_of (map (\<lambda>r. (ir_cidr r, ir_action r)) rows) (ir_cidr row) = None"
    by (auto simp: map_of_eq_None_iff)
  with False show ?thesis by (auto simp: upsert_ip_def fun_eq_iff map_add_def split: option.splits)
qed

lemma access_delete:
  "map_of (map (\<lambda>r. (ir_cidr r, ir_action r)) (filter (\<lambda>r. ir_cidr r \<noteq> p) rows))
     = (map_of (map (\<lambda>r. (ir_cidr r, ir_action r)) rows))(p := None)"
  by (induction rows) (auto simp: fun_eq_iff)

lemma AddIPRule_ok:
  assumes "cidr_ok sql p" "Action rule = ActionAllow \<or> Action rule = ActionDeny" "CIDR rule = Prefix_String p"
  shows "AddIPRule sql True now rule actor db =
    (scan_ip sql \<lparr>ir_cidr = p, ir_action = Action rule, ir_note = Note rule, ir_created = now, ir_by = actor\<rparr>,
     db\<lparr>ip_table := upsert_ip \<lparr>ir_cidr = p, ir_action = Action rule, ir_note = Note rule, ir_created = now,
       ir_by = actor\<rparr> (ip_table db)\<rparr>)"
  using assms by (auto simp: AddIPRule_def cidr_ok_def Let_def)

lemma set_upsert: "set (upsert_ip row rows) \<subseteq> insert row (set rows)"
  by (auto simp: upsert_ip_def)

lemma add_prefix_inv:
  assumes "list_inv sql db" "cidr_ok sql p" "act = ActionAllow \<or> act = ActionDeny"
  shows "list_inv sql (add_prefix sql now nt actor p act db)"
    "access (add_prefix sql now nt actor p act db) = (access db)(p \<mapsto> act)"
proof -
  note add = AddIPRule_ok [OF assms(2), of "\<lparr>CIDR = Prefix_String p, Action = act, Note = nt, CreatedAt = 0, CreatedBy = []\<rparr>"]
  let ?row = "\<lparr>ir_cidr = p, ir_action = act, ir_note = nt, ir_created = now, ir_by = actor\<rparr>"
  have db': "add_prefix sql now nt actor p act db = db\<lparr>ip_table := upsert_ip ?row (ip_table db)\<rparr>"
    using assms(3) add by (simp add: add_prefix_def)
  have "tables_ok (add_prefix sql now nt actor p act db)"
    unfolding add_prefix_def using assms(1) by (intro tables_ok_ops) (simp add: list_inv_def)
  moreover have "cidr_ok sql (ir_cidr r)" if "r \<in> set (upsert_ip ?row (ip_table db))" for r
    using subsetD [OF set_upsert that] assms(1,2) by (auto simp: list_inv_def)
  ultimately show "list_inv sql (add_prefix sql now nt actor p act db)" by (simp add: list_inv_def db')
  show "access (add_prefix sql now nt actor p act db) = (access db)(p \<mapsto> act)"
    using assms(3) add by (simp add: add_prefix_def access_def access_upsert)
qed

lemma delete_prefix_inv:
  assumes "list_inv sql db" "cidr_ok sql p"
  shows "list_inv sql (delete_prefix sql p db)"
    "access (delete_prefix sql p db) = (access db)(p := None)"
proof -
  have del: "DeleteIPRule sql True (Prefix_String p) db =
      (Inr (length (ip_table db) - length (filter (\<lambda>r. ir_cidr r \<noteq> p) (ip_table db)) > 0),
       db\<lparr>ip_table := filter (\<lambda>r. ir_cidr r \<noteq> p) (ip_table db)\<rparr>)"
    using assms(2) by (simp add: DeleteIPRule_def cidr_ok_def Let_def)
  then show "list_inv sql (delete_prefix sql p db)"
    using assms tables_ok_ops(3) [of db sql True "Prefix_String p"] by (simp add: list_inv_def delete_prefix_def)
  show "access (delete_prefix sql p db) = (access db)(p := None)"
    by (simp add: delete_prefix_def del access_def access_delete)
qed

lemma listed_rows: "IPRules sql True None db = Inr (listed sql db)"
  "set (listed sql db) = (\<lambda>r. \<lparr>CIDR = cidr_out sql (ir_cidr r), Action = ir_action r, Note = ir_note r,
      CreatedAt = ir_created r, CreatedBy = ir_by r\<rparr>) ` set (ip_table db)"
proof -
  have "scan_rows (scan_ip sql) None rs = Inr (map (\<lambda>r. projr (scan_ip sql r)) rs)" for rs
    by (rule scan_rows_whole) (simp add: scan_ip_def)
  then show "IPRules sql True None db = Inr (listed sql db)"
    "set (listed sql db) = (\<lambda>r. \<lparr>CIDR = cidr_out sql (ir_cidr r), Action = ir_action r, Note = ir_note r,
      CreatedAt = ir_created r, CreatedBy = ir_by r\<rparr>) ` set (ip_table db)"
    by (simp_all add: IPRules_def listed_def scan_ip_def)
qed

lemma listed_access:
  assumes "list_inv sql db"
  shows "(\<exists>e \<in> set (listed sql db). Action e = act \<and> ParsePrefix (CIDR e) = Inr p) \<longleftrightarrow> access db p = Some act"
proof -
  have "distinct (map fst (map (\<lambda>r. (ir_cidr r, ir_action r)) (ip_table db)))"
    using assms by (simp add: list_inv_def tables_ok_def comp_def)
  then have "access db p = Some act \<longleftrightarrow> (\<exists>r \<in> set (ip_table db). ir_cidr r = p \<and> ir_action r = act)"
    unfolding access_def by (auto simp: map_of_eq_Some_iff)
  moreover have "ParsePrefix (cidr_out sql (ir_cidr r)) = Inr (ir_cidr r)" if "r \<in> set (ip_table db)" for r
    using assms that by (auto simp: list_inv_def cidr_ok_def)
  ultimately show ?thesis unfolding listed_rows(2) by auto
qed

text \<open>
  The contract, and what enforcing the list amounts to under it: an address is refused when a deny
  entry covers it and no allow entry does.
\<close>

locale access_list =
  fixes ok :: "Prefix \<Rightarrow> bool" and inv :: "'s \<Rightarrow> bool" and entries :: "'s \<Rightarrow> Prefix \<rightharpoonup> string"
    and add :: "Prefix \<Rightarrow> string \<Rightarrow> 's \<Rightarrow> 's" and del :: "Prefix \<Rightarrow> 's \<Rightarrow> 's" and rows :: "'s \<Rightarrow> IPRule list"
  assumes inv_add: "inv s \<Longrightarrow> ok p \<Longrightarrow> act = ActionAllow \<or> act = ActionDeny \<Longrightarrow> inv (add p act s)"
    and inv_del: "inv s \<Longrightarrow> ok p \<Longrightarrow> inv (del p s)"
    and entries_add: "inv s \<Longrightarrow> ok p \<Longrightarrow> act = ActionAllow \<or> act = ActionDeny \<Longrightarrow>
      entries (add p act s) = (entries s)(p \<mapsto> act)"
    and entries_del: "inv s \<Longrightarrow> ok p \<Longrightarrow> entries (del p s) = (entries s)(p := None)"
    and rows_entries: "inv s \<Longrightarrow>
      (\<exists>e \<in> set (rows s). Action e = act \<and> ParsePrefix (CIDR e) = Inr p) \<longleftrightarrow> entries s p = Some act"
begin

definition enforced :: "'s \<Rightarrow> IPBlock" where
  "enforced s = fst (ipblock_Set (rows s) NewIPBlock)"

definition covered :: "string \<Rightarrow> Addr \<Rightarrow> 's \<Rightarrow> bool" where
  "covered act a s \<longleftrightarrow> (\<exists>p. entries s p = Some act \<and> Contains p a)"

lemma enforced_iff:
  assumes "inv s"
  shows "fst (fst (ipblock_Evaluate req (enforced s))) = Block \<longleftrightarrow>
    (\<exists>a. ParseAddr (IP req) = Some a \<and> covered ActionDeny a s \<and> \<not> covered ActionAllow a s)"
  unfolding ipblock_block_iff enforced_def ipblock_Set_lists Bex_def mem_prefixes_of covered_def
    rows_entries [OF assms, symmetric] ActionAllow_def ActionDeny_def by blast

lemma deny_enforced:
  assumes "inv s" "ok p" "ParseAddr (IP req) = Some a" "Contains p a"
    "\<not> (\<exists>q. q \<noteq> p \<and> entries s q = Some ActionAllow \<and> Contains q a)"
  shows "fst (fst (ipblock_Evaluate req (enforced (add p ActionDeny s)))) = Block"
  using assms enforced_iff [OF inv_add [OF assms(1,2)]] entries_add [OF assms(1,2)]
  by (auto simp: covered_def ActionAllow_def ActionDeny_def)

lemma delete_lifts:
  assumes "inv s" "ok p" "ParseAddr (IP req) = Some a"
    "\<not> (\<exists>q. q \<noteq> p \<and> entries s q = Some ActionDeny \<and> Contains q a)"
  shows "fst (fst (ipblock_Evaluate req (enforced (del p s)))) = Allow"
  using assms enforced_iff [OF inv_del [OF assms(1,2)], of req] entries_del [OF assms(1,2)]
  by (cases "fst (fst (ipblock_Evaluate req (enforced (del p s))))") (auto simp: covered_def split: if_splits)

end

interpretation rulestore: access_list "cidr_ok sql" "list_inv sql" access "add_prefix sql now nt actor"
    "delete_prefix sql" "listed sql" for sql now nt actor
  by unfold_locales (simp_all add: add_prefix_inv delete_prefix_inv listed_access)

subsection \<open>Properties\<close>

lemma AddIPRule_add_prefix:
  "CIDR rule = Prefix_String p \<Longrightarrow>
     snd (AddIPRule sql True now rule actor db) = add_prefix sql now (Note rule) actor p (Action rule) db"
  by (simp add: add_prefix_def AddIPRule_def Let_def split: option.splits)

lemma delete_reports:
  assumes "cidr_ok sql p"
  shows "fst (DeleteIPRule sql True (Prefix_String p) db) = Inr (access db p \<noteq> None)"
proof -
  have "length (filter (\<lambda>r. ir_cidr r \<noteq> p) rs) < length rs \<longleftrightarrow> p \<in> ir_cidr ` set rs" for rs
    by (induction rs) (auto simp: less_Suc_eq_le)
  moreover have "access db p \<noteq> None \<longleftrightarrow> p \<in> ir_cidr ` set (ip_table db)"
    unfolding access_def map_of_eq_None_iff by (simp add: image_image)
  ultimately show ?thesis using assms by (simp add: DeleteIPRule_def cidr_ok_def Let_def)
qed

text \<open>C23: The stored access list is a map from prefixes to actions. Adding a rule for a normalised prefix
  replaces the action of that prefix and of no other, so a prefix is never both allowed and denied; deleting
  removes that prefix only and reports whether it was there; both keep the tables well formed; and listing
  the table yields exactly the entries of the map.\<close>

theorem access_list_refines_map:
  assumes "list_inv sql db" "cidr_ok sql p" "Action rule = ActionAllow \<or> Action rule = ActionDeny"
    "CIDR rule = Prefix_String p"
  shows "access (snd (AddIPRule sql True now rule actor db)) = (access db)(p \<mapsto> Action rule)
    \<and> access (snd (DeleteIPRule sql True (Prefix_String p) db)) = (access db)(p := None)
    \<and> fst (DeleteIPRule sql True (Prefix_String p) db) = Inr (access db p \<noteq> None)
    \<and> list_inv sql (snd (AddIPRule sql True now rule actor db))
    \<and> list_inv sql (snd (DeleteIPRule sql True (Prefix_String p) db))
    \<and> (\<exists>rows. IPRules sql True None db = Inr rows \<and>
        (\<forall>q act. (\<exists>e \<in> set rows. Action e = act \<and> ParsePrefix (CIDR e) = Inr q) \<longleftrightarrow> access db q = Some act))"
proof -
  have "list_inv sql (snd (AddIPRule sql True now rule actor db))"
    "access (snd (AddIPRule sql True now rule actor db)) = (access db)(p \<mapsto> Action rule)"
    using add_prefix_inv [OF assms(1-3)] AddIPRule_add_prefix [OF assms(4)] by simp_all
  moreover note delete_prefix_inv [OF assms(1,2), unfolded delete_prefix_def] delete_reports [OF assms(2)]
  moreover have "\<exists>rows. IPRules sql True None db = Inr rows \<and>
      (\<forall>q act. (\<exists>e \<in> set rows. Action e = act \<and> ParsePrefix (CIDR e) = Inr q) \<longleftrightarrow> access db q = Some act)"
    using listed_rows(1) [of sql db] listed_access [OF assms(1)] by (intro exI conjI allI)
  ultimately show ?thesis by (intro conjI)
qed

text \<open>PostgreSQL's own reading of a prefix: it refuses one with bits beyond its length.\<close>

definition plain_sql :: RuleSQL where
  "plain_sql = \<lparr>cidr_in = (\<lambda>s. case netip_ParsePrefix s of None \<Rightarrow> None | Some p \<Rightarrow> if Masked p = p then Some p else None),
     cidr_out = Prefix_String, cidr_rank = (\<lambda>p. int (pbits p)), text_collate = id\<rparr>"

lemma plain_cidr_ok:
  assumes "ParsePrefix s = Inr p" "paddr p = V4 a"
  shows "cidr_ok plain_sql p"
proof -
  note canon = ParsePrefix_canonical [OF assms(1)]
  have p: "p = \<lparr>paddr = V4 a, pbits = pbits p\<rparr>" using assms(2) by (cases p) simp
  have "pbits p \<le> 32" using canon assms(2) by (simp add: BitLen_def)
  then have "netip_ParsePrefix (Prefix_String p) = Some p" using netip_ParsePrefix_V4 p by metis
  then show ?thesis using canon by (simp add: cidr_ok_def plain_sql_def ParsePrefix_def)
qed

definition office :: Prefix where
  "office = \<lparr>paddr = V4 0x0A000000, pbits = 8\<rparr>"

definition office_rule :: IPRule where
  "office_rule = \<lparr>CIDR = Prefix_String office, Action = ActionDeny, Note = ''lan'', CreatedAt = 0, CreatedBy = []\<rparr>"

definition empty_tables :: RuleTables where
  "empty_tables = \<lparr>rules_table = [], ip_table = []\<rparr>"

lemma office_ok: "cidr_ok plain_sql office"
proof (rule plain_cidr_ok)
  show "ParsePrefix ''10.1.2.3/8'' = Inr office" unfolding office_def by code_simp
qed (simp add: office_def)

lemma empty_tables_inv: "list_inv sql empty_tables"
  by (simp add: list_inv_def empty_tables_def tables_ok_def)

theorem access_list_refines_map_witness:
  "access (snd (AddIPRule plain_sql True 7 office_rule ''ops'' empty_tables)) = [office \<mapsto> ActionDeny]
   \<and> fst (DeleteIPRule plain_sql True (Prefix_String office) empty_tables) = Inr False"
proof -
  have "access empty_tables = Map.empty" by (simp add: access_def empty_tables_def)
  then show ?thesis
    using access_list_refines_map [OF empty_tables_inv office_ok, of office_rule 7 "''ops''"]
    by (simp add: office_rule_def)
qed

end
