(* ===== verification/Config.thy ===== *)
theory Config
  imports Netip Go_Time Go_Utf8
begin

text \<open>
  \<^verbatim>\<open>internal/config/config.go\<close>: the settings of the two programs, read from the environment. The
  environment is a function from names to texts. A loader returns the settings together with the list of
  everything that is wrong with them; the program starts only when the list is empty.
\<close>

datatype config_error =
    Missing string
  | NotInteger string string
  | NotBoolean string string
  | NotCIDR string string
  | OutOfRange string
  | ShortSecret
  | NotBcrypt

type_synonym environ = "string \<Rightarrow> string option"

subsection \<open>Readers\<close>

definition getenv :: "environ \<Rightarrow> string \<Rightarrow> string" where
  "getenv env key = (case env key of None \<Rightarrow> [] | Some v \<Rightarrow> v)"

definition str :: "environ \<Rightarrow> string \<Rightarrow> string \<Rightarrow> string" where
  "str env key fallback = (case env key of Some v \<Rightarrow> if v \<noteq> [] then v else fallback | None \<Rightarrow> fallback)"

text \<open>A reader that can fail returns its value and the errors it appends.\<close>

definition required :: "environ \<Rightarrow> string \<Rightarrow> string \<times> config_error list" where
  "required env key = (let v = trim_space (getenv env key) in (v, if v = [] then [Missing key] else []))"

definition integer :: "environ \<Rightarrow> string \<Rightarrow> int \<Rightarrow> int \<times> config_error list" where
  "integer env key fallback =
     (case env key of None \<Rightarrow> (fallback, [])
      | Some raw \<Rightarrow>
          if raw = [] then (fallback, [])
          else case parse_int raw of None \<Rightarrow> (fallback, [NotInteger key raw]) | Some n \<Rightarrow> (n, []))"

text \<open>The product of an \<^verbatim>\<open>int\<close> and a second wraps in 64 bits.\<close>

definition seconds :: "environ \<Rightarrow> string \<Rightarrow> int \<Rightarrow> duration \<times> config_error list" where
  "seconds env key fallback =
     (case integer env key fallback of (n, errs) \<Rightarrow> (wrap64 (n * 1000000000), errs))"

definition parse_bool :: "string \<Rightarrow> bool option" where
  "parse_bool s =
     (if s \<in> set [''1'', ''t'', ''T'', ''true'', ''TRUE'', ''True''] then Some True
      else if s \<in> set [''0'', ''f'', ''F'', ''false'', ''FALSE'', ''False''] then Some False else None)"

definition boolean :: "environ \<Rightarrow> string \<Rightarrow> bool \<Rightarrow> bool \<times> config_error list" where
  "boolean env key fallback =
     (case env key of None \<Rightarrow> (fallback, [])
      | Some raw \<Rightarrow>
          if raw = [] then (fallback, [])
          else case parse_bool raw of None \<Rightarrow> (fallback, [NotBoolean key raw]) | Some b \<Rightarrow> (b, []))"

text \<open>\<^verbatim>\<open>strings.Fields\<close>: the maximal runs of runes that are not white space.\<close>

fun field_runs :: "string \<Rightarrow> (nat \<times> string) list \<Rightarrow> string list" where
  "field_runs cur [] = (if cur = [] then [] else [cur])"
| "field_runs cur (rc # rcs) =
     (if is_space_rune (fst rc) then (if cur = [] then [] else [cur]) @ field_runs [] rcs
      else field_runs (cur @ snd rc) rcs)"

definition strings_fields :: "string \<Rightarrow> string list" where
  "strings_fields s = field_runs [] (utf8_chunks s)"

fun read_prefixes :: "string \<Rightarrow> string list \<Rightarrow> Prefix list \<times> config_error list" where
  "read_prefixes key [] = ([], [])"
| "read_prefixes key (f # fs) =
     (case read_prefixes key fs of (ps, errs) \<Rightarrow>
        (case netip_ParsePrefix f of None \<Rightarrow> (ps, NotCIDR key f # errs) | Some p \<Rightarrow> (Masked p # ps, errs)))"

definition prefixes :: "environ \<Rightarrow> string \<Rightarrow> Prefix list \<times> config_error list" where
  "prefixes env key =
     (let raw = trim_space (getenv env key) in
      if raw = [] then ([], []) else read_prefixes key (strings_fields (replace_all (CHR '','') '' '' raw)))"

subsection \<open>The engine\<close>

record EngineConfig =
  ecAddr :: string
  ecPostgresDSN :: string
  ecRedisAddr :: string
  ecRedisPass :: string
  ecRedisDB :: int
  ecAuditBuffer :: int
  ecEventsChannel :: string
  ecRateLimitRequests :: int
  ecRateLimitWindow :: duration
  ecMaxBodyInspect :: int
  ecLogLevel :: string

definition engine_checks :: "EngineConfig \<Rightarrow> config_error list" where
  "engine_checks cfg =
     (if ecRateLimitRequests cfg \<le> 0 then [OutOfRange ''OS_RATELIMIT_REQUESTS''] else [])
     @ (if ecRateLimitWindow cfg \<le> 0 then [OutOfRange ''OS_RATELIMIT_WINDOW_S''] else [])
     @ (if ecMaxBodyInspect cfg < 0 then [OutOfRange ''OS_MAX_BODY_INSPECT_BYTES''] else [])"

definition LoadEngine :: "environ \<Rightarrow> EngineConfig \<times> config_error list" where
  "LoadEngine env =
     (let (dsn, e1) = required env ''OS_POSTGRES_DSN'';
          (db, e2) = integer env ''OS_REDIS_DB'' 0;
          (buf, e3) = integer env ''OS_AUDIT_BUFFER'' 4096;
          (reqs, e4) = integer env ''OS_RATELIMIT_REQUESTS'' 100;
          (win, e5) = seconds env ''OS_RATELIMIT_WINDOW_S'' 60;
          (mx, e6) = integer env ''OS_MAX_BODY_INSPECT_BYTES'' 8192;
          cfg = \<lparr>ecAddr = str env ''OS_ENGINE_ADDR'' '':8080'', ecPostgresDSN = dsn,
                 ecRedisAddr = str env ''OS_REDIS_ADDR'' ''redis:6379'',
                 ecRedisPass = str env ''OS_REDIS_PASSWORD'' [], ecRedisDB = db, ecAuditBuffer = buf,
                 ecEventsChannel = str env ''OS_EVENTS_CHANNEL'' ''openshield:events'',
                 ecRateLimitRequests = reqs, ecRateLimitWindow = win, ecMaxBodyInspect = mx,
                 ecLogLevel = str env ''OS_LOG_LEVEL'' ''info''\<rparr>
      in (cfg, e1 @ e2 @ e3 @ e4 @ e5 @ e6 @ engine_checks cfg))"

subsection \<open>The dashboard\<close>

record DashboardConfig =
  dcAddr :: string
  dcPostgresDSN :: string
  dcRedisAddr :: string
  dcRedisPass :: string
  dcRedisDB :: int
  dcEventsChannel :: string
  dcAdminUser :: string
  dcAdminPasswordHash :: string
  dcSessionSecret :: string
  dcSessionTTL :: duration
  dcSecureCookies :: bool
  dcTrustedProxies :: "Prefix list"
  dcLogLevel :: string

definition dashboard_checks :: "DashboardConfig \<Rightarrow> config_error list" where
  "dashboard_checks cfg =
     (if dcSessionSecret cfg \<noteq> [] \<and> length (dcSessionSecret cfg) < 32 then [ShortSecret] else [])
     @ (if dcAdminPasswordHash cfg \<noteq> [] \<and> \<not> has_prefix (dcAdminPasswordHash cfg) ''$2'' then [NotBcrypt] else [])"

definition LoadDashboard :: "environ \<Rightarrow> DashboardConfig \<times> config_error list" where
  "LoadDashboard env =
     (let (dsn, e1) = required env ''OS_POSTGRES_DSN'';
          (db, e2) = integer env ''OS_REDIS_DB'' 0;
          (hash, e3) = required env ''OS_ADMIN_PASSWORD_HASH'';
          (secret, e4) = required env ''OS_SESSION_SECRET'';
          (ttl, e5) = seconds env ''OS_SESSION_TTL_S'' 28800;
          (sec, e6) = boolean env ''OS_SECURE_COOKIES'' False;
          (proxies, e7) = prefixes env ''OS_TRUSTED_PROXY'';
          cfg = \<lparr>dcAddr = str env ''OS_DASHBOARD_ADDR'' '':8081'', dcPostgresDSN = dsn,
                 dcRedisAddr = str env ''OS_REDIS_ADDR'' ''redis:6379'',
                 dcRedisPass = str env ''OS_REDIS_PASSWORD'' [], dcRedisDB = db,
                 dcEventsChannel = str env ''OS_EVENTS_CHANNEL'' ''openshield:events'',
                 dcAdminUser = str env ''OS_ADMIN_USER'' ''admin'', dcAdminPasswordHash = hash,
                 dcSessionSecret = secret, dcSessionTTL = ttl, dcSecureCookies = sec,
                 dcTrustedProxies = proxies, dcLogLevel = str env ''OS_LOG_LEVEL'' ''info''\<rparr>
      in (cfg, e1 @ e2 @ e3 @ e4 @ e5 @ e6 @ e7 @ dashboard_checks cfg))"

subsection \<open>No silent fallback\<close>

text \<open>The value a setting has when it is set, and its default otherwise.\<close>

definition setting :: "environ \<Rightarrow> string \<Rightarrow> int \<Rightarrow> int option" where
  "setting env key fallback =
     (case env key of None \<Rightarrow> Some fallback | Some raw \<Rightarrow> if raw = [] then Some fallback else parse_int raw)"

lemma integer_ok: "integer env key fallback = (n, []) \<Longrightarrow> setting env key fallback = Some n"
  by (auto simp: integer_def setting_def split: option.splits if_splits)

lemma seconds_ok:
  "seconds env key fallback = (d, []) \<Longrightarrow> \<exists>n. setting env key fallback = Some n \<and> d = wrap64 (n * 1000000000)"
  using integer_ok by (auto simp: seconds_def split: prod.splits)

lemma required_ok: "required env key = (v, []) \<Longrightarrow> v \<noteq> [] \<and> v = trim_space (getenv env key)"
  by (auto simp: required_def Let_def split: if_splits)

lemma read_prefixes_ok:
  "read_prefixes key fs = (ps, []) \<Longrightarrow> map (\<lambda>f. map_option Masked (netip_ParsePrefix f)) fs = map Some ps"
  by (induction fs arbitrary: ps) (auto split: prod.splits option.splits)

lemma field_runs_graphic: "graphic s \<Longrightarrow> s \<noteq> [] \<Longrightarrow> strings_fields s = [s]"
proof -
  assume g: "graphic s" "s \<noteq> []"
  have "field_runs cur (map (\<lambda>c. (code c, [c])) t) = (if cur @ t = [] then [] else [cur @ t])"
    if "set t \<subseteq> set s" for cur t
    using that graphic_chunks(2) [OF g(1)] by (induction t arbitrary: cur) auto
  then show ?thesis using g by (simp add: strings_fields_def graphic_chunks)
qed

subsection \<open>Properties\<close>

lemma LoadEngine_parts:
  assumes "LoadEngine env = (ec, [])"
  shows "integer env ''OS_AUDIT_BUFFER'' 4096 = (ecAuditBuffer ec, [])"
    "integer env ''OS_RATELIMIT_REQUESTS'' 100 = (ecRateLimitRequests ec, [])"
    "seconds env ''OS_RATELIMIT_WINDOW_S'' 60 = (ecRateLimitWindow ec, [])"
    "integer env ''OS_MAX_BODY_INSPECT_BYTES'' 8192 = (ecMaxBodyInspect ec, [])"
    "required env ''OS_POSTGRES_DSN'' = (ecPostgresDSN ec, [])" "engine_checks ec = []"
  using assms unfolding LoadEngine_def Let_def case_prod_beta prod.inject append_is_Nil_conv
  by (auto simp: prod_eq_iff)

lemma LoadDashboard_parts:
  assumes "LoadDashboard env = (dc, [])"
  shows "required env ''OS_POSTGRES_DSN'' = (dcPostgresDSN dc, [])"
    "required env ''OS_ADMIN_PASSWORD_HASH'' = (dcAdminPasswordHash dc, [])"
    "required env ''OS_SESSION_SECRET'' = (dcSessionSecret dc, [])"
    "prefixes env ''OS_TRUSTED_PROXY'' = (dcTrustedProxies dc, [])" "dashboard_checks dc = []"
  using assms unfolding LoadDashboard_def Let_def case_prod_beta prod.inject append_is_Nil_conv
  by (auto simp: prod_eq_iff)


definition sample_env :: environ where
  "sample_env = [''OS_POSTGRES_DSN'' \<mapsto> ''postgres://db'', ''OS_RATELIMIT_WINDOW_S'' \<mapsto> ''30'',
     ''OS_ADMIN_PASSWORD_HASH'' \<mapsto> ''$2a$10$x'', ''OS_SESSION_SECRET'' \<mapsto> replicate 32 (CHR ''s''),
     ''OS_TRUSTED_PROXY'' \<mapsto> ''10.0.0.1/8'']"

lemma sample_graphic:
  "graphic ''postgres://db''" "graphic ''$2a$10$x''" "graphic (replicate 32 (CHR ''s''))" "graphic ''10.0.0.1/8''"
  by (simp_all add: graphic_def code_def list_all_iff)

lemma sample_numbers:
  "parse_int ''30'' = Some 30" "parse_int ''18446744074'' = Some 18446744074"
  by (simp_all add: parse_int_def nat_of_dec_def digit_val_def code_def is_digit_def in_int64_def
      int64_min_def int64_max_def)

lemma sample_prefix: "netip_ParsePrefix ''10.0.0.1/8'' = Some \<lparr>paddr = V4 0x0A000001, pbits = 8\<rparr>"
  by code_simp

lemmas sample_load = LoadEngine_def LoadDashboard_def required_def integer_def seconds_def boolean_def getenv_def
  str_def prefixes_def sample_env_def engine_checks_def dashboard_checks_def wrap64_def replace_all_def
  sample_numbers sample_prefix trim_space_graphic [OF sample_graphic(1)] trim_space_graphic [OF sample_graphic(2)]
  trim_space_graphic [OF sample_graphic(3)] trim_space_graphic [OF sample_graphic(4)]
  field_runs_graphic [OF sample_graphic(4)] has_prefix_def


text \<open>A window can wrap around. The window is an integer of seconds times a thousand million in 64 bits; a
  request for 18446744074 seconds, 584 years, is accepted as a window of 0.29 seconds.\<close>

lemma window_overflow_accepted:
  "LoadEngine (sample_env(''OS_RATELIMIT_WINDOW_S'' \<mapsto> ''18446744074''))
     = (fst (LoadEngine sample_env)\<lparr>ecRateLimitWindow := 290448384\<rparr>, [])"
  by (simp add: sample_load)

end
