(* ===== verification/Migrate.thy ===== *)
theory Migrate
  imports OS_Prelude Go_Strings
begin

text \<open>
  \<^verbatim>\<open>internal/migrate/migrate.go\<close>: the schema migrations. What a migration file does to the schema is
  the function \<open>exec\<close>, \<^const>\<open>None\<close> when the database rejects it; the outcome of every other database
  call is chosen by the environment. A transaction takes effect as a whole or not at all.
\<close>

subsection \<open>State\<close>

text \<open>The versions table, whether it exists, the rest of the schema, and the advisory lock.\<close>

record 's SchemaDB =
  versions :: "string list"
  has_table :: bool
  schema :: 's
  locked :: bool

datatype migrate_error =
    AcquireFailed | LockFailed | CreateFailed | ReadVersionsFailed | ListFailed
  | ReadFailedFor string | BeginFailed string | ApplyFailed string | RecordFailed string | CommitFailed string

text \<open>What happens to the calls of one transaction; \<open>TxCommitLost\<close> is a commit whose answer is lost.\<close>

datatype tx = TxOk | TxNoBegin | TxNoRecord | TxNoCommit | TxCommitLost

record menv =
  acquire_ok :: bool
  lock_ok :: bool
  create_ok :: bool
  versions_ok :: bool
  tx_of :: "string \<Rightarrow> tx"

text \<open>A directory: its entries with whether each is a directory, and the contents of the files.\<close>

record src =
  entries :: "(string \<times> bool) list option"
  contents :: "string \<Rightarrow> string option"

subsection \<open>Operations\<close>

definition appliedVersions :: "menv \<Rightarrow> 's SchemaDB \<Rightarrow> migrate_error + string set" where
  "appliedVersions env db = (if versions_ok env then Inr (set (versions db)) else Inl ReadVersionsFailed)"

definition sortedMigrations :: "src \<Rightarrow> migrate_error + string list" where
  "sortedMigrations fs =
     (case entries fs of None \<Rightarrow> Inl ListFailed
      | Some es \<Rightarrow> Inr (sort (map fst (filter (\<lambda>(n, dir). \<not> (dir \<or> \<not> has_suffix n ''.sql'')) es))))"

text \<open>One migration: the file is executed and its version recorded in one transaction.\<close>

definition apply_one :: "(string \<Rightarrow> 's \<Rightarrow> 's option) \<Rightarrow> src \<Rightarrow> menv \<Rightarrow> string \<Rightarrow> 's SchemaDB
    \<Rightarrow> migrate_error option \<times> 's SchemaDB" where
  "apply_one exec fs env name db =
     (case contents fs name of None \<Rightarrow> (Some (ReadFailedFor name), db)
      | Some body \<Rightarrow>
          if tx_of env name = TxNoBegin then (Some (BeginFailed name), db)
          else case exec body (schema db) of
            None \<Rightarrow> (Some (ApplyFailed name), db)
          | Some s' \<Rightarrow>
              if tx_of env name = TxNoRecord \<or> name \<in> set (versions db) then (Some (RecordFailed name), db)
              else let db' = db\<lparr>schema := s', versions := versions db @ [name]\<rparr> in
                case tx_of env name of
                  TxNoCommit \<Rightarrow> (Some (CommitFailed name), db)
                | TxCommitLost \<Rightarrow> (Some (CommitFailed name), db')
                | _ \<Rightarrow> (None, db'))"

text \<open>The loop; \<open>applied\<close> is what was read before it.\<close>

fun apply_all :: "(string \<Rightarrow> 's \<Rightarrow> 's option) \<Rightarrow> src \<Rightarrow> menv \<Rightarrow> string set \<Rightarrow> string list \<Rightarrow> 's SchemaDB
    \<Rightarrow> migrate_error option \<times> 's SchemaDB" where
  "apply_all exec fs env applied [] db = (None, db)"
| "apply_all exec fs env applied (name # names) db =
     (if name \<in> applied then apply_all exec fs env applied names db
      else case apply_one exec fs env name db of
        (Some err, db') \<Rightarrow> (Some err, db')
      | (None, db') \<Rightarrow> apply_all exec fs env applied names db')"

text \<open>\<^verbatim>\<open>Apply\<close>. The deferred unlock runs on every path after the lock was taken.\<close>

definition Apply :: "(string \<Rightarrow> 's \<Rightarrow> 's option) \<Rightarrow> src \<Rightarrow> menv \<Rightarrow> 's SchemaDB
    \<Rightarrow> migrate_error option \<times> 's SchemaDB" where
  "Apply exec fs env db =
     (if \<not> acquire_ok env then (Some AcquireFailed, db)
      else if \<not> lock_ok env then (Some LockFailed, db)
      else let db = db\<lparr>locked := True\<rparr>;
               (err, db) =
                 (if \<not> create_ok env then (Some CreateFailed, db)
                  else let db = db\<lparr>has_table := True\<rparr> in
                    case appliedVersions env db of Inl e \<Rightarrow> (Some e, db)
                    | Inr applied \<Rightarrow>
                       (case sortedMigrations fs of Inl e \<Rightarrow> (Some e, db)
                        | Inr names \<Rightarrow> apply_all exec fs env applied names db))
           in (err, db\<lparr>locked := False\<rparr>))"

subsection \<open>What a run amounts to\<close>

text \<open>The effect of executing files one after the other, \<^const>\<open>None\<close> if one is missing or rejected.\<close>

fun exec_files :: "(string \<Rightarrow> 's \<Rightarrow> 's option) \<Rightarrow> src \<Rightarrow> string list \<Rightarrow> 's \<Rightarrow> 's option" where
  "exec_files exec fs [] s = Some s"
| "exec_files exec fs (n # ns) s =
     (case contents fs n of None \<Rightarrow> None
      | Some body \<Rightarrow> (case exec body s of None \<Rightarrow> None | Some s' \<Rightarrow> exec_files exec fs ns s'))"

lemma exec_files_append:
  "exec_files exec fs (xs @ ys) s =
     (case exec_files exec fs xs s of None \<Rightarrow> None | Some s' \<Rightarrow> exec_files exec fs ys s')"
  by (induction xs arbitrary: s) (auto split: option.splits)

lemma apply_one_cases:
  assumes "apply_one exec fs env name db = (err, db')"
  shows "db' = db \<and> err \<noteq> None
    \<or> (\<exists>s'. exec_files exec fs [name] (schema db) = Some s' \<and> name \<notin> set (versions db)
        \<and> db' = db\<lparr>schema := s', versions := versions db @ [name]\<rparr>)"
  using assms by (auto simp: apply_one_def Let_def split: option.splits if_splits tx.splits)

text \<open>Whatever the environment does, a run performs a prefix of the pending migrations and records exactly those.\<close>

lemma apply_all_prefix:
  assumes "apply_all exec fs env applied names db = (err, db')"
  shows "\<exists>k. k \<le> length (filter (\<lambda>n. n \<notin> applied) names)
    \<and> (err = None \<longrightarrow> k = length (filter (\<lambda>n. n \<notin> applied) names))
    \<and> exec_files exec fs (take k (filter (\<lambda>n. n \<notin> applied) names)) (schema db) = Some (schema db')
    \<and> versions db' = versions db @ take k (filter (\<lambda>n. n \<notin> applied) names)"
  using assms
proof (induction names arbitrary: db)
  case (Cons name names)
  show ?case
  proof (cases "name \<in> applied")
    case True
    then show ?thesis using Cons by simp
  next
    case False
    obtain e1 db1 where one: "apply_one exec fs env name db = (e1, db1)" by fastforce
    from apply_one_cases [OF one] show ?thesis
    proof (elim disjE exE conjE)
      assume "db1 = db" "e1 \<noteq> None"
      then show ?thesis using Cons.prems False one by (intro exI [of _ 0]) auto
    next
      fix s'
      assume s': "exec_files exec fs [name] (schema db) = Some s'"
        and db1: "db1 = db\<lparr>schema := s', versions := versions db @ [name]\<rparr>"
      show ?thesis
      proof (cases e1)
        case None
        then have "apply_all exec fs env applied names db1 = (err, db')" using Cons.prems False one by simp
        from Cons.IH [OF this] obtain k where k: "k \<le> length (filter (\<lambda>n. n \<notin> applied) names)"
          "err = None \<longrightarrow> k = length (filter (\<lambda>n. n \<notin> applied) names)"
          "exec_files exec fs (take k (filter (\<lambda>n. n \<notin> applied) names)) s' = Some (schema db')"
          "versions db' = versions db1 @ take k (filter (\<lambda>n. n \<notin> applied) names)"
          by (auto simp: db1)
        with s' False show ?thesis
          by (intro exI [of _ "Suc k"]) (auto simp: db1 split: option.splits)
      next
        case (Some e)
        then have "db' = db1" "err = Some e" using Cons.prems False one by simp_all
        with s' False show ?thesis by (intro exI [of _ 1]) (auto simp: db1 split: option.splits)
      qed
    qed
  qed
qed simp

text \<open>The migrations a database lacks, in the order in which they run.\<close>

definition pending :: "string list \<Rightarrow> 's SchemaDB \<Rightarrow> string list" where
  "pending names db = filter (\<lambda>n. n \<notin> set (versions db)) names"

lemma Apply_prefix:
  assumes "sortedMigrations fs = Inr names" "Apply exec fs env db = (err, db')"
  obtains k where "k \<le> length (pending names db)" "err = None \<Longrightarrow> k = length (pending names db)"
    "exec_files exec fs (take k (pending names db)) (schema db) = Some (schema db')"
    "versions db' = versions db @ take k (pending names db)"
proof (cases "acquire_ok env \<and> lock_ok env \<and> create_ok env \<and> versions_ok env")
  case True
  let ?db = "db\<lparr>locked := True, has_table := True\<rparr>"
  obtain db1 where run: "apply_all exec fs env (set (versions db)) names ?db = (err, db1)" "db' = db1\<lparr>locked := False\<rparr>"
    using assms True by (auto simp: Apply_def appliedVersions_def Let_def split: prod.splits)
  from apply_all_prefix [OF run(1)] obtain k where k: "k \<le> length (pending names db)"
    "err = None \<longrightarrow> k = length (pending names db)"
    "exec_files exec fs (take k (pending names db)) (schema db) = Some (schema db1)"
    "versions db1 = versions db @ take k (pending names db)"
    by (auto simp: pending_def)
  with k run(2) show thesis by (intro that [of k]) auto
next
  case False
  then show thesis
    using assms by (intro that [of 0]) (auto simp: Apply_def appliedVersions_def Let_def split: if_splits)
qed

lemma filter_not_taken:
  assumes "distinct xs"
  shows "filter (\<lambda>x. x \<notin> set (take k xs)) xs = drop k xs"
proof -
  have "distinct (take k xs @ drop k xs)" using assms by simp
  then have "filter (\<lambda>x. x \<notin> set (take k xs)) (take k xs @ drop k xs) = drop k xs"
    unfolding filter_append distinct_append by (auto simp: filter_empty_conv intro!: filter_True)
  then show ?thesis by simp
qed

lemma pending_rest:
  assumes "distinct names" "versions db' = versions db @ take k (pending names db)"
  shows "pending names db' = drop k (pending names db)"
proof -
  have "distinct (pending names db)" using assms(1) by (simp add: pending_def)
  then have "filter (\<lambda>n. n \<notin> set (take k (pending names db))) (pending names db) = drop k (pending names db)"
    by (rule filter_not_taken)
  then show ?thesis using assms(2) by (simp add: pending_def conj_commute)
qed

subsection \<open>Properties\<close>

text \<open>C27: Migrations run once, in order, and resume. Whatever fails during a run, the versions recorded after
  it are exactly those of a prefix of the pending files in name order, and the schema is what executing that
  prefix gives; and when a later run succeeds, the schema is what one uninterrupted run of all pending files
  would have given, with every file executed exactly once.\<close>

theorem migrations_resume:
  assumes "sortedMigrations fs = Inr names" "distinct names"
    "Apply exec fs env db = (err, db1)" "Apply exec fs env' db1 = (None, db2)"
  shows "(\<exists>k. versions db1 = versions db @ take k (pending names db)
      \<and> exec_files exec fs (take k (pending names db)) (schema db) = Some (schema db1))
    \<and> versions db2 = versions db @ pending names db
    \<and> exec_files exec fs (pending names db) (schema db) = Some (schema db2)"
proof -
  from assms(1,3) obtain k where k: "exec_files exec fs (take k (pending names db)) (schema db) = Some (schema db1)"
    "versions db1 = versions db @ take k (pending names db)"
    by (rule Apply_prefix)
  note rest = pending_rest [OF assms(2) k(2)]
  from assms(1,4) have "exec_files exec fs (pending names db1) (schema db1) = Some (schema db2)"
    "versions db2 = versions db1 @ pending names db1"
    by (rule Apply_prefix; auto)+
  then have "versions db2 = versions db @ pending names db"
    "exec_files exec fs (take k (pending names db) @ drop k (pending names db)) (schema db) = Some (schema db2)"
    unfolding exec_files_append by (simp_all add: rest k)
  then show ?thesis using k by auto
qed

text \<open>A database that loses its connection while committing the second of two files.\<close>

definition two_files :: src where
  "two_files = \<lparr>entries = Some [(''002.sql'', False), (''README'', False), (''001.sql'', False)],
     contents = (\<lambda>n. Some n)\<rparr>"

definition log_exec :: "string \<Rightarrow> string list \<Rightarrow> string list option" where
  "log_exec body s = Some (s @ [body])"

definition quiet :: menv where
  "quiet = \<lparr>acquire_ok = True, lock_ok = True, create_ok = True, versions_ok = True, tx_of = (\<lambda>_. TxOk)\<rparr>"

definition fresh_db :: "string list SchemaDB" where
  "fresh_db = \<lparr>versions = [], has_table = False, schema = [], locked = False\<rparr>"

lemma two_files_contents: "contents two_files n = Some n"
  by (simp add: two_files_def)

theorem migrations_resume_witness:
  "schema (snd (Apply log_exec two_files quiet
     (snd (Apply log_exec two_files (quiet\<lparr>tx_of := (\<lambda>n. if n = ''002.sql'' then TxNoCommit else TxOk)\<rparr>) fresh_db))))
   = [''001.sql'', ''002.sql'']"
proof -
  let ?bad = "quiet\<lparr>tx_of := (\<lambda>n. if n = ''002.sql'' then TxNoCommit else TxOk)\<rparr>"
  have names: "sortedMigrations two_files = Inr [''001.sql'', ''002.sql'']" by code_simp
  have first: "Apply log_exec two_files ?bad fresh_db
      = (Some (CommitFailed ''002.sql''), \<lparr>versions = [''001.sql''], has_table = True, schema = [''001.sql''], locked = False\<rparr>)"
    by (simp add: Apply_def names appliedVersions_def apply_one_def log_exec_def two_files_contents quiet_def fresh_db_def Let_def)
  have "fst (Apply log_exec two_files quiet (snd (Apply log_exec two_files ?bad fresh_db))) = None"
    unfolding first
    by (simp add: Apply_def names appliedVersions_def apply_one_def log_exec_def two_files_contents quiet_def Let_def)
  then obtain db2 where second: "Apply log_exec two_files quiet (snd (Apply log_exec two_files ?bad fresh_db)) = (None, db2)"
    by (metis prod.collapse)
  from migrations_resume [OF names _ first, of quiet db2] second show ?thesis
    unfolding first by (simp add: pending_def fresh_db_def log_exec_def two_files_contents)
qed

end
