(* ===== verification/Audit_Postgres.thy ===== *)
theory Audit_Postgres
  imports Audit_Writer
begin

text \<open>
  \<^verbatim>\<open>internal/audit/postgres.go\<close>: the PostgreSQL audit log. The table \<^verbatim>\<open>audit_log\<close> is the
  list of its rows in \<^verbatim>\<open>seq\<close> order, and each statement of the code is given its relational
  meaning on that list, with the constraints of the schema in \<^verbatim>\<open>migrations/postgres\<close>.

  The database itself is not code of this repository. What it does to a value on the way in and out,
  how it orders text and what an error reads like are the fields of a record the operations take, and
  what one call meets (success, refusal, a commit whose reply is lost, an interrupted result set) is
  an argument of that call.
\<close>

subsection \<open>The connection pool\<close>

text \<open>
  Opening the store, over the outcomes of reading the connection string, of making the pool and of the first
  ping. A pool whose ping fails is closed before the error is returned, so a caller that got an error holds
  nothing.
\<close>

record PgPool =
  pool_open :: bool

record PoolOutcomes =
  dsn_error :: "string \<Rightarrow> string option"
  connect_error :: "string \<Rightarrow> string option"
  pool_ping_error :: "string \<Rightarrow> string option"

definition pg_Close :: "PgPool \<Rightarrow> PgPool" where
  "pg_Close pool = pool\<lparr>pool_open := False\<rparr>"

definition NewPostgres :: "PoolOutcomes \<Rightarrow> string \<Rightarrow> string + PgPool" where
  "NewPostgres o' dsn =
     (case dsn_error o' dsn of Some err \<Rightarrow> Inl (''audit: parse postgres dsn: '' @ err)
      | None \<Rightarrow>
         (case connect_error o' dsn of Some err \<Rightarrow> Inl (''audit: connect to postgres: '' @ err)
          | None \<Rightarrow>
             (case pool_ping_error o' dsn of Some err \<Rightarrow> Inl (''audit: ping postgres: '' @ err)
              | None \<Rightarrow> Inr \<lparr>pool_open = True\<rparr>)))"

definition healthy_pool :: PoolOutcomes where
  "healthy_pool = \<lparr>dsn_error = (\<lambda>_. None), connect_error = (\<lambda>_. None), pool_ping_error = (\<lambda>_. None)\<rparr>"

lemma healthy_pool_opens [simp]: "NewPostgres healthy_pool dsn = Inr \<lparr>pool_open = True\<rparr>"
  by (simp add: NewPostgres_def healthy_pool_def)

subsection \<open>The database\<close>

record Row =
  rID :: string
  rRequestID :: string
  rTs :: time
  rKind :: string
  rPayload :: string
  rPrevHash :: string
  rHash :: string

text \<open>
  \<open>db_uuid\<close> and \<open>db_jsonb\<close> give the text a stored \<^verbatim>\<open>UUID\<close> or \<^verbatim>\<open>JSONB\<close> value
  reads back as, \<^const>\<open>None\<close> when it is rejected; \<open>db_text\<close> tells whether a string can be stored
  in a \<^verbatim>\<open>TEXT\<close> column; \<open>db_nested\<close> is the text \<^verbatim>\<open>->>\<close> yields for an object or array;
  \<open>db_collate\<close> is the sort key of the column's collation.
\<close>

record Database =
  db_uuid :: "string \<Rightarrow> string option"
  db_text :: "string \<Rightarrow> bool"
  db_jsonb :: "string \<Rightarrow> string option"
  db_nested :: "goval \<Rightarrow> string"
  db_collate :: "string \<Rightarrow> string"
  db_error :: string

datatype exec_outcome = Committed | Refused | ReplyLost

text \<open>\<^verbatim>\<open>CHAR(64)\<close> pads with blanks and refuses longer values.\<close>

definition char64 :: "string \<Rightarrow> string option" where
  "char64 s = (if length s \<le> 64 then Some (s @ replicate (64 - length s) (CHR '' '')) else None)"

definition insert_audit_log :: "Database \<Rightarrow> AuditEntry \<Rightarrow> string \<Rightarrow> Row list \<Rightarrow> Row list option" where
  "insert_audit_log db entry payload rows =
     (case (db_uuid db (ID entry), db_jsonb db payload, char64 (PrevHash entry), char64 (Hash entry)) of
        (Some uid, Some doc, Some ph, Some h) \<Rightarrow>
          if db_text db (RequestID entry)
             \<and> (Kind entry = KindTraffic \<or> Kind entry = KindSystem \<or> Kind entry = KindAdmin)
             \<and> uid \<notin> set (map rID rows) \<and> h \<notin> set (map rHash rows)
          then Some (rows @ [\<lparr>rID = uid, rRequestID = RequestID entry,
                              rTs = truncate_time (Timestamp entry) microsecond, rKind = Kind entry,
                              rPayload = doc, rPrevHash = ph, rHash = h\<rparr>])
          else None
      | _ \<Rightarrow> None)"

subsection \<open>Append and Head\<close>

definition pg_Append :: "Database \<Rightarrow> exec_outcome \<Rightarrow> AuditEntry \<Rightarrow> Row list \<Rightarrow> Row list \<times> string option" where
  "pg_Append db outcome entry rows =
     (case CanonicalJSON (payload_value (Payload entry)) of
        Inl err \<Rightarrow> (rows, Some (''audit: encode payload for entry '' @ ID entry @ '': '' @ json_error_text err))
      | Inr payload \<Rightarrow>
         (let failed = Some (''audit: append entry '' @ ID entry @ '': '' @ db_error db) in
          if outcome = Refused then (rows, failed)
          else case insert_audit_log db entry payload rows of
                 None \<Rightarrow> (rows, failed)
               | Some rows' \<Rightarrow> (rows', if outcome = Committed then None else failed)))"

text \<open>A query that returns at most one row meets \<open>up\<close>, whether the database answers.\<close>

definition pg_Head :: "Database \<Rightarrow> bool \<Rightarrow> Row list \<Rightarrow> string result" where
  "pg_Head db up rows =
     (if \<not> up then Inl (''audit: read chain head: '' @ db_error db)
      else case rev rows of [] \<Rightarrow> Inr GenesisHash | r # _ \<Rightarrow> Inr (rHash r))"

subsection \<open>Reading entries\<close>

definition scanEntry :: "Row \<Rightarrow> AuditEntry result" where
  "scanEntry r =
     (case DecodeJSONPayload (rPayload r) of
        Inl err \<Rightarrow> Inl (''decode audit payload: '' @ json_error_text err)
      | Inr payload \<Rightarrow>
         Inr \<lparr>ID = rID r, RequestID = rRequestID r, Timestamp = rTs r, Kind = rKind r,
              Payload = payload, PrevHash = rPrevHash r, Hash = rHash r\<rparr>)"

datatype sqlarg = ArgText string | ArgTime time | ArgInt int

text \<open>
  A condition of a \<^verbatim>\<open>WHERE\<close> clause before its placeholder is numbered, with the value bound to
  it. \<open>render\<close> numbers the placeholders and joins the conditions into the text of the clause.
\<close>

type_synonym condition = "string \<times> sqlarg"

definition placeholder :: "nat \<Rightarrow> string" where
  "placeholder n = ''$'' @ dec_of_nat n"

fun replace_first :: "char \<Rightarrow> string \<Rightarrow> string \<Rightarrow> string" where
  "replace_first c new [] = []"
| "replace_first c new (x # s) = (if x = c then new @ s else x # replace_first c new s)"

definition render :: "condition list \<Rightarrow> string \<times> sqlarg list" where
  "render cs =
     (if cs = [] then ([], [])
      else (''WHERE '' @ join '' AND ''
              (map (\<lambda>(n, c). replace_first (CHR ''?'') (placeholder n) (fst c)) (zip [1..<Suc (length cs)] cs)),
            map snd cs))"

definition timeRange_conditions :: "time \<Rightarrow> time \<Rightarrow> condition list" where
  "timeRange_conditions from to =
     (if \<not> is_zero from then [(''ts >= ?'', ArgTime from)] else [])
     @ (if \<not> is_zero to then [(''ts <= ?'', ArgTime to)] else [])"

definition timeRange :: "time \<Rightarrow> time \<Rightarrow> string \<times> sqlarg list" where
  "timeRange from to = render (timeRange_conditions from to)"

definition payload_column :: "string \<Rightarrow> string" where
  "payload_column key = ''payload ->> '' @ CHR 0x27 # key @ CHR 0x27 # '' = ?''"

definition filter_conditions :: "Filter \<Rightarrow> condition list" where
  "filter_conditions f =
     (if FKind f \<noteq> [] then [(''kind = ?'', ArgText (FKind f))] else [])
     @ (if FRequestID f \<noteq> [] then [(''request_id = ?'', ArgText (FRequestID f))] else [])
     @ (if FVerdict f \<noteq> [] then [(payload_column ''verdict'', ArgText (FVerdict f))] else [])
     @ (if FIP f \<noteq> [] then [(payload_column ''ip'', ArgText (FIP f))] else [])
     @ (if FRule f \<noteq> [] then [(payload_column ''rule'', ArgText (FRule f))] else [])
     @ (if \<not> is_zero (FFrom f) then [(''ts >= ?'', ArgTime (FFrom f))] else [])
     @ (if \<not> is_zero (FTo f) then [(''ts <= ?'', ArgTime (FTo f))] else [])"

definition filterClause :: "Filter \<Rightarrow> string \<times> sqlarg list" where
  "filterClause f = render (filter_conditions f)"

text \<open>\<^verbatim>\<open>payload ->> key\<close>: the text of a top-level member, \<^const>\<open>None\<close> for SQL's \<^verbatim>\<open>NULL\<close>.\<close>

definition json_field :: "Database \<Rightarrow> Row \<Rightarrow> string \<Rightarrow> string option" where
  "json_field db r key =
     (case decode_any (rPayload r) of
        Some (GMap m) \<Rightarrow>
          (case map_of m key of
             Some (GString s) \<Rightarrow> Some s
           | Some (GNumber n) \<Rightarrow> Some n
           | Some (GBool b) \<Rightarrow> Some (if b then ''true'' else ''false'')
           | Some GNil \<Rightarrow> None
           | Some v \<Rightarrow> Some (db_nested db v)
           | None \<Rightarrow> None)
      | _ \<Rightarrow> None)"

text \<open>What a condition means for a row.\<close>

definition condition_holds :: "Database \<Rightarrow> Row \<Rightarrow> condition \<Rightarrow> bool" where
  "condition_holds db r c =
     (case snd c of
        ArgText v \<Rightarrow>
          if fst c = ''kind = ?'' then rKind r = v
          else if fst c = ''request_id = ?'' then rRequestID r = v
          else if fst c = payload_column ''verdict'' then json_field db r ''verdict'' = Some v
          else if fst c = payload_column ''ip'' then json_field db r ''ip'' = Some v
          else if fst c = payload_column ''rule'' then json_field db r ''rule'' = Some v
          else False
      | ArgTime t \<Rightarrow>
          if fst c = ''ts >= ?'' then rTs r \<ge> t else if fst c = ''ts <= ?'' then rTs r \<le> t else False
      | ArgInt _ \<Rightarrow> False)"

definition select_where :: "Database \<Rightarrow> condition list \<Rightarrow> Row list \<Rightarrow> Row list" where
  "select_where db cs rows = filter (\<lambda>r. list_all (condition_holds db r) cs) rows"

subsection \<open>VerifyChain\<close>

definition anchorBefore :: "Database \<Rightarrow> bool \<Rightarrow> time \<Rightarrow> Row list \<Rightarrow> string result" where
  "anchorBefore db up from rows =
     (if is_zero from then Inr GenesisHash
      else if \<not> up then Inl (''audit: read chain anchor: '' @ db_error db)
      else case rev (filter (\<lambda>r. rTs r < from) rows) of
             [] \<Rightarrow> Inr GenesisHash | r # _ \<Rightarrow> Inr (rHash r))"

text \<open>
  The loop over the streamed rows. \<open>Some n\<close> says that the result set breaks off after \<open>n\<close> rows,
  which \<^verbatim>\<open>rows.Err\<close> then reports.
\<close>

fun pg_walk :: "Database \<Rightarrow> nat option \<Rightarrow> chainWalker \<Rightarrow> Row list \<Rightarrow> VerifyResult result" where
  "pg_walk db brk w [] = (if brk = None then Inr (result w) else Inl (''audit: read chain: '' @ db_error db))"
| "pg_walk db brk w (r # rs) =
     (if brk = Some 0 then Inl (''audit: read chain: '' @ db_error db)
      else case scanEntry r of Inl err \<Rightarrow> Inl err
           | Inr entry \<Rightarrow>
              (case step w entry of (w', Some b) \<Rightarrow> Inr b
               | (w', None) \<Rightarrow> pg_walk db (map_option (\<lambda>n. n - 1) brk) w' rs))"

definition pg_VerifyChain :: "Database \<Rightarrow> bool \<Rightarrow> bool \<Rightarrow> nat option \<Rightarrow> Row list \<Rightarrow> time \<Rightarrow> time \<Rightarrow> VerifyResult result" where
  "pg_VerifyChain db up1 up2 brk rows from to =
     (case anchorBefore db up1 from rows of Inl err \<Rightarrow> Inl err
      | Inr anchor \<Rightarrow>
         (if \<not> up2 then Inl (''audit: read chain: '' @ db_error db)
          else case pg_walk db brk (newChainWalker anchor)
                      (select_where db (timeRange_conditions from to) rows) of
                 Inl err \<Rightarrow> Inl err
               | Inr r \<Rightarrow> Inr (stampRange r from to)))"

subsection \<open>List and Count\<close>

fun scan_all :: "Database \<Rightarrow> nat option \<Rightarrow> Row list \<Rightarrow> AuditEntry list result" where
  "scan_all db brk [] = (if brk = None then Inr [] else Inl (''audit: list entries: '' @ db_error db))"
| "scan_all db brk (r # rs) =
     (if brk = Some 0 then Inl (''audit: list entries: '' @ db_error db)
      else case scanEntry r of Inl err \<Rightarrow> Inl err
           | Inr e \<Rightarrow> (case scan_all db (map_option (\<lambda>n. n - 1) brk) rs of
                         Inl err \<Rightarrow> Inl err | Inr es \<Rightarrow> Inr (e # es)))"

definition pg_List :: "Database \<Rightarrow> bool \<Rightarrow> nat option \<Rightarrow> Row list \<Rightarrow> Filter \<Rightarrow> AuditEntry list result" where
  "pg_List db up brk rows f0 =
     (let f = Normalized f0 in
      if \<not> up then Inl (''audit: list entries: '' @ db_error db)
      else scan_all db brk
             (take (nat (Limit f)) (drop (nat (Offset f)) (rev (select_where db (filter_conditions f) rows)))))"

definition pg_Count :: "Database \<Rightarrow> bool \<Rightarrow> Row list \<Rightarrow> Filter \<Rightarrow> int result" where
  "pg_Count db up rows f =
     (if \<not> up then Inl (''audit: count entries: '' @ db_error db)
      else Inr (int (length (select_where db (filter_conditions f) rows))))"

subsection \<open>Stats\<close>

definition traffic_since :: "time \<Rightarrow> Row list \<Rightarrow> Row list" where
  "traffic_since since rows = filter (\<lambda>r. rKind r = KindTraffic \<and> rTs r \<ge> since) rows"

definition with_verdict :: "Database \<Rightarrow> Verdict \<Rightarrow> Row list \<Rightarrow> Row list" where
  "with_verdict db v rows = filter (\<lambda>r. json_field db r ''verdict'' = Some (verdict_text v)) rows"

text \<open>\<^verbatim>\<open>GROUP BY label ORDER BY n DESC, label ASC LIMIT 10\<close>.\<close>

definition ranking :: "Database \<Rightarrow> string list \<Rightarrow> CountedBy list" where
  "ranking db ls =
     take 10 (sort_key (\<lambda>row. (- snd row, db_collate db (fst row)))
                (map (\<lambda>l. (l, int (count_list ls l))) (remdups ls)))"

definition topBlocked :: "Database \<Rightarrow> bool \<Rightarrow> time \<Rightarrow> string \<Rightarrow> Row list \<Rightarrow> CountedBy list result" where
  "topBlocked db up since field rows =
     (if field \<noteq> ''ip'' \<and> field \<noteq> ''rule''
      then Inl (''audit: unsupported ranking field '' @ json_quote False field)
      else if \<not> up then Inl (''audit: top '' @ field @ '': '' @ db_error db)
      else Inr (ranking db (List.map_filter (\<lambda>r. json_field db r field)
                 (with_verdict db Block (traffic_since since rows)))))"

definition bucket_seconds :: "duration \<Rightarrow> int" where
  "bucket_seconds window = (let b = window div second div 60 in if b < 1 then 1 else b)"

definition bucket_of :: "int \<Rightarrow> time \<Rightarrow> int" where
  "bucket_of b t = unix_sec t div b * b"

definition series :: "Database \<Rightarrow> bool \<Rightarrow> time \<Rightarrow> duration \<Rightarrow> Row list \<Rightarrow> Bucket list result" where
  "series db up since window rows =
     (if \<not> up then Inl (''audit: traffic series: '' @ db_error db)
      else let b = bucket_seconds window; rs = traffic_since since rows;
               in_bucket = (\<lambda>k. filter (\<lambda>r. bucket_of b (rTs r) = k) rs)
           in Inr (map (\<lambda>k. \<lparr>Start = time_of_unix k,
                             BAllowed = int (length (with_verdict db Allow (in_bucket k))),
                             BBlocked = int (length (with_verdict db Block (in_bucket k)))\<rparr>)
                       (sort (remdups (map (\<lambda>r. bucket_of b (rTs r)) rs)))))"

definition pg_Stats :: "Database \<Rightarrow> bool \<Rightarrow> bool \<Rightarrow> bool \<Rightarrow> bool \<Rightarrow> time \<Rightarrow> Row list \<Rightarrow> duration \<Rightarrow> Stats result" where
  "pg_Stats db up1 up2 up3 up4 now rows window0 =
     (let window = (if window0 \<le> 0 then 3600 * second else window0);
          since = now - window;
          rs = traffic_since since rows
      in if \<not> up1 then Inl (''audit: traffic totals: '' @ db_error db)
         else case topBlocked db up2 since ''ip'' rows of Inl err \<Rightarrow> Inl err
              | Inr ips \<Rightarrow>
                 (case topBlocked db up3 since ''rule'' rows of Inl err \<Rightarrow> Inl err
                  | Inr rules \<Rightarrow>
                     (case series db up4 since window rows of Inl err \<Rightarrow> Inl err
                      | Inr ser \<Rightarrow>
                         Inr \<lparr>Window = duration_string window, Total = int (length rs),
                              Allowed = int (length (with_verdict db Allow rs)),
                              Blocked = int (length (with_verdict db Block rs)),
                              TopIPs = ips, TopRules = rules, Series = ser\<rparr>)))"

subsection \<open>The table as an audit log\<close>

text \<open>
  What is relied on of the \<^verbatim>\<open>JSONB\<close> column: a document whose numbers are plain decimals reads
  back as the same data. (\<^verbatim>\<open>JSONB\<close> keeps numbers as \<^verbatim>\<open>numeric\<close> values: an exponent is
  expanded and the sign of a zero is lost.)
\<close>

definition plain_number :: "string \<Rightarrow> bool" where
  "plain_number n \<longleftrightarrow> CHR ''e'' \<notin> set n \<and> CHR ''E'' \<notin> set n
     \<and> \<not> (n \<noteq> [] \<and> hd n = CHR ''-'' \<and> list_all (\<lambda>c. c = CHR ''0'' \<or> c = CHR ''.'') (tl n))"

fun plain :: "goval \<Rightarrow> bool" where
  "plain (GNumber n) = plain_number n"
| "plain (GSlice vs) = list_all plain vs"
| "plain (GMap m) = list_all (\<lambda>kv. plain (snd kv)) m"
| "plain _ = True"

definition plain_payload :: "payload \<Rightarrow> bool" where
  "plain_payload p = plain (payload_value p)"

definition db_faithful :: "Database \<Rightarrow> bool" where
  "db_faithful db \<longleftrightarrow>
     (\<forall>m b doc. good max_depth (GMap m) \<longrightarrow> plain (GMap m) \<longrightarrow> CanonicalJSON (GMap m) = Inr b \<longrightarrow>
        db_jsonb db b = Some doc \<longrightarrow>
        (\<exists>m'. DecodeJSONPayload doc = Inr (Some m') \<and> same_data (GMap m) (GMap m')))"

definition honest_outcome :: "exec_outcome \<Rightarrow> bool" where
  "honest_outcome oc \<longleftrightarrow> oc \<noteq> ReplyLost"

definition pg_log :: "Row list \<Rightarrow> AuditEntry list" where
  "pg_log rows = List.map_filter (\<lambda>r. case scanEntry r of Inl _ \<Rightarrow> None | Inr e \<Rightarrow> Some e) rows"

definition pg_inv :: "Row list \<Rightarrow> bool" where
  "pg_inv rows \<longleftrightarrow> list_all (\<lambda>r. \<not> isl (scanEntry r)) rows"

definition pg_storable :: "Database \<Rightarrow> AuditEntry \<Rightarrow> bool" where
  "pg_storable db e \<longleftrightarrow> good_payload (Payload e) \<and> plain_payload (Payload e)
     \<and> (\<forall>u. db_uuid db (ID e) = Some u \<longrightarrow> u = ID e)
     \<and> truncate_time (Timestamp e) microsecond = Timestamp e \<and> length (PrevHash e) = 64 \<and> length (Hash e) = 64"

text \<open>What the writer hands over: a canonical UUID, a truncated time and plain numbers.\<close>

definition pg_built :: "Database \<Rightarrow> AuditEntry \<Rightarrow> bool" where
  "pg_built db e \<longleftrightarrow> (\<forall>u. db_uuid db (ID e) = Some u \<longrightarrow> u = ID e)
     \<and> truncate_time (Timestamp e) microsecond = Timestamp e
     \<and> (\<forall>p. NormalizePayload (Payload e) = Inr p \<longrightarrow> plain_payload p)"

definition pg_head :: "Database \<Rightarrow> Row list \<Rightarrow> string" where
  "pg_head db rows = (case pg_Head db True rows of Inl _ \<Rightarrow> [] | Inr h \<Rightarrow> h)"

definition pg_verify :: "Database \<Rightarrow> Row list \<Rightarrow> VerifyResult" where
  "pg_verify db rows =
     (case pg_VerifyChain db True True None rows 0 0 of Inl _ \<Rightarrow> no_result | Inr r \<Rightarrow> r)"

lemma pg_log_simps [simp]:
  "pg_log [] = []"
  "pg_log (r # rs) = (case scanEntry r of Inl _ \<Rightarrow> pg_log rs | Inr e \<Rightarrow> e # pg_log rs)"
  "pg_log (rs @ rs') = pg_log rs @ pg_log rs'"
  by (auto simp: pg_log_def List.map_filter_def split: sum.splits)

lemma scanEntry_Hash: "scanEntry r = Inr e \<Longrightarrow> Hash e = rHash r \<and> Timestamp e = rTs r"
  by (auto simp: scanEntry_def split: sum.splits)

lemma pg_Head_log: "pg_inv rows \<Longrightarrow> pg_head db rows = head_of GenesisHash (pg_log rows)"
  by (cases rows rule: rev_cases)
    (auto simp: pg_head_def pg_Head_def pg_inv_def scanEntry_Hash split: sum.splits)

lemma pg_walk_log: "pg_inv rows \<Longrightarrow> pg_walk db None w rows = Inr (walk w (pg_log rows))"
proof (induction rows arbitrary: w)
  case (Cons r rows)
  then obtain e where e: "scanEntry r = Inr e" by (cases "scanEntry r") (auto simp: pg_inv_def)
  then show ?case using Cons by (auto simp: pg_inv_def split: prod.splits option.splits)
qed simp

lemma pg_verify_log:
  assumes "pg_inv rows"
  shows "pg_verify db rows = walk (newChainWalker GenesisHash) (pg_log rows)"
  using pg_walk_log [OF assms, of db "newChainWalker GenesisHash"]
  by (simp add: pg_verify_def pg_VerifyChain_def anchorBefore_def is_zero_def timeRange_conditions_def
      select_where_def)

lemma char64_full: "length s = 64 \<Longrightarrow> char64 s = Some s"
  by (simp add: char64_def)

lemma insert_audit_log_scan:
  assumes "db_faithful db" "pg_storable db e" "CanonicalJSON (payload_value (Payload e)) = Inr payload"
    "insert_audit_log db e payload rows = Some rows'"
  obtains r e' where "rows' = rows @ [r]" "scanEntry r = Inr e'" "stored_as e e'"
proof -
  obtain m where m: "Payload e = Some m" "good max_depth (GMap m)" "plain (GMap m)"
    using assms(2) unfolding pg_storable_def good_payload_def plain_payload_def payload_value_def by force
  have full: "char64 (PrevHash e) = Some (PrevHash e)" "char64 (Hash e) = Some (Hash e)"
    "truncate_time (Timestamp e) microsecond = Timestamp e"
    using assms(2) by (simp_all add: pg_storable_def char64_full)
  obtain uid doc where u: "db_uuid db (ID e) = Some uid" "db_jsonb db payload = Some doc"
    using assms(4) by (auto simp: insert_audit_log_def split: option.splits)
  let ?r = "\<lparr>rID = uid, rRequestID = RequestID e, rTs = Timestamp e, rKind = Kind e, rPayload = doc,
    rPrevHash = PrevHash e, rHash = Hash e\<rparr>"
  have rows': "rows' = rows @ [?r]"
    using assms(4) u full by (auto simp: insert_audit_log_def split: if_splits)
  have uid: "uid = ID e" using assms(2) u(1) by (simp add: pg_storable_def)
  obtain m' where m': "DecodeJSONPayload doc = Inr (Some m')" "same_data (GMap m) (GMap m')"
    using assms(1) m(2,3) assms(3) u(2) unfolding db_faithful_def m(1) payload_value_def option.case by blast
  have "good_payload (Some m')"
    using DecodeJSONPayload_good [OF m'(1)] unfolding good_payload_def by blast
  then have "scanEntry ?r = Inr (e\<lparr>Payload := Some m'\<rparr>)" "stored_as e (e\<lparr>Payload := Some m'\<rparr>)"
    using m m' uid by (simp_all add: scanEntry_def stored_as_def same_entry_def payload_value_def)
  then show thesis using that rows' by blast
qed

lemma pg_repository:
  assumes "db_faithful db"
  shows "audit_repository pg_log pg_inv honest_outcome (pg_storable db) (pg_Append db) (pg_head db) (pg_verify db)"
proof
  fix s s' :: "Row list" and e env
  assume s: "pg_inv s" "pg_storable db e" "pg_Append db env e s = (s', None)"
  then obtain payload where p: "CanonicalJSON (payload_value (Payload e)) = Inr payload"
    "insert_audit_log db e payload s = Some s'"
    by (auto simp: pg_Append_def Let_def split: sum.splits option.splits if_splits)
  obtain r e' where "s' = s @ [r]" "scanEntry r = Inr e'" "stored_as e e'"
    using insert_audit_log_scan [OF assms s(2) p] .
  then show "pg_inv s' \<and> (\<exists>e'. pg_log s' = pg_log s @ [e'] \<and> stored_as e e')"
    using s(1) by (auto simp: pg_inv_def)
next
  fix s s' :: "Row list" and e env err
  assume "pg_inv s" "honest_outcome env" "pg_Append db env e s = (s', Some err)"
  then show "pg_inv s' \<and> pg_log s' = pg_log s"
    by (cases env) (auto simp: pg_Append_def honest_outcome_def Let_def split: sum.splits option.splits if_splits)
qed (auto simp: pg_Head_log pg_verify_log pg_storable_def)

lemma pg_writer:
  assumes "db_faithful db"
  shows "audit_writer pg_log pg_inv honest_outcome (pg_storable db) (pg_Append db) (pg_head db) (pg_verify db)
    (pg_built db)"
  using pg_repository [OF assms]
  by (rule audit_writer.intro, unfold_locales)
    (auto simp: pg_built_def pg_storable_def seal_entry_fields NormalizePayload_good_payload)

subsection \<open>A database that keeps everything\<close>

text \<open>The simplest database that meets what is relied on, for concrete runs.\<close>

definition ideal_db :: Database where
  "ideal_db = \<lparr>db_uuid = Some, db_text = (\<lambda>_. True), db_jsonb = Some, db_nested = (\<lambda>_. []),
               db_collate = (\<lambda>s. s), db_error = ''down''\<rparr>"

lemma ideal_db_faithful: "db_faithful ideal_db"
  unfolding db_faithful_def
proof (intro allI impI)
  fix m b doc
  assume good: "good max_depth (GMap m)" and b: "CanonicalJSON (GMap m) = Inr b" "db_jsonb ideal_db b = Some doc"
  obtain b' m' where "CanonicalJSON (GMap m) = Inr b'" "DecodeJSONPayload b' = Inr (Some m')"
    "same_data (GMap m) (GMap m')" using decode_canonical [OF good] .
  then show "\<exists>m'. DecodeJSONPayload doc = Inr (Some m') \<and> same_data (GMap m) (GMap m')"
    using b by (auto simp: ideal_db_def)
qed

interpretation pg_ideal: audit_writer pg_log pg_inv honest_outcome "pg_storable ideal_db" "pg_Append ideal_db"
  "pg_head ideal_db" "pg_verify ideal_db" "pg_built ideal_db"
  by (rule pg_writer [OF ideal_db_faithful])

definition sample_entry :: AuditEntry where
  "sample_entry = build ''u1'' 0 KindAdmin ''r1'' None"

definition sample_item :: queued where
  "sample_item = \<lparr>qentry = sample_entry, qdone = True\<rparr>"

definition sample_writer :: Writer where
  "sample_writer = \<lparr>queue = [], cap = 1, has_pub = True, closed = False, stopped = False,
     whead = GenesisHash, dropped = 0, written = 0, failures = 0, inflight = [], replies = [],
     published = []\<rparr>"

lemma sample_start: "NewWriter True 1 True (pg_Head ideal_db True []) = Inr sample_writer"
  by (simp add: NewWriter_def pg_Head_def sample_writer_def)

lemma sample_built: "pg_built ideal_db sample_entry"
  by (simp add: pg_built_def sample_entry_def build_def truncate_idem ideal_db_def NormalizePayload_def
      plain_payload_def payload_value_def)

abbreviation sample_reach :: "Row list system \<Rightarrow> bool" where
  "sample_reach \<equiv> wreach (pg_Append ideal_db) honest_outcome (pg_built ideal_db) (start sample_writer [])"

text \<open>A synchronous call that enters, is queued, written, published and answered.\<close>

lemma ideal_append:
  assumes "whead w = GenesisHash" "has_pub w" "NormalizePayload (Payload e) = Inr q" "Kind e = KindAdmin"
  shows "\<exists>w' rows. writer_append (pg_Append ideal_db) Committed True e (w, []) = ((w', rows), None)
    \<and> published w' = published w @ [seal_entry GenesisHash q e]"
proof -
  obtain m where m: "q = Some m" "good max_depth (GMap m)" using NormalizePayload_good [OF assms(3)] .
  let ?e = "seal_entry GenesisHash q e"
  obtain b where "CanonicalJSON (GMap m) = Inr b" using decode_canonical [OF m(2)] by blast
  moreover have "char64 (PrevHash ?e) = Some (PrevHash ?e)"
    by (simp add: seal_entry_fields(1) GenesisHash_def char64_full)
  moreover have "char64 (Hash ?e) = Some (Hash ?e)"
    by (rule char64_full) (metis length_ComputeHash seal_entry_fields(2))
  ultimately show ?thesis
    using assms m(1)
    by (simp add: writer_append_def pg_Append_def insert_audit_log_def seal_entry_fields payload_value_def ideal_db_def Let_def)
qed

lemma ideal_run:
  assumes "NormalizePayload (Payload e) = Inr q" "Kind e = KindAdmin" "pg_built ideal_db e"
  shows "\<exists>y. sample_reach y \<and> (\<lparr>qentry = e, qdone = True\<rparr>, None) \<in> set (replies (wr y))
    \<and> published (wr y) = [seal_entry GenesisHash q e]"
proof -
  let ?it = "\<lparr>qentry = e, qdone = True\<rparr>"
  let ?x0 = "start sample_writer ([] :: Row list)"
  let ?w1 = "sample_writer\<lparr>inflight := [?it]\<rparr>"
  let ?x1 = "?x0\<lparr>wr := ?w1, calls := 1, refused := 0\<rparr>"
  let ?w2 = "sample_writer\<lparr>queue := [?it]\<rparr>"
  let ?x2 = "?x1\<lparr>wr := ?w2, accepted := [e]\<rparr>"
  obtain w' rows where app: "writer_append (pg_Append ideal_db) Committed True e (sample_writer, []) = ((w', rows), None)"
    "published w' = [seal_entry GenesisHash q e]"
    using ideal_append [of sample_writer, OF _ _ assms(1,2)] by (auto simp: sample_writer_def)
  let ?y = "?x2\<lparr>wr := w'\<lparr>replies := replies w' @ [(?it, None)]\<rparr>, store := rows\<rparr>"
  have "wstep (pg_Append ideal_db) honest_outcome (pg_built ideal_db) ?x0 ?x1"
    using assms(3) enter_sync [of "pg_built ideal_db" e ?x0 ?w1 None "pg_Append ideal_db" honest_outcome]
    by (simp add: RecordSync_enter_def start_def sample_writer_def)
  moreover have "wstep (pg_Append ideal_db) honest_outcome (pg_built ideal_db) ?x1 ?x2"
    using send_sync [of ?it ?x1 "pg_Append ideal_db" honest_outcome "pg_built ideal_db"]
    by (simp add: RecordSync_send_def enqueue_def leave_def has_room_def start_def sample_writer_def)
  moreover have "run_round (pg_Append ideal_db) Committed True (?w2, [])
      = (w'\<lparr>replies := replies w' @ [(?it, None)]\<rparr>, rows)"
    using app(1) by (simp add: run_round_def sample_writer_def)
  then have "wstep (pg_Append ideal_db) honest_outcome (pg_built ideal_db) ?x2 ?y"
    using wstep.run [of ?x2 honest_outcome Committed "pg_Append ideal_db" True _ rows "pg_built ideal_db"]
    by (simp add: start_def sample_writer_def honest_outcome_def)
  ultimately have "sample_reach ?y" by (meson wreach.intros)
  then show ?thesis using app(2) by (intro exI [of _ ?y]) simp
qed

lemma sample_run: "\<exists>y. sample_reach y \<and> (sample_item, None) \<in> set (replies (wr y))"
  using ideal_run [of sample_entry "Some []"] sample_built
  by (auto simp: sample_item_def sample_entry_def build_def NormalizePayload_def)

subsection \<open>Properties\<close>

lemma pg_Head_up: "pg_Head db True rows = Inr (pg_head db rows)"
  by (simp add: pg_head_def pg_Head_def split: list.splits)

lemma pg_verify_Inr: "pg_inv rows \<Longrightarrow> pg_VerifyChain db True True None rows 0 0 = Inr (pg_verify db rows)"
  using pg_walk_log [of rows db "newChainWalker GenesisHash"]
  by (simp add: pg_verify_def pg_VerifyChain_def anchorBefore_def is_zero_def timeRange_conditions_def
      select_where_def)

text \<open>The facts of the writer's contract for the PostgreSQL store.\<close>

lemma pg_reachable:
  assumes "db_faithful db" "NewWriter True buffer pub (pg_Head db True rows) = Inr w"
    "pg_inv rows" "chained GenesisHash (pg_log rows)"
    "wreach (pg_Append db) honest_outcome (pg_built db) (start w rows) y"
  shows "accounted y" "pg_inv (store y)" "chained GenesisHash (pg_log (store y))"
    "\<exists>ls. pg_log (store y) = pg_log rows @ ls \<and> int (length ls) = written (wr y)
       \<and> subseq (map ID ls) (map ID (accepted y))
       \<and> (queue (wr y) = [] \<and> failures (wr y) = 0 \<longrightarrow> list_all2 records (accepted y) ls)"
    "(it, None) \<in> set (replies (wr y)) \<Longrightarrow> \<exists>l \<in> set (pg_log (store y)). records (qentry it) l"
    "list_emb stored_as (published (wr y)) (pg_log (store y))"
proof -
  note writer = pg_writer [OF assms(1)]
  note repo = audit_writer.axioms(1) [OF writer]
  have start: "NewWriter True buffer pub (Inr (pg_head db rows)) = Inr w"
    using assms(2) by (simp add: pg_Head_up)
  have intact: "audit_repository.intact pg_log pg_inv rows"
    using assms(3,4) by (simp add: audit_repository.intact_def [OF repo])
  note r = audit_writer.reachable [OF writer start intact assms(5)]
  show "accounted y" using r(1) .
  show "pg_inv (store y)" "chained GenesisHash (pg_log (store y))"
    "(it, None) \<in> set (replies (wr y)) \<Longrightarrow> \<exists>l \<in> set (pg_log (store y)). records (qentry it) l"
    using r(2) unfolding audit_writer.chain_inv_def [OF writer] audit_repository.intact_def [OF repo] by blast+
  show "\<exists>ls. pg_log (store y) = pg_log rows @ ls \<and> int (length ls) = written (wr y)
       \<and> subseq (map ID ls) (map ID (accepted y))
       \<and> (queue (wr y) = [] \<and> failures (wr y) = 0 \<longrightarrow> list_all2 records (accepted y) ls)"
    using audit_writer.reachable_log [OF writer start intact assms(5)] .
  show "list_emb stored_as (published (wr y)) (pg_log (store y))"
    using audit_writer.reachable_published [OF writer start intact assms(5)] .
qed



text \<open>The log is written in the order of the queue. What the writer adds to the log are the
  records of queued entries in the order they were queued, each with the identifier, request, time,
  kind and normalised payload it was queued with; and once the queue is empty and no append failed,
  every queued entry has been recorded.\<close>

theorem writer_log_in_order:
  assumes "db_faithful db" "NewWriter True buffer pub (pg_Head db True rows) = Inr w"
    "pg_inv rows" "chained GenesisHash (pg_log rows)"
    "wreach (pg_Append db) honest_outcome (pg_built db) (start w rows) y"
  shows "\<exists>ls. pg_log (store y) = pg_log rows @ ls \<and> int (length ls) = written (wr y)
    \<and> subseq (map ID ls) (map ID (accepted y))
    \<and> (queue (wr y) = [] \<and> failures (wr y) = 0 \<longrightarrow> list_all2 records (accepted y) ls)"
  using pg_reachable(4) [OF assms] .

theorem writer_log_in_order_witness:
  "\<exists>y. sample_reach y \<and> replies (wr y) \<noteq> [] \<and>
    (\<exists>ls. pg_log (store y) = pg_log [] @ ls \<and> int (length ls) = written (wr y)
      \<and> subseq (map ID ls) (map ID (accepted y))
      \<and> (queue (wr y) = [] \<and> failures (wr y) = 0 \<longrightarrow> list_all2 records (accepted y) ls))"
proof -
  obtain y where y: "sample_reach y" "(sample_item, None) \<in> set (replies (wr y))" using sample_run by blast
  have "\<exists>ls. pg_log (store y) = pg_log [] @ ls \<and> int (length ls) = written (wr y)
      \<and> subseq (map ID ls) (map ID (accepted y))
      \<and> (queue (wr y) = [] \<and> failures (wr y) = 0 \<longrightarrow> list_all2 records (accepted y) ls)"
    by (rule writer_log_in_order [OF ideal_db_faithful sample_start _ _ y(1)]) (simp_all add: pg_inv_def)
  then show ?thesis using y by auto
qed

text \<open>C11: A synchronous record that returns without error is durable: the log holds its entry, with the
  identifier, request, time and kind it was built with and the same payload data.\<close>

theorem sync_record_durable:
  assumes "db_faithful db" "NewWriter True buffer pub (pg_Head db True rows) = Inr w"
    "pg_inv rows" "chained GenesisHash (pg_log rows)"
    "wreach (pg_Append db) honest_outcome (pg_built db) (start w rows) y"
    "RecordSync_returns it cancelled (wr y) None"
  shows "\<exists>l \<in> set (pg_log (store y)). records (qentry it) l"
  using pg_reachable(5) [OF assms(1-5)] assms(6) by (simp add: RecordSync_returns_def)

theorem sync_record_durable_witness:
  "\<exists>y. sample_reach y \<and> (\<exists>l \<in> set (pg_log (store y)). records (qentry sample_item) l)"
proof -
  obtain y where y: "sample_reach y" "(sample_item, None) \<in> set (replies (wr y))" using sample_run by blast
  have "\<exists>l \<in> set (pg_log (store y)). records (qentry sample_item) l"
    by (rule sync_record_durable [OF ideal_db_faithful sample_start _ _ y(1), where cancelled = True])
      (simp_all add: pg_inv_def RecordSync_returns_def y(2))
  then show ?thesis using y(1) by blast
qed

lemma pg_walk_interrupted: "pg_walk db (Some n) w rows = Inr r \<Longrightarrow> \<not> OK r"
proof (induction rows arbitrary: n w)
  case (Cons row rows)
  then obtain e where e: "scanEntry row = Inr e" "n \<noteq> 0" by (auto split: if_splits sum.splits)
  obtain w' o' where s: "step w e = (w', o')" by fastforce
  show ?case
  proof (cases o')
    case None
    then show ?thesis using Cons e s by auto
  next
    case (Some b)
    then have "b = r" using Cons.prems e s by auto
    then show ?thesis
      using s Some by (auto simp: step_def Let_def broken_def no_result_def split: if_splits)
  qed
qed simp

text \<open>C16: An interrupted read is never reported as an intact chain. When the result set breaks off,
  verification returns an error or the break it found, never OK.\<close>

theorem interrupted_read_never_ok:
  assumes "pg_VerifyChain db up1 up2 (Some n) rows from to = Inr r"
  shows "\<not> OK r"
  using assms pg_walk_interrupted
  by (auto simp: pg_VerifyChain_def split: sum.splits if_splits)

definition orphan_row :: Row where
  "orphan_row = \<lparr>rID = ''e1'', rRequestID = [], rTs = 0, rKind = ''system'', rPayload = ''{}'',
                 rPrevHash = ''nowhere'', rHash = []\<rparr>"

theorem interrupted_read_never_ok_witness:
  "\<exists>r. pg_VerifyChain ideal_db True True (Some 1) [orphan_row] 0 0 = Inr r \<and> \<not> OK r"
proof -
  have dec: "DecodeJSONPayload ''{}'' = Inr (Some [])" by code_simp
  have "\<exists>r. pg_VerifyChain ideal_db True True (Some 1) [orphan_row] 0 0 = Inr r"
    by (simp add: pg_VerifyChain_def anchorBefore_def is_zero_def timeRange_conditions_def select_where_def
        scanEntry_def orphan_row_def dec step_def newChainWalker_def GenesisHash_def Let_def)
  then show ?thesis using interrupted_read_never_ok by blast
qed

lemma render_args: "snd (render cs) = map snd cs"
  by (simp add: render_def)

lemma render_text:
  assumes "map fst cs = map fst cs'"
  shows "fst (render cs) = fst (render cs')"
proof -
  let ?text = "\<lambda>n t. replace_first (CHR ''?'') (placeholder n) t"
  have zip: "map (\<lambda>(n, c). ?text n (fst c)) (zip ns ds) = map (\<lambda>(n, t). ?text n t) (zip ns (map fst ds))"
    for ns :: "nat list" and ds :: "condition list"
    by (simp add: zip_map2 split_def o_def)
  have "length cs = length cs'" using assms map_eq_imp_length_eq by blast
  then show ?thesis using assms unfolding render_def zip by auto
qed

text \<open>C18: The text of a dashboard query holds nothing of the request. Two filters that set the same
  fields produce the same SQL text, whatever the values; the values travel as bound arguments, one per
  condition.\<close>

theorem filter_text_independent_of_values:
  assumes "FKind f = [] \<longleftrightarrow> FKind g = []" "FRequestID f = [] \<longleftrightarrow> FRequestID g = []"
    "FVerdict f = [] \<longleftrightarrow> FVerdict g = []" "FIP f = [] \<longleftrightarrow> FIP g = []" "FRule f = [] \<longleftrightarrow> FRule g = []"
    "is_zero (FFrom f) \<longleftrightarrow> is_zero (FFrom g)" "is_zero (FTo f) \<longleftrightarrow> is_zero (FTo g)"
  shows "fst (filterClause f) = fst (filterClause g)
    \<and> snd (filterClause f) = map snd (filter_conditions f)"
proof -
  have "map fst (filter_conditions f) = map fst (filter_conditions g)"
    by (simp only: filter_conditions_def map_append if_distrib [where f = "map fst"] list.map fst_conv assms)
  then have "fst (filterClause f) = fst (filterClause g)" unfolding filterClause_def by (rule render_text)
  then show ?thesis by (simp add: filterClause_def render_args)
qed

theorem filter_text_independent_of_values_witness:
  "fst (filterClause (no_filter\<lparr>FIP := ''1.2.3.4''\<rparr>)) = fst (filterClause (no_filter\<lparr>FIP := ''x OR 1=1''\<rparr>))
    \<and> snd (filterClause (no_filter\<lparr>FIP := ''1.2.3.4''\<rparr>)) = map snd (filter_conditions (no_filter\<lparr>FIP := ''1.2.3.4''\<rparr>))"
  by (rule filter_text_independent_of_values) (simp_all add: no_filter_def)

text \<open>A commit whose reply is lost forks the chain. When the database stores an entry but the writer
  sees an error, the writer keeps its old head, and whatever entry it seals next does not extend the
  stored log to an intact chain, unless the stored entry hashes to its own predecessor.\<close>

lemma lost_reply_forks_chain:
  assumes "db_faithful db" "pg_inv rows" "chained GenesisHash (pg_log rows)" "whead w = pg_head db rows"
    "pg_built db e" "writer_append (pg_Append db) ReplyLost pub_ok e (w, rows) = ((w', rows'), Some err)"
    "rows' \<noteq> rows"
  shows "\<not> chained GenesisHash (pg_log rows' @ [seal_entry (whead w') p e'])
    \<or> pg_head db rows' = pg_head db rows"
proof -
  note writer = pg_writer [OF assms(1)]
  note repo = audit_writer.axioms(1) [OF writer]
  have head: "pg_head db rows \<noteq> []"
    using assms(2,3) chained_hash_nonempty pg_Head_log GenesisHash_nonempty by metis
  have w': "whead w' = whead w" and "\<exists>q. NormalizePayload (Payload e) = Inr q"
    using assms(6,7) by (auto simp: writer_append_def Let_def split: sum.splits prod.splits option.splits)
  then obtain q where q: "NormalizePayload (Payload e) = Inr q" by blast
  let ?s = "seal_entry (whead w) q e"
  have len: "length (whead w) = 64"
    using audit_writer.intact_head_length [OF writer, of rows] assms(2-4)
    by (simp add: audit_repository.intact_def [OF repo])
  have "pg_storable db ?s" using audit_writer.built_storable [OF writer assms(5) q len] .
  moreover have "pg_Append db ReplyLost ?s rows = (rows', Some err)"
    using assms(6) q by (auto simp: writer_append_def Let_def split: prod.splits option.splits)
  then obtain payload where "CanonicalJSON (payload_value (Payload ?s)) = Inr payload"
    "insert_audit_log db ?s payload rows = Some rows'"
    using assms(7) by (auto simp: pg_Append_def Let_def split: sum.splits option.splits if_splits)
  ultimately obtain r l where "rows' = rows @ [r]" "scanEntry r = Inr l" "stored_as ?s l"
    using insert_audit_log_scan [OF assms(1)] by metis
  then have "pg_log rows' = pg_log rows @ [l]" "pg_inv rows'" using assms(2) by (simp_all add: pg_inv_def)
  moreover have "PrevHash (seal_entry (whead w') p e') = pg_head db rows"
    using w' assms(4) head by (simp add: seal_entry_fields)
  ultimately show ?thesis
    by (auto simp: chained_append sealed_def pg_Head_log)
qed

text \<open>It happens: the statement commits, its reply is lost.\<close>

lemma sample_lost_reply:
  "\<exists>w' rows' err. writer_append (pg_Append ideal_db) ReplyLost False sample_entry (sample_writer, [])
     = ((w', rows'), Some err) \<and> rows' \<noteq> []"
proof -
  let ?e = "seal_entry GenesisHash (Some []) sample_entry"
  have "CanonicalJSON (GMap []) = Inr ''{}''" by code_simp
  moreover have "char64 (PrevHash ?e) = Some (PrevHash ?e)" "char64 (Hash ?e) = Some (Hash ?e)"
    by (simp_all add: seal_entry_fields(1) GenesisHash_def char64_full)
       (rule char64_full, metis length_ComputeHash seal_entry_fields(2))
  moreover have "Payload sample_entry = None" "Kind sample_entry = KindAdmin"
    by (simp_all add: sample_entry_def build_def)
  moreover have "whead sample_writer = GenesisHash" by (simp add: sample_writer_def)
  ultimately show ?thesis
    by (simp add: writer_append_def pg_Append_def insert_audit_log_def NormalizePayload_def
        seal_entry_fields payload_value_def ideal_db_def Let_def)
qed

subsection \<open>Verifying a time range\<close>

lemma filter_sorted:
  "sorted (map f xs) \<Longrightarrow> filter (\<lambda>x. f x < a) xs = takeWhile (\<lambda>x. f x < a) xs
     \<and> filter (\<lambda>x. a \<le> f x) xs = dropWhile (\<lambda>x. f x < a) xs"
proof (induction xs)
  case (Cons x xs)
  have "\<forall>y \<in> set xs. a \<le> f y" if "a \<le> f x" using that Cons.prems by fastforce
  then show ?case using Cons by (cases "f x < a") (auto simp: filter_empty_conv filter_id_conv not_less)
qed simp

lemma pg_inv_sub: "pg_inv rows \<Longrightarrow> set rs \<subseteq> set rows \<Longrightarrow> pg_inv rs"
  by (auto simp: pg_inv_def list_all_iff)

lemma timeRange_holds:
  "list_all (condition_holds db r) (timeRange_conditions from to)
     \<longleftrightarrow> (is_zero from \<or> from \<le> rTs r) \<and> (is_zero to \<or> rTs r \<le> to)"
  by (auto simp: timeRange_conditions_def condition_holds_def)

lemma anchorBefore_log:
  assumes "pg_inv rows" "\<not> is_zero from"
  shows "anchorBefore db True from rows = Inr (head_of GenesisHash (pg_log (filter (\<lambda>r. rTs r < from) rows)))"
proof -
  let ?rs = "filter (\<lambda>r. rTs r < from) rows"
  have "pg_inv ?rs" by (rule pg_inv_sub [OF assms(1)]) auto
  then have "pg_head db ?rs = head_of GenesisHash (pg_log ?rs)" by (rule pg_Head_log)
  then show ?thesis using assms(2) by (simp add: anchorBefore_def pg_head_def pg_Head_def split: list.splits)
qed

lemma chained_middle:
  assumes "chained a (xs @ ys @ zs)" "a \<noteq> []"
  shows "chained (head_of a xs) ys" "head_of a xs \<noteq> []"
  using assms chained_hash_nonempty by (auto simp: chained_append)

text \<open>C15: Verifying a time range of an intact log whose entries are in the order of their timestamps
  succeeds, whatever the range.\<close>

theorem range_check_intact:
  assumes "pg_inv rows" "chained GenesisHash (pg_log rows)" "sorted (map rTs rows)"
  shows "\<exists>r. pg_VerifyChain db True True None rows from to = Inr r \<and> OK r"
proof -
  let ?pre = "if is_zero from then [] else filter (\<lambda>r. rTs r < from) rows"
  define rest where "rest = (if is_zero from then rows else filter (\<lambda>r. from \<le> rTs r) rows)"
  let ?mid = "filter (\<lambda>r. is_zero to \<or> rTs r \<le> to) rest"
  have rows: "rows = ?pre @ rest" using filter_sorted [OF assms(3)] by (simp add: rest_def)
  have "sorted (map rTs rest)" using assms(3) sorted_filter by (auto simp: rest_def)
  moreover have "(\<lambda>r. rTs r < to + 1) = (\<lambda>r. rTs r \<le> to)" by auto
  ultimately have "filter (\<lambda>r. rTs r \<le> to) rest = takeWhile (\<lambda>r. rTs r \<le> to) rest"
    using filter_sorted [of rTs rest "to + 1"] by simp
  then have "rest = ?mid @ (if is_zero to then [] else dropWhile (\<lambda>r. rTs r \<le> to) rest)"
    by (cases "is_zero to") (simp, simp only: if_False HOL.simp_thms takeWhile_dropWhile_id)
  then obtain tail where "rest = ?mid @ tail" by blast
  then have log: "pg_log rows = pg_log ?pre @ pg_log ?mid @ pg_log tail"
    using rows by (metis pg_log_simps(3))
  note chain = chained_middle [OF assms(2) [unfolded log]]
  have anchor: "anchorBefore db True from rows = Inr (head_of GenesisHash (pg_log ?pre))"
    using anchorBefore_log [OF assms(1)] by (simp add: anchorBefore_def)
  have sel: "select_where db (timeRange_conditions from to) rows = ?mid"
    unfolding select_where_def timeRange_holds rest_def by (auto intro: filter_cong)
  have "pg_inv ?mid" by (rule pg_inv_sub [OF assms(1)]) (auto simp: rest_def)
  then have "pg_VerifyChain db True True None rows from to
      = Inr (stampRange (walk (newChainWalker (head_of GenesisHash (pg_log ?pre))) (pg_log ?mid)) from to)"
    unfolding pg_VerifyChain_def anchor sel by (simp only: pg_walk_log sum.case not_True_eq_False if_False)
  then show ?thesis using chain by (simp add: walk_ok_iff prev_newChainWalker)
qed

text \<open>A log of two entries with an empty payload, recorded at the times \<open>t1\<close> and \<open>t2\<close>.\<close>

definition entry_at :: "string \<Rightarrow> string \<Rightarrow> time \<Rightarrow> AuditEntry" where
  "entry_at h uuid t = fst (Seal h (orphan\<lparr>ID := uuid, Timestamp := t\<rparr>))"

definition row_of :: "AuditEntry \<Rightarrow> Row" where
  "row_of e = \<lparr>rID = ID e, rRequestID = RequestID e, rTs = Timestamp e, rKind = Kind e,
               rPayload = ''{}'', rPrevHash = PrevHash e, rHash = Hash e\<rparr>"

definition two_rows :: "time \<Rightarrow> time \<Rightarrow> Row list" where
  "two_rows t1 t2 =
     (let e1 = entry_at GenesisHash ''e1'' t1 in [row_of e1, row_of (entry_at (Hash e1) ''e2'' t2)])"

lemma entry_at_facts:
  assumes "h \<noteq> []"
  shows "sealed h (entry_at h u t)" "Timestamp (entry_at h u t) = t"
    "scanEntry (row_of (entry_at h u t)) = Inr (entry_at h u t)"
proof -
  note f = Seal_fields [OF surjective_pairing, of h "orphan\<lparr>ID := u, Timestamp := t\<rparr>", folded entry_at_def]
  show "sealed h (entry_at h u t)" "Timestamp (entry_at h u t) = t"
    using f assms by (simp_all add: sealed_def)
  have "DecodeJSONPayload ''{}'' = Inr (Some [])" by code_simp
  moreover have "Payload (entry_at h u t) = Some []" using f(8) by (simp add: orphan_def)
  ultimately show "scanEntry (row_of (entry_at h u t)) = Inr (entry_at h u t)"
    by (simp add: scanEntry_def row_of_def)
qed

lemma two_rows_facts:
  "pg_inv (two_rows t1 t2)" "chained GenesisHash (pg_log (two_rows t1 t2))" "map rTs (two_rows t1 t2) = [t1, t2]"
proof -
  let ?h = "Hash (entry_at GenesisHash ''e1'' t1)"
  have h: "?h \<noteq> []"
    using entry_at_facts(1) [OF GenesisHash_nonempty] by (metis ComputeHash_nonempty sealed_def)
  show "pg_inv (two_rows t1 t2)" "chained GenesisHash (pg_log (two_rows t1 t2))" "map rTs (two_rows t1 t2) = [t1, t2]"
    using entry_at_facts [OF GenesisHash_nonempty, of "''e1''" t1] entry_at_facts [OF h, of "''e2''" t2]
    by (simp_all add: two_rows_def pg_inv_def Let_def row_of_def)
qed

theorem range_check_intact_witness:
  "\<exists>r. pg_VerifyChain ideal_db True True None (two_rows 5000 10000) 7000 9000 = Inr r \<and> OK r"
  by (rule range_check_intact) (simp_all add: two_rows_facts)

text \<open>With timestamps out of order, verifying a range of an intact log raises a false alarm. The
  anchor is the last entry before the range by position, the walk covers the entries in the range by
  time: when an entry inside the range was appended before one that lies before the range, the walk
  reports a break in an intact log, unless the later entry hashes to the genesis hash.\<close>

lemma range_check_false_alarm:
  assumes "pg_inv [r1, r2]" "chained GenesisHash (pg_log [r1, r2])" "0 < rTs r2" "rTs r2 < from" "from \<le> rTs r1"
  shows "\<exists>r. pg_VerifyChain db True True None [r1, r2] from 0 = Inr r \<and> (rHash r2 = GenesisHash \<or> \<not> OK r)"
proof -
  obtain e1 e2 where e: "scanEntry r1 = Inr e1" "scanEntry r2 = Inr e2"
    using assms(1) by (cases "scanEntry r1"; cases "scanEntry r2") (auto simp: pg_inv_def)
  have chain: "PrevHash e1 = GenesisHash" "Hash e2 \<noteq> []" "Hash e2 = rHash r2"
    using assms(2) e scanEntry_Hash [OF e(2)] by (auto simp: sealed_def)
  have "anchorBefore db True from [r1, r2] = Inr (rHash r2)"
    using assms(3-5) by (simp add: anchorBefore_def is_zero_def)
  moreover have "select_where db (timeRange_conditions from 0) [r1, r2] = [r1]"
    unfolding select_where_def timeRange_holds using assms(3-5) by (simp add: is_zero_def)
  moreover have "pg_walk db None (newChainWalker (rHash r2)) [r1] = Inr (walk (newChainWalker (rHash r2)) [e1])"
    using pg_walk_log [of "[r1]"] assms(1) e by (simp add: pg_inv_def)
  ultimately have "pg_VerifyChain db True True None [r1, r2] from 0
      = Inr (stampRange (walk (newChainWalker (rHash r2)) [e1]) from 0)"
    by (simp only: pg_VerifyChain_def sum.case not_True_eq_False if_False)
  moreover have "rHash r2 = GenesisHash \<or> \<not> OK (walk (newChainWalker (rHash r2)) [e1])"
    unfolding walk_ok_iff using chain by (auto simp: prev_newChainWalker sealed_def)
  ultimately show ?thesis by auto
qed

end
