(* ===== verification/Wire.thy ===== *)
theory Wire
  imports Audit_Memory Go_Http
begin

text \<open>
  The JSON forms of the values the two programs exchange: what \<^verbatim>\<open>encoding/json\<close> makes of the
  structs of \<^verbatim>\<open>internal/model\<close> and \<^verbatim>\<open>internal/audit\<close> under their field tags. A struct is
  the map of its fields; where the bytes matter, \<open>marshal_struct\<close> writes them in the order of declaration.
\<close>

text \<open>The text of an encoding error, without the offending value.\<close>

definition marshal_error_text :: "json_error \<Rightarrow> string" where
  "marshal_error_text e = (case e of UnsupportedValue \<Rightarrow> ''json: unsupported value'' | _ \<Rightarrow> ''json: invalid number literal'')"

text \<open>\<^verbatim>\<open>Time.MarshalJSON\<close> refuses years that do not have four digits.\<close>

definition json_time :: "time \<Rightarrow> goval" where
  "json_time t = (let y = fst (year_yday (t div (86400 * second))) + 1 in
     if 0 \<le> y \<and> y \<le> 9999 then GString (format_rfc3339nano t) else GOther None)"

definition optional :: "string \<Rightarrow> string \<Rightarrow> goval gomap" where
  "optional key val = (if val = [] then [] else [(key, GString val)])"

definition entry_members :: "AuditEntry \<Rightarrow> goval gomap" where
  "entry_members e = [(''id'', GString (ID e)), (''request_id'', GString (RequestID e)),
     (''timestamp'', json_time (Timestamp e)), (''kind'', GString (Kind e)),
     (''payload'', case Payload e of None \<Rightarrow> GNil | Some m \<Rightarrow> GMap m),
     (''prev_hash'', GString (PrevHash e)), (''hash'', GString (Hash e))]"

definition entry_value :: "AuditEntry \<Rightarrow> goval" where
  "entry_value e = GMap (entry_members e)"

definition marshal_struct :: "goval gomap \<Rightarrow> json_error + string" where
  "marshal_struct fs = wrap_object (collect (map (\<lambda>kv. member True (fst kv, marshal (snd kv))) fs))"

definition ip_rule_value :: "IPRule \<Rightarrow> goval" where
  "ip_rule_value r = GMap ([(''cidr'', GString (CIDR r)), (''action'', GString (Action r))] @ optional ''note'' (Note r)
     @ [(''created_at'', json_time (CreatedAt r))] @ optional ''created_by'' (CreatedBy r))"

definition rule_config_value :: "RuleConfig \<Rightarrow> goval" where
  "rule_config_value r = GMap ([(''name'', GString (RCName r)), (''enabled'', GBool (RCEnabled r))]
     @ (case RCConfig r of Some (kv # m) \<Rightarrow> [(''config'', GMap (kv # m))] | _ \<Rightarrow> [])
     @ [(''updated_at'', json_time (UpdatedAt r))] @ optional ''updated_by'' (UpdatedBy r))"

definition verify_value :: "VerifyResult \<Rightarrow> goval" where
  "verify_value v = GMap ([(''ok'', GBool (OK v)), (''checked'', GInt (Checked v))] @ optional ''from'' (VFrom v)
     @ optional ''to'' (VTo v) @ optional ''broken_at'' (BrokenAt v)
     @ (if Position v = 0 then [] else [(''position'', GInt (Position v))])
     @ optional ''timestamp'' (VTimestamp v) @ optional ''detail'' (Detail v))"

definition counted_value :: "CountedBy \<Rightarrow> goval" where
  "counted_value c = GMap [(''label'', GString (fst c)), (''count'', GInt (snd c))]"

definition bucket_value :: "Bucket \<Rightarrow> goval" where
  "bucket_value b = GMap [(''start'', json_time (Start b)), (''allowed'', GInt (BAllowed b)),
     (''blocked'', GInt (BBlocked b))]"

definition traffic_value :: "Stats \<Rightarrow> goval" where
  "traffic_value st = GMap [(''window'', GString (Window st)), (''total'', GInt (Total st)),
     (''allowed'', GInt (Allowed st)), (''blocked'', GInt (Blocked st)),
     (''top_ips'', GSlice (map counted_value (TopIPs st))), (''top_rules'', GSlice (map counted_value (TopRules st))),
     (''series'', GSlice (map bucket_value (Series st)))]"

subsection \<open>The size of an encoded object\<close>

lemma quote_ascii_length: "length (quote_ascii html n) \<le> 6"
  by (auto simp: quote_ascii_def u_escape_def Let_def)

lemma json_quote_length: "ascii s \<Longrightarrow> length (json_quote html s) \<le> 6 * length s + 2"
proof -
  assume a: "ascii s"
  have "length (quote_chunk html rc) \<le> 6" if "fst rc < 0x80" for rc
    using that quote_ascii_length by (simp add: quote_chunk_def)
  then have "length (concat (map (quote_chunk html) (map (\<lambda>c. (code c, [c])) t))) \<le> 6 * length t" if "ascii t" for t
    using that by (induction t) (auto simp: ascii_def intro!: add_mono)
  then show ?thesis using a by (simp add: json_quote_def quote_body_def utf8_chunks_ascii)
qed

definition part_size :: "json_error + string \<Rightarrow> nat" where
  "part_size r = (case r of Inl _ \<Rightarrow> 0 | Inr x \<Rightarrow> length x)"

lemma join_length: "length (join sep xs) \<le> sum_list (map (\<lambda>x. length x + length sep) xs)"
  by (induction sep xs rule: join.induct) auto

lemma collect_size: "collect rs = Inr xs \<Longrightarrow> sum_list (map (\<lambda>x. length x + 1) xs) = sum_list (map (\<lambda>r. part_size r + 1) rs)"
proof (induction rs arbitrary: xs)
  case (Cons r rs)
  then show ?case by (cases r) (auto simp: part_size_def split: sum.splits)
qed simp

lemma object_length:
  assumes "marshal (GMap m) = Inr b"
  shows "length b \<le> 2 + sum_list (map (\<lambda>kv. length (json_quote True (fst kv)) + part_size (marshal (snd kv)) + 2) m)"
proof -
  let ?ms = "map (\<lambda>kv. (fst kv, marshal (snd kv))) m"
  obtain xs where xs: "collect (map (member True) (sort_key fst ?ms)) = Inr xs" "b = ''{'' @ join '','' xs @ ''}''"
    using assms by (auto simp: encode_object_def wrap_object_def split: sum.splits)
  have size: "part_size (member True kr) \<le> length (json_quote True (fst kr)) + part_size (snd kr) + 1" for kr
    by (auto simp: member_def part_size_def split: sum.splits)
  have "sum_list (map (\<lambda>r. part_size r + 1) (map (member True) (sort_key fst ?ms)))
      = sum_list (map (\<lambda>kr. part_size (member True kr) + 1) ?ms)"
    by (simp add: o_def multiset.map_comp flip: sum_mset_sum_list)
  also have "\<dots> \<le> sum_list (map (\<lambda>kv. length (json_quote True (fst kv)) + part_size (marshal (snd kv)) + 2) m)"
    using size by (simp add: o_def) (intro sum_list_mono, force)
  finally show ?thesis using join_length [of "'',''" xs] collect_size [OF xs(1)] xs(2) by simp
qed

end
