(* ===== verification/Events.thy ===== *)
theory Events
  imports Wire Decode_Facts "HOL-Library.Sublist"
begin

text \<open>
  \<^verbatim>\<open>internal/events/events.go\<close>: publishing to Redis and the two subscriptions. Redis is an argument:
  what it answers to a publication. A subscription is a goroutine between the messages of the library and
  a buffered channel; its steps are interleaved with the consumer's.
\<close>

subsection \<open>Publishing\<close>

definition ControlChannelSuffix :: string where "ControlChannelSuffix = '':control''"

record Publisher =
  pchannel :: string

definition NewPublisher :: "string \<Rightarrow> Publisher" where
  "NewPublisher ch = \<lparr>pchannel = ch\<rparr>"

text \<open>The error, if any, and what was handed to Redis: a channel and a message.\<close>

definition Publish :: "(string \<Rightarrow> string \<Rightarrow> string option) \<Rightarrow> Publisher \<Rightarrow> AuditEntry
    \<Rightarrow> string option \<times> (string \<times> string) list" where
  "Publish redis_publish p e =
     (case marshal_struct (entry_members e) of
        Inl err \<Rightarrow> (Some (''events: marshal entry: '' @ marshal_error_text err), [])
      | Inr payload \<Rightarrow>
         (case redis_publish (pchannel p) payload of
            Some err \<Rightarrow> (Some (''events: publish: '' @ err), [])
          | None \<Rightarrow> (None, [(pchannel p, payload)])))"

definition Notify :: "(string \<Rightarrow> string \<Rightarrow> string option) \<Rightarrow> Publisher \<Rightarrow> string
    \<Rightarrow> string option \<times> (string \<times> string) list" where
  "Notify redis_publish p kind =
     (let ch = pchannel p @ ControlChannelSuffix in
      case redis_publish ch kind of
        Some err \<Rightarrow> (Some (''events: notify '' @ kind @ '': '' @ err), [])
      | None \<Rightarrow> (None, [(ch, kind)]))"

text \<open>Opening a connection: what a ping answers decides.\<close>

definition NewClient :: "string \<Rightarrow> string option \<Rightarrow> string + unit" where
  "NewClient addr ping_error =
     (case ping_error of Some err \<Rightarrow> Inl (''events: connect to redis at '' @ addr @ '': '' @ err) | None \<Rightarrow> Inr ())"

subsection \<open>Subscribing\<close>

text \<open>
  The channel between the goroutine and the consumer, whether the goroutine has returned and closed it,
  and what the consumer has taken. \<open>SubEnd\<close> is the end of the context or of the library's messages.
\<close>

record 'a Subscription =
  pending :: "'a list"
  ended :: bool
  taken :: "'a list"

datatype sub_event = SubMessage string | SubEnd | SubTake

definition opened :: "'a Subscription" where
  "opened = \<lparr>pending = [], ended = False, taken = []\<rparr>"

text \<open>\<^verbatim>\<open>json.Unmarshal\<close> into an entry.\<close>

definition entry_fields :: "(string \<times> AuditEntry setter) list" where
  "entry_fields =
     [(''id'', set_string (\<lambda>v. ID_update (\<lambda>_. v))), (''request_id'', set_string (\<lambda>v. RequestID_update (\<lambda>_. v))),
      (''timestamp'', set_time (\<lambda>v. Timestamp_update (\<lambda>_. v))), (''kind'', set_string (\<lambda>v. Kind_update (\<lambda>_. v))),
      (''payload'', set_any_map Payload (\<lambda>v. Payload_update (\<lambda>_. v))),
      (''prev_hash'', set_string (\<lambda>v. PrevHash_update (\<lambda>_. v))), (''hash'', set_string (\<lambda>v. Hash_update (\<lambda>_. v)))]"

definition no_entry :: AuditEntry where
  "no_entry = \<lparr>ID = [], RequestID = [], Timestamp = 0, Kind = [], Payload = None, PrevHash = [], Hash = []\<rparr>"

definition unmarshal_entry :: "string \<Rightarrow> AuditEntry option" where
  "unmarshal_entry msg = (case unmarshal_tree msg of None \<Rightarrow> None | Some t \<Rightarrow> set_struct False entry_fields t no_entry)"

text \<open>One message of \<^verbatim>\<open>Subscribe\<close>: malformed ones are dropped, and so is one the channel has no room for.\<close>

definition subscribe_message :: "nat \<Rightarrow> string \<Rightarrow> AuditEntry Subscription \<Rightarrow> AuditEntry Subscription" where
  "subscribe_message buffer msg s =
     (case unmarshal_entry msg of None \<Rightarrow> s
      | Some e \<Rightarrow> if length (pending s) < buffer then s\<lparr>pending := pending s @ [e]\<rparr> else s)"

definition control_message :: "string \<Rightarrow> string Subscription \<Rightarrow> string Subscription" where
  "control_message msg s = (if length (pending s) < 8 then s\<lparr>pending := pending s @ [msg]\<rparr> else s)"

text \<open>The loop, shared by both, and the consumer.\<close>

fun sub_step :: "(string \<Rightarrow> 'a Subscription \<Rightarrow> 'a Subscription) \<Rightarrow> sub_event \<Rightarrow> 'a Subscription \<Rightarrow> 'a Subscription" where
  "sub_step handle (SubMessage msg) s = (if ended s then s else handle msg s)"
| "sub_step handle SubEnd s = s\<lparr>ended := True\<rparr>"
| "sub_step handle SubTake s =
     (case pending s of [] \<Rightarrow> s | x # xs \<Rightarrow> s\<lparr>pending := xs, taken := taken s @ [x]\<rparr>)"

fun sub_run :: "(string \<Rightarrow> 'a Subscription \<Rightarrow> 'a Subscription) \<Rightarrow> sub_event list \<Rightarrow> 'a Subscription \<Rightarrow> 'a Subscription" where
  "sub_run handle [] s = s"
| "sub_run handle (ev # evs) s = sub_run handle evs (sub_step handle ev s)"

definition sub_buffer :: "int \<Rightarrow> nat" where
  "sub_buffer n = nat (if n \<le> 0 then 256 else n)"

definition Subscribe :: "int \<Rightarrow> sub_event list \<Rightarrow> AuditEntry Subscription" where
  "Subscribe buffer evs = sub_run (subscribe_message (sub_buffer buffer)) evs opened"

definition SubscribeControl :: "sub_event list \<Rightarrow> string Subscription" where
  "SubscribeControl evs = sub_run control_message evs opened"

subsection \<open>The shared contract\<close>

text \<open>
  Both loops put the readable messages into a bounded channel without ever waiting.
\<close>

locale lossy_relay =
  fixes handle :: "string \<Rightarrow> 'a Subscription \<Rightarrow> 'a Subscription" and read :: "string \<Rightarrow> 'a option" and room :: nat
  assumes handle_skip: "read msg = None \<Longrightarrow> handle msg s = s"
    and handle_put: "read msg = Some x \<Longrightarrow>
      handle msg s = (if length (pending s) < room then s\<lparr>pending := pending s @ [x]\<rparr> else s)"
    and room_pos: "0 < room"
begin

definition readable :: "sub_event list \<Rightarrow> 'a list" where
  "readable evs = concat (map (\<lambda>ev. case ev of SubMessage m \<Rightarrow> (case read m of None \<Rightarrow> [] | Some x \<Rightarrow> [x]) | _ \<Rightarrow> []) evs)"

lemma readable_simps [simp]: "readable [] = []"
  "readable (SubMessage m # evs) = (case read m of None \<Rightarrow> [] | Some x \<Rightarrow> [x]) @ readable evs"
  "readable (SubEnd # evs) = readable evs" "readable (SubTake # evs) = readable evs"
  by (simp_all add: readable_def)

lemma run_bounded: "length (pending s) \<le> room \<Longrightarrow> length (pending (sub_run handle evs s)) \<le> room"
proof (induction evs arbitrary: s)
  case (Cons ev evs)
  have "length (pending (sub_step handle ev s)) \<le> room"
  proof (cases ev)
    case (SubMessage m)
    then show ?thesis using Cons.prems handle_skip [of m s] handle_put [of m _ s] by (cases "read m") auto
  qed (use Cons.prems in \<open>auto split: list.splits\<close>)
  then show ?case using Cons.IH by simp
qed simp

lemma run_selects:
  "subseq (taken (sub_run handle evs s) @ pending (sub_run handle evs s)) (taken s @ pending s @ readable evs)"
proof (induction evs arbitrary: s)
  case (Cons ev evs)
  let ?s = "sub_step handle ev s"
  have "subseq (taken ?s @ pending ?s @ readable evs) (taken s @ pending s @ readable (ev # evs))"
  proof (cases ev)
    case (SubMessage m)
    then show ?thesis using handle_skip [of m s] handle_put [of m _ s] by (cases "read m") (auto intro: list_emb_append_mono)
  qed (auto split: list.splits)
  then show ?case using Cons.IH [of ?s] by (auto intro: subseq_order.order_trans)
qed simp

lemma run_complete:
  "length (pending s) + length (readable evs) \<le> room \<Longrightarrow> \<not> ended (sub_run handle evs s) \<Longrightarrow>
     \<not> ended s \<and> taken (sub_run handle evs s) @ pending (sub_run handle evs s) = taken s @ pending s @ readable evs"
proof (induction evs arbitrary: s)
  case (Cons ev evs)
  show ?case
  proof (cases ev)
    case (SubMessage m)
    show ?thesis
    proof (cases "read m")
      case None
      then show ?thesis using SubMessage Cons handle_skip [of m s] by (cases "ended s") force+
    next
      case (Some x)
      have "\<not> ended s"
      proof
        assume e: "ended s"
        then have "\<not> ended (sub_run handle evs s)" using Cons.prems(2) SubMessage by simp
        then show False using Cons.IH [of s] Cons.prems(1) SubMessage e Some by simp
      qed
      moreover have "handle m s = s\<lparr>pending := pending s @ [x]\<rparr>"
        using Some handle_put [of m x s] Cons.prems(1) SubMessage by simp
      ultimately show ?thesis
        using SubMessage Cons.IH [of "handle m s"] Cons.prems Some by simp
    qed
  next
    case SubEnd
    then show ?thesis using Cons.IH [of "s\<lparr>ended := True\<rparr>"] Cons.prems by simp
  next
    case SubTake
    then show ?thesis using Cons.IH [of "sub_step handle SubTake s"] Cons.prems
      by (cases "pending s") simp_all
  qed
qed simp

lemma message_leaves_work:
  assumes "read msg = Some x" "\<not> ended s"
  shows "pending (sub_step handle (SubMessage msg) s) \<noteq> []"
  using assms handle_put [OF assms(1), of s] room_pos by (cases "pending s") auto

end

interpretation entries_relay: lossy_relay "subscribe_message (sub_buffer n)" unmarshal_entry "sub_buffer n" for n
  by unfold_locales (simp_all add: subscribe_message_def sub_buffer_def)

interpretation control_relay: lossy_relay control_message Some 8
  by unfold_locales (simp_all add: control_message_def)

subsection \<open>A published entry reads back\<close>

definition safe_char :: "char \<Rightarrow> bool" where
  "safe_char c \<longleftrightarrow> is_digit c \<or> c \<in> set ''-:.TZ''"

lemma quote_body_safe: "list_all safe_char s \<Longrightarrow> quote_body html s = s" "list_all safe_char s \<Longrightarrow> ascii s"
proof -
  assume s: "list_all safe_char s"
  show a: "ascii s" using s by (auto simp: ascii_def list_all_iff safe_char_def is_digit_def code_def)
  have "quote_chunk html (code c, [c]) = [c]" if "safe_char c" for c
    using that by (auto simp: safe_char_def is_digit_def code_def quote_chunk_def quote_ascii_def byte_def)
  then have "concat (map (quote_chunk html) (map (\<lambda>c. (code c, [c])) s)) = s"
    using s by (induction s) simp_all
  then show "quote_body html s = s" using a by (simp add: quote_body_def utf8_chunks_ascii)
qed

lemma format_safe: "time_ok t \<Longrightarrow> list_all safe_char (format_rfc3339nano t)"
proof -
  assume ok: "time_ok t"
  obtain y m d where c: "civil t = (y, m, d)" by (cases "civil t") auto
  have dig: "list_all safe_char ds" if "list_all is_digit ds" for ds using that by (auto simp: list_all_iff safe_char_def)
  have pad: "list_all safe_char (pad w n)" "list_all safe_char (strip_zeros (pad w n))" for w n
    using dig pad_digits(1) strip_zeros_digits by blast+
  have safe: "safe_char (CHR ''-'')" "safe_char (CHR ''T'')" "safe_char (CHR '':'')" "safe_char (CHR ''Z'')" "safe_char (CHR ''.'')"
    by (simp_all add: safe_char_def)
  show "list_all safe_char (format_rfc3339nano t)"
    using civil_bounds(1) [OF ok c] pad safe
    by (simp add: format_rfc3339nano_def format_seconds_def format_fraction_def format_year_def Let_def c)
qed

lemma json_time_ok:
  assumes "time_ok t"
  shows "json_time t = GString (format_rfc3339nano t)"
proof -
  obtain y yd where y: "year_yday (t div (86400 * second)) = (y, yd)" by fastforce
  have "0 \<le> t div (86400 * second)" "t div (86400 * second) < 3652059"
    using assms by (auto simp: time_ok_def second_def)
  from year_yday_bounds [OF y this] show ?thesis by (simp add: json_time_def y)
qed

text \<open>An entry as a subscriber gets it: the numbers of its payload have become \<^verbatim>\<open>float64\<close>.\<close>

definition received :: "AuditEntry \<Rightarrow> AuditEntry" where
  "received e = e\<lparr>Payload := map_option (\<lambda>m. case any_value (tree_of (GMap m)) of GMap n \<Rightarrow> n | _ \<Rightarrow> []) (Payload e)\<rparr>"

definition readable_entry :: "AuditEntry \<Rightarrow> bool" where
  "readable_entry e \<longleftrightarrow> utf8_valid (ID e) \<and> utf8_valid (RequestID e) \<and> utf8_valid (Kind e) \<and> utf8_valid (PrevHash e)
     \<and> utf8_valid (Hash e) \<and> time_ok (Timestamp e)
     \<and> (case Payload e of None \<Rightarrow> True | Some m \<Rightarrow> fits (max_depth - 1) (GMap m) \<and> numbers_fit (tree_of (GMap m)))"

lemma entry_tree:
  assumes "marshal_struct (entry_members e) = Inr b" "readable_entry e"
  shows "unmarshal_tree b = Some (JObj (map (\<lambda>kv. (fst kv, tree_of (snd kv))) (entry_members e)))"
proof -
  obtain ps where ps: "collect (map (\<lambda>kv. member True (fst kv, marshal (snd kv))) (entry_members e)) = Inr ps"
    "b = ''{'' @ join '','' ps @ ''}''"
    using assms(1) by (auto simp: marshal_struct_def wrap_object_def split: sum.splits)
  have keys: "utf8_coerce (fst kv) = fst kv" if "kv \<in> set (entry_members e)" for kv
    using that by (auto simp: entry_members_def utf8_coerce_id utf8_valid_ascii ascii_def code_def)
  have fit: "list_all (\<lambda>kv. fits (max_depth - Suc 0) (snd kv)) (entry_members e)"
    using assms(2) by (simp add: entry_members_def readable_entry_def json_time_ok split: option.splits)
  have "tree_value 0 b = Some (JObj (map (\<lambda>kv. (utf8_coerce (fst kv), tree_of (snd kv))) (entry_members e)), [])"
    using tree_struct [OF ps(1) _ fit, of "[]"] ps(2) by (simp add: max_depth_def)
  then show ?thesis using keys by (simp add: unmarshal_tree_def skip_ws_def cong: map_cong)
qed

lemma entry_payload_read:
  assumes "readable_entry e" "Payload r = None"
  shows "set_any_map Payload (\<lambda>v. Payload_update (\<lambda>_. v)) (tree_of (case Payload e of None \<Rightarrow> GNil | Some m \<Rightarrow> GMap m)) r
    = Some (r\<lparr>Payload := Payload (received e)\<rparr>)"
  using assms
  by (cases "Payload e") (simp_all add: set_any_map_def received_def readable_entry_def tree_of_map del: tree_of.simps(9) numbers_fit.simps)

lemma published_entry_read:
  assumes "Publish redis p e = (None, [(ch, msg)])" "readable_entry e"
  shows "unmarshal_entry msg = Some (received e)"
proof -
  have b: "marshal_struct (entry_members e) = Inr msg"
    using assms(1) by (auto simp: Publish_def split: sum.splits option.splits)
  have time: "quote_body True (format_rfc3339nano (Timestamp e)) = format_rfc3339nano (Timestamp e)"
    "parse_rfc3339 (format_rfc3339nano (Timestamp e)) = Some (Timestamp e)" "json_time (Timestamp e) = GString (format_rfc3339nano (Timestamp e))"
    using assms(2) quote_body_safe format_safe parse_format_rfc3339 json_time_ok by (simp_all add: readable_entry_def)
  have fields: "set_struct False entry_fields (JObj (map (\<lambda>kv. (fst kv, tree_of (snd kv))) (entry_members e))) no_entry
      = Some (e\<lparr>Payload := Payload (received e)\<rparr>)"
  proof -
    have utf8: "utf8_valid (ID e)" "utf8_valid (RequestID e)" "utf8_valid (Kind e)" "utf8_valid (PrevHash e)" "utf8_valid (Hash e)"
      using assms(2) by (simp_all add: readable_entry_def)
    note payload = entry_payload_read [OF assms(2), of "\<lparr>ID = ID e, RequestID = RequestID e, Timestamp = Timestamp e,
      Kind = Kind e, Payload = None, PrevHash = [], Hash = []\<rparr>", simplified]
    show ?thesis using utf8
      by (simp add: set_struct_def entry_members_def field_named_def entry_fields_def set_string_def set_time_def time
          utf8_coerce_id no_entry_def payload)
  qed
  then show ?thesis by (simp add: unmarshal_entry_def entry_tree [OF b assms(2)] received_def)
qed

subsection \<open>Properties\<close>

text \<open>The messages of a run, in order, and the publication of entries as such.\<close>

definition sub_messages :: "sub_event list \<Rightarrow> string list" where
  "sub_messages evs = concat (map (\<lambda>ev. case ev of SubMessage m \<Rightarrow> [m] | _ \<Rightarrow> []) evs)"

definition publications :: "(string \<Rightarrow> string \<Rightarrow> string option) \<Rightarrow> Publisher \<Rightarrow> AuditEntry list \<Rightarrow> string list \<Rightarrow> bool" where
  "publications redis p es msgs \<longleftrightarrow>
     list_all2 (\<lambda>e m. readable_entry e \<and> Publish redis p e = (None, [(pchannel p, m)])) es msgs"

lemma published_readable:
  assumes "publications redis p es (sub_messages evs)"
  shows "entries_relay.readable evs = map received es"
  using assms
proof (induction evs arbitrary: es)
  case Nil
  then show ?case by (simp add: publications_def sub_messages_def)
next
  case (Cons ev evs)
  show ?case
  proof (cases ev)
    case (SubMessage m)
    then obtain e es' where "es = e # es'" "readable_entry e" "Publish redis p e = (None, [(pchannel p, m)])"
      "publications redis p es' (sub_messages evs)"
      using Cons.prems by (auto simp: publications_def sub_messages_def list_all2_Cons2)
    then show ?thesis using SubMessage Cons.IH published_entry_read by simp
  qed (use Cons in \<open>simp_all add: publications_def sub_messages_def\<close>)
qed

text \<open>What is published is what is shown, or nothing is. When Redis delivers the publications of some
  entries, then whatever else happens and however late the consumer is, the subscription takes every message
  without waiting; what the consumer has received and what waits for it is an in-order selection of those
  entries, each with its identifiers, its instant to the nanosecond, its hashes and its payload, in which only
  numbers have become floats; no more than the buffer waits; while no more than the buffer has arrived nothing
  is missing. And a control message that reaches a live subscription always leaves a notification for the
  engine to act on, even if it is itself dropped.\<close>

theorem subscription_faithful:
  assumes "publications redis p es (sub_messages evs)" "sub = Subscribe n evs"
  shows "subseq (taken sub @ pending sub) (map received es)
    \<and> length (pending sub) \<le> sub_buffer n
    \<and> (length es \<le> sub_buffer n \<and> \<not> ended sub \<longrightarrow> taken sub @ pending sub = map received es)
    \<and> (ended (SubscribeControl cevs) \<or> pending (SubscribeControl (cevs @ [SubMessage kind])) \<noteq> [])"
proof -
  have app: "SubscribeControl (cevs @ [ev]) = sub_step control_message ev (SubscribeControl cevs)" for ev
  proof -
    have "sub_run h (cevs @ [ev]) s = sub_step h ev (sub_run h cevs s)" for h and s :: "string Subscription"
      by (induction cevs arbitrary: s) simp_all
    then show ?thesis by (simp add: SubscribeControl_def)
  qed
  show ?thesis
    using entries_relay.run_selects [of n evs opened] entries_relay.run_bounded [of opened n evs]
      entries_relay.run_complete [of opened evs n] published_readable [OF assms(1)]
      control_relay.message_leaves_work [of kind kind "SubscribeControl cevs"]
    unfolding assms(2) Subscribe_def app by (auto simp: opened_def)
qed

definition shown_entry :: AuditEntry where
  "shown_entry = \<lparr>ID = ''e1'', RequestID = ''r1'', Timestamp = unix_epoch, Kind = KindTraffic,
     Payload = Some [(''verdict'', GString ''allow'')], PrevHash = ''00'', Hash = ''ff''\<rparr>"

theorem subscription_faithful_witness:
  "\<exists>msg. Publish (\<lambda>_ _. None) (NewPublisher ''events'') shown_entry = (None, [(''events'', msg)])
    \<and> taken (Subscribe 0 [SubMessage msg, SubTake]) @ pending (Subscribe 0 [SubMessage msg, SubTake]) = [received shown_entry]"
proof -
  have time: "time_ok (Timestamp shown_entry)" by (simp add: shown_entry_def time_ok_def unix_epoch_def second_def)
  have entry: "readable_entry shown_entry"
    using time by (simp add: readable_entry_def shown_entry_def utf8_valid_ascii ascii_def code_def KindTraffic_def max_depth_def)
  have "\<forall>kv \<in> set (entry_members shown_entry). \<not> isl (marshal (snd kv))"
    using json_time_ok [OF time] marshal_object [of "[(''verdict'', GString ''allow'')]"]
    by (simp add: entry_members_def shown_entry_def del: marshal.simps(9))
  then have "\<not> isl (marshal_struct (entry_members shown_entry))"
    unfolding marshal_struct_def wrap_object_def
    using collect_ok [of "map (\<lambda>kv. member True (fst kv, marshal (snd kv))) (entry_members shown_entry)"]
    by (force simp: member_def isl_def split: sum.splits)
  then obtain msg where msg: "marshal_struct (entry_members shown_entry) = Inr msg" by (metis sum.collapse(2))
  then have pub: "Publish (\<lambda>_ _. None) (NewPublisher ''events'') shown_entry = (None, [(''events'', msg)])"
    by (simp add: Publish_def NewPublisher_def)
  have "publications (\<lambda>_ _. None) (NewPublisher ''events'') [shown_entry] (sub_messages [SubMessage msg, SubTake])"
    using pub entry by (simp add: publications_def sub_messages_def NewPublisher_def)
  moreover have "\<not> ended (Subscribe 0 [SubMessage msg, SubTake])"
    by (simp add: Subscribe_def subscribe_message_def opened_def split: list.splits option.splits)
  ultimately have "taken (Subscribe 0 [SubMessage msg, SubTake]) @ pending (Subscribe 0 [SubMessage msg, SubTake]) = [received shown_entry]"
    using subscription_faithful [OF _ refl, of "\<lambda>_ _. None" "NewPublisher ''events''" "[shown_entry]" "[SubMessage msg, SubTake]" 0 "[]" "[]"]
    by (simp add: sub_buffer_def)
  then show ?thesis using pub by blast
qed

end
