(* ===== verification/Engine_Main.thy ===== *)
theory Engine_Main
  imports Engine_Http RateLimit Rulestore Config Migrate Audit_Postgres Events
begin

text \<open>
  \<^verbatim>\<open>engine/cmd/engine/main.go\<close>: how the engine is put together. Starting up is a function from the
  outcomes of the calls it makes to the running process or the first error; reloading the configuration
  and the loop that triggers it act on the chain and on the state of its rules; shutting down acts on
  the audit writer.
\<close>

subsection \<open>The chain\<close>

text \<open>The state of all rules: the access list and the counters. The signature rules keep none.\<close>

record 'z RuleState =
  ips :: IPBlock
  rate :: "'z RateState"

definition ipblock_rule :: "'z RuleState Rule" where
  "ipblock_rule = \<lparr>Name = ipblock_Name,
     Evaluate = (\<lambda>req s. case ipblock_Evaluate req (ips s) of (v, r) \<Rightarrow> (v, s\<lparr>ips := r\<rparr>)), BlockStatus = None\<rparr>"

definition counted_rule :: "'z Redis \<Rightarrow> Limiter \<Rightarrow> 'z RuleState Rule" where
  "counted_rule redis l = \<lparr>Name = Name (ratelimit_rule redis l),
     Evaluate = (\<lambda>req s. case ratelimit_Evaluate redis l req (rate s) of (v, r) \<Rightarrow> (v, s\<lparr>rate := r\<rparr>)),
     BlockStatus = BlockStatus (ratelimit_rule redis l)\<rparr>"

definition engine_chain :: "'z Redis \<Rightarrow> (nat \<Rightarrow> nat) \<Rightarrow> (nat \<Rightarrow> bool) \<Rightarrow> EngineConfig \<Rightarrow> SignatureSet
    \<Rightarrow> 'z RuleState Engine" where
  "engine_chain redis lower printable cfg sigs =
     New [ipblock_rule,
          counted_rule redis (NewLimiter (ecRateLimitRequests cfg) (ecRateLimitWindow cfg)),
          pattern_rule lower printable (NewPatternRule ''sqli'' (SQLi sigs) (ecMaxBodyInspect cfg)),
          pattern_rule lower printable (NewPatternRule ''xss'' (XSS sigs) (ecMaxBodyInspect cfg))]"

subsection \<open>Reloading\<close>

text \<open>What one reload finds: the tables, and for each of its two reads whether it works and where it breaks.\<close>

record snapshot =
  rules_up :: bool
  rules_brk :: "nat option"
  ips_up :: bool
  ips_brk :: "nat option"
  tables :: RuleTables

definition applyConfig :: "RuleSQL \<Rightarrow> snapshot \<Rightarrow> 'z RuleState Engine \<times> 'z RuleState
    \<Rightarrow> 'z RuleState Engine \<times> 'z RuleState" where
  "applyConfig sql snap cs =
     (let (chain, s) = cs;
          chain = (case EnabledMap sql (rules_up snap) (rules_brk snap) (tables snap) of
                     Inl _ \<Rightarrow> chain | Inr on \<Rightarrow> SetEnabled on chain)
      in case IPRules sql (ips_up snap) (ips_brk snap) (tables snap) of
           Inl _ \<Rightarrow> (chain, s)
         | Inr ipRules \<Rightarrow> (chain, s\<lparr>ips := fst (ipblock_Set ipRules (ips s))\<rparr>))"

text \<open>
  What the loop of \<^verbatim>\<open>watchConfig\<close> can receive. A closed notification channel is set to nil, after
  which it delivers nothing.
\<close>

datatype watch_event = CtxDone | Notified string snapshot | NotificationsClosed | Tick snapshot

fun watchConfig :: "(string \<Rightarrow> snapshot \<Rightarrow> 'w \<Rightarrow> 'w) \<Rightarrow> bool \<Rightarrow> watch_event list \<Rightarrow> 'w \<Rightarrow> 'w" where
  "watchConfig reload live [] w = w"
| "watchConfig reload live (CtxDone # evs) w = w"
| "watchConfig reload live (Notified kind snap # evs) w =
     watchConfig reload live evs (if live then reload (''notification:'' @ kind) snap w else w)"
| "watchConfig reload live (NotificationsClosed # evs) w = watchConfig reload False evs w"
| "watchConfig reload live (Tick snap # evs) w = watchConfig reload live evs (reload ''periodic'' snap w)"

text \<open>The closure \<^verbatim>\<open>reload\<close>; the reason only goes to the log.\<close>

definition reload :: "RuleSQL \<Rightarrow> string \<Rightarrow> snapshot \<Rightarrow> 'z RuleState Engine \<times> 'z RuleState
    \<Rightarrow> 'z RuleState Engine \<times> 'z RuleState" where
  "reload sql reason snap cs = applyConfig sql snap cs"

subsection \<open>Starting\<close>

datatype startup_error =
    BadEnvironment "config_error list"
  | StoreUnavailable string
  | MigrationFailed migrate_error
  | RedisUnavailable string
  | WriterFailed string
  | SignaturesFailed signature_error

text \<open>Everything outside the program that starting up consults.\<close>

record ('s, 'z) outside =
  environment :: environ
  engine_pool :: PoolOutcomes
  sql_exec :: "string \<Rightarrow> 's \<Rightarrow> 's option"
  migration_files :: src
  migration_env :: menv
  schema_db :: "'s SchemaDB"
  redis_ping :: "string option"
  database :: Database
  head_up :: bool
  log_rows :: "Row list"
  compile :: "string \<Rightarrow> regexp option"
  read_file :: "string \<Rightarrow> bytes option"
  embedded :: bytes
  redis_cmds :: "'z Redis"
  lower_table :: "nat \<Rightarrow> nat"
  print_table :: "nat \<Rightarrow> bool"
  rule_sql :: RuleSQL
  first_read :: snapshot
  counters :: "'z RateState"
  ready_store :: "string option"
  ready_redis :: "string option"
  build_version :: string
  fresh_uuid :: string
  time_now :: time

definition started_payload :: "string \<Rightarrow> 's Engine \<Rightarrow> EngineConfig \<Rightarrow> goval gomap" where
  "started_payload ver chain cfg =
     [(''event'', GString ''engine_started''), (''version'', GString ver),
      (''chain'', GOther (Some (''['' @ join '','' (map (json_quote True) (Names chain)) @ '']''))),
      (''ratelimit_limit'', GInt (ecRateLimitRequests cfg)),
      (''ratelimit_window'', GString (duration_string (ecRateLimitWindow cfg)))]"

text \<open>The closure behind \<^verbatim>\<open>/readyz\<close>, over the outcomes of the two pings.\<close>

definition ready_check :: "('s, 'z) outside \<Rightarrow> string option" where
  "ready_check out =
     (case ready_store out of Some err \<Rightarrow> Some (''postgres: '' @ err)
      | None \<Rightarrow> (case ready_redis out of Some err \<Rightarrow> Some (''redis: '' @ err) | None \<Rightarrow> None))"

text \<open>\<^verbatim>\<open>run\<close> up to the point where the server listens.\<close>

definition engine_start :: "('s, 'z) outside
    \<Rightarrow> startup_error + ('z RuleState Server \<times> 'z RuleState) \<times> 's SchemaDB" where
  "engine_start out =
     (case LoadEngine (environment out) of (cfg, errs) \<Rightarrow>
        if errs \<noteq> [] then Inl (BadEnvironment errs)
        else case NewPostgres (engine_pool out) (ecPostgresDSN cfg) of Inl e \<Rightarrow> Inl (StoreUnavailable e) | Inr pool \<Rightarrow>
       (case Apply (sql_exec out) (migration_files out) (migration_env out) (schema_db out) of
          (Some e, sdb) \<Rightarrow> Inl (MigrationFailed e)
        | (None, sdb) \<Rightarrow>
           (case NewClient (ecRedisAddr cfg) (redis_ping out) of Inl e \<Rightarrow> Inl (RedisUnavailable e) | Inr _ \<Rightarrow>
            case NewWriter True (ecAuditBuffer cfg) True (pg_Head (database out) (head_up out) (log_rows out)) of
              Inl e \<Rightarrow> Inl (WriterFailed e)
            | Inr w \<Rightarrow>
               (case LoadSignatures (compile out) (read_file out) (embedded out)
                       (getenv (environment out) ''OS_PATTERNS_FILE'') of
                  Inl e \<Rightarrow> Inl (SignaturesFailed e)
                | Inr sigs \<Rightarrow>
                   (let chain = engine_chain (redis_cmds out) (lower_table out) (print_table out) cfg sigs;
                        (chain, s) = reload (rule_sql out) ''startup'' (first_read out)
                                       (chain, \<lparr>ips = NewIPBlock, rate = counters out\<rparr>);
                        w = Record (build (fresh_uuid out) (time_now out) KindSystem []
                                      (Some (started_payload (build_version out) chain cfg))) w
                    in Inr ((engine_New chain w (Some (ready_check out)) (build_version out), s), sdb))))))"

subsection \<open>Stopping\<close>

text \<open>
  \<^verbatim>\<open>shutdown\<close>: the server stops accepting and its handlers end (so no call is in flight), the
  stop is recorded, the queue is closed, and the writer works on it for the rounds the deadline allows.
\<close>

definition engine_shutdown :: "('env \<Rightarrow> AuditEntry \<Rightarrow> 'st \<Rightarrow> 'st \<times> string option) \<Rightarrow> ('env \<times> bool) list
    \<Rightarrow> string \<Rightarrow> time \<Rightarrow> Writer \<times> 'st \<Rightarrow> (string option \<times> WriterStats) \<times> (Writer \<times> 'st)" where
  "engine_shutdown app rounds uuid now ws =
     (let (w, s) = ws;
          w = Record (build uuid now KindSystem [] (Some [(''event'', GString ''engine_stopping'')])) w;
          (w, s) = run app rounds (Close_begin w, s)
      in ((map_option (\<lambda>e. ''draining the audit queue: '' @ e) (Close_result w), writer_Stats w), (w, s)))"

text \<open>The end of \<^verbatim>\<open>run\<close>: the listener fails, or a signal asks for a shutdown.\<close>

definition engine_wait :: "('env \<Rightarrow> AuditEntry \<Rightarrow> 'st \<Rightarrow> 'st \<times> string option) \<Rightarrow> ('env \<times> bool) list
    \<Rightarrow> string \<Rightarrow> time \<Rightarrow> string option \<Rightarrow> Writer \<times> 'st \<Rightarrow> string option \<times> (Writer \<times> 'st)" where
  "engine_wait app rounds uuid now listen_error ws =
     (case listen_error of Some err \<Rightarrow> (Some err, ws)
      | None \<Rightarrow> (case engine_shutdown app rounds uuid now ws of ((err, stats), ws) \<Rightarrow> (err, ws)))"

text \<open>A log level that cannot be read is \<^verbatim>\<open>info\<close>.\<close>

definition engine_newLogger :: "string \<Rightarrow> int" where
  "engine_newLogger level = (case parse_level level of None \<Rightarrow> 0 | Some l \<Rightarrow> l)"

text \<open>
  The program: what it logs as an error, and its exit status. \<open>serve\<close> is what happens to the queue and the
  store from the start of the server to the end of \<^verbatim>\<open>run\<close>, \<^const>\<open>engine_wait\<close> being its last step.
\<close>

definition engine_main :: "('s, 'z) outside \<Rightarrow> (Writer \<Rightarrow> string option \<times> (Writer \<times> 'st))
    \<Rightarrow> (string \<times> (startup_error + string)) list \<times> int" where
  "engine_main out serve =
     (case engine_start out of
        Inl e \<Rightarrow> ([(''engine failed to start'', Inl e)], 1)
      | Inr ((srv, s), sdb) \<Rightarrow>
          (case fst (serve (srv_writer srv)) of
             Some err \<Rightarrow> ([(''engine failed to start'', Inr err)], 1)
           | None \<Rightarrow> ([], 0)))"

subsection \<open>Reloading, in general\<close>

lemma applyConfig_keeps:
  assumes "applyConfig sql snap (chain, s) = (chain', s')"
  shows "rules chain' = rules chain" "rate s' = rate s"
  using assms by (auto simp: applyConfig_def SetEnabled_def Let_def split: sum.splits)

lemma watch_invariant:
  assumes "\<And>reason snap w. P w \<Longrightarrow> P (f reason snap w)" "P w"
  shows "P (watchConfig f live evs w)"
  using assms(2)
proof (induction evs arbitrary: live w)
  case (Cons ev evs)
  then show ?case by (cases ev) (auto intro: assms(1))
qed simp

lemma watch_last_tick:
  "CtxDone \<notin> set evs \<Longrightarrow>
     watchConfig f live (evs @ [Tick snap]) w = f ''periodic'' snap (watchConfig f live evs w)"
proof (induction evs arbitrary: live w)
  case (Cons ev evs)
  then show ?case by (cases ev) auto
qed simp

definition whole :: "snapshot \<Rightarrow> bool" where
  "whole snap \<longleftrightarrow> rules_up snap \<and> rules_brk snap = None \<and> ips_up snap \<and> ips_brk snap = None"

text \<open>The tables are enforced: the enabled rules are those stored as enabled, the addresses refused those denied and not allowed.\<close>

definition enforces :: "RuleTables \<Rightarrow> 'z RuleState Engine \<Rightarrow> 'z RuleState \<Rightarrow> bool" where
  "enforces db chain s \<longleftrightarrow>
     (\<forall>k. map_get False (enabled chain) k
        = (k \<in> set (Names chain) \<and> (\<exists>r \<in> set (rules_table db). rr_name r = k \<and> rr_enabled r)))
     \<and> (\<forall>req. fst (fst (ipblock_Evaluate req (ips s))) = Block \<longleftrightarrow>
          (\<exists>a. ParseAddr (IP req) = Some a
             \<and> (\<exists>p. access db p = Some ActionDeny \<and> Contains p a)
             \<and> \<not> (\<exists>p. access db p = Some ActionAllow \<and> Contains p a)))"

lemma applyConfig_enforces:
  assumes "list_inv sql (tables snap)" "whole snap" "applyConfig sql snap (chain, s) = (chain', s')"
  shows "enforces (tables snap) chain' s'"
proof -
  have "tables_ok (tables snap)" using assms(1) by (simp add: list_inv_def)
  then obtain m where m: "EnabledMap sql True None (tables snap) = Inr m"
    "\<And>k. map_get False m k = (\<exists>r \<in> set (rules_table (tables snap)). rr_name r = k \<and> rr_enabled r)"
    by (rule EnabledMap_ok) blast
  have ch: "chain' = SetEnabled m chain" and s': "s' = s\<lparr>ips := fst (ipblock_Set (listed sql (tables snap)) (ips s))\<rparr>"
    using assms(2,3) by (auto simp: applyConfig_def whole_def m(1) listed_rows(1) Let_def)
  have names: "Names (SetEnabled m chain) = Names chain" by (simp add: Names_map SetEnabled_def)
  have "ips s' = rulestore.enforced sql (tables snap)" by (simp add: s' rulestore.enforced_def ipblock_Set_def)
  then have "fst (fst (ipblock_Evaluate req (ips s'))) = Block \<longleftrightarrow>
      (\<exists>a. ParseAddr (IP req) = Some a \<and> (\<exists>p. access (tables snap) p = Some ActionDeny \<and> Contains p a)
         \<and> \<not> (\<exists>p. access (tables snap) p = Some ActionAllow \<and> Contains p a))" for req
    using rulestore.enforced_iff [OF assms(1), of req] by (simp add: rulestore.covered_def)
  moreover have "map_get False (enabled chain') k = (k \<in> set (Names chain') \<and>
      (\<exists>r \<in> set (rules_table (tables snap)). rr_name r = k \<and> rr_enabled r))" for k
    unfolding ch names SetEnabled_lookup m(2) ..
  ultimately show ?thesis unfolding enforces_def by blast
qed

lemma cut_scan: "\<exists>e. scan_rows scan (Some n) rs = Inl e"
  using scan_rows_interrupted by (cases "scan_rows scan (Some n) rs") blast+

lemma broken_rules: "\<not> up \<or> brk \<noteq> None \<Longrightarrow> \<exists>e. EnabledMap sql up brk db = Inl e"
  using cut_scan [of scan_rule _ "sort_key (\<lambda>r. text_collate sql (rr_name r)) (rules_table db)"]
  by (auto simp: EnabledMap_def Rules_def split: sum.splits) (metis sum.distinct(1))

lemma broken_ips: "\<not> up \<or> brk \<noteq> None \<Longrightarrow> \<exists>e. IPRules sql up brk db = Inl e"
  using cut_scan by (auto simp: IPRules_def)

lemma applyConfig_failed:
  assumes "applyConfig sql snap (chain, s) = (chain', s')"
  shows "\<not> rules_up snap \<or> rules_brk snap \<noteq> None \<Longrightarrow> chain' = chain"
    "\<not> ips_up snap \<or> ips_brk snap \<noteq> None \<Longrightarrow> s' = s"
proof -
  show "chain' = chain" if "\<not> rules_up snap \<or> rules_brk snap \<noteq> None"
    using broken_rules [OF that, of sql "tables snap"] assms
    by (auto simp: applyConfig_def Let_def split: sum.splits)
  show "s' = s" if "\<not> ips_up snap \<or> ips_brk snap \<noteq> None"
    using broken_ips [OF that, of sql "tables snap"] assms
    by (auto simp: applyConfig_def Let_def)
qed

subsection \<open>The chain, in general\<close>

lemma engine_chain_names:
  "Names (engine_chain redis lower printable cfg sigs) = [''ipblock'', ''ratelimit'', ''sqli'', ''xss'']"
  by (simp add: engine_chain_def New_def Names_map ipblock_rule_def ipblock_Name_def counted_rule_def
      ratelimit_rule_def pattern_rule_def NewPatternRule_def)

lemma ipblock_rule_facts: "Name ipblock_rule = ''ipblock''" "blockStatus ipblock_rule = 403"
  by (simp_all add: ipblock_rule_def ipblock_Name_def blockStatus_def StatusForbidden_def)

lemma ratelimit_fails_open:
  "\<not> redis_up (rate s) \<Longrightarrow> fst (Evaluate (counted_rule redis l) req s) = (Allow, [])"
  by (simp add: counted_rule_def ratelimit_Evaluate_def limiter_Allow_def Let_def)

text \<open>What a tick makes of the chain and the state of the rules, whatever came before it.\<close>

lemma tick_enforces:
  assumes "CtxDone \<notin> set evs" "list_inv sql (tables snap)" "whole snap"
    "watchConfig (reload sql) live (evs @ [Tick snap]) (chain, s) = (chain', s')"
  shows "enforces (tables snap) chain' s'" "rules chain' = rules chain" "rate s' = rate s"
proof -
  let ?P = "\<lambda>cs. rules (fst cs) = rules chain \<and> rate (snd cs) = rate s"
  have step: "?P (reload sql reason snap cs)" if "?P cs" for reason snap cs
    using that applyConfig_keeps [of sql snap "fst cs" "snd cs" "fst (applyConfig sql snap cs)" "snd (applyConfig sql snap cs)"]
    by (simp add: reload_def)
  obtain c2 s2 where pre: "watchConfig (reload sql) live evs (chain, s) = (c2, s2)" by fastforce
  have "applyConfig sql snap (c2, s2) = (chain', s')"
    using watch_last_tick [OF assms(1), of "reload sql" live snap "(chain, s)"] assms(4) pre by (simp add: reload_def)
  then show "enforces (tables snap) chain' s'" by (rule applyConfig_enforces [OF assms(2,3)])
  have "?P (watchConfig (reload sql) live (evs @ [Tick snap]) (chain, s))"
    by (rule watch_invariant [where P = ?P, OF step]) simp_all
  then show "rules chain' = rules chain" "rate s' = rate s" using assms(4) by simp_all
qed

subsection \<open>Properties\<close>

text \<open>C31: The engine enforces what the database says, within one tick. Whatever notifications arrived or were
  lost before, and even after the notification channel has closed, once the periodic timer fires and both
  tables can be read the enabled rules are exactly those stored as enabled and the refused addresses exactly
  those under a stored deny entry and no stored allow entry; the request counters are untouched. A reload
  that cannot read a table, or is cut off while reading it, leaves the part it concerns as it was.\<close>

theorem reload_follows_database:
  assumes "CtxDone \<notin> set evs" "list_inv sql (tables snap)" "whole snap"
    "watchConfig (reload sql) live (evs @ [Tick snap]) (chain, s) = (chain', s')"
    "applyConfig sql bad (chain, s) = (chain1, s1)"
  shows "enforces (tables snap) chain' s' \<and> Names chain' = Names chain \<and> rate s' = rate s
    \<and> (rules_up bad \<and> rules_brk bad = None \<or> chain1 = chain) \<and> (ips_up bad \<and> ips_brk bad = None \<or> s1 = s)"
proof -
  have "rules_up bad \<and> rules_brk bad = None \<or> chain1 = chain" "ips_up bad \<and> ips_brk bad = None \<or> s1 = s"
    using applyConfig_failed [OF assms(5)] by blast+
  then show ?thesis using tick_enforces [OF assms(1-4)] by (simp add: Names_map)
qed

definition quiet_counters :: "ZSet RateState" where
  "quiet_counters = \<lparr>zsets = (\<lambda>_. empty_zset), clock = 0, redis_up = False, redis_error = [], storeErrors = 0\<rparr>"

definition empty_snapshot :: snapshot where
  "empty_snapshot = \<lparr>rules_up = True, rules_brk = None, ips_up = True, ips_brk = None, tables = empty_tables\<rparr>"

theorem reload_follows_database_witness:
  "\<exists>chain' s'. watchConfig (reload plain_sql) True ([NotificationsClosed] @ [Tick empty_snapshot])
      (New [ipblock_rule], \<lparr>ips = NewIPBlock, rate = quiet_counters\<rparr>) = (chain', s')
    \<and> enforces empty_tables chain' s' \<and> Names chain' = [''ipblock'']"
proof -
  let ?cs = "(New [ipblock_rule], \<lparr>ips = NewIPBlock, rate = quiet_counters\<rparr>)"
  obtain chain' s' where w: "watchConfig (reload plain_sql) True ([NotificationsClosed] @ [Tick empty_snapshot]) ?cs = (chain', s')"
    by fastforce
  obtain c1 s1 where a: "applyConfig plain_sql empty_snapshot ?cs = (c1, s1)" by fastforce
  have "list_inv plain_sql (tables empty_snapshot)" "whole empty_snapshot"
    by (simp_all add: empty_snapshot_def empty_tables_inv whole_def)
  from reload_follows_database [OF _ this w a] w show ?thesis
    by (auto simp: empty_snapshot_def Names_map New_def ipblock_rule_def ipblock_Name_def)
qed

text \<open>A denied client costs no more than a prefix comparison. With the access list enabled, a request from
  a denied address is answered by that rule with status 403 and a reason, and the whole state of the rules,
  the request counters in Redis included, is as before: the other rules were not consulted.\<close>

lemma denied_client_never_counted:
  assumes "rules chain = rules (engine_chain redis lower printable cfg sigs)"
    "map_get False (enabled chain) ''ipblock''" "fst (fst (ipblock_Evaluate req (ips s))) = Block"
  shows "\<exists>reason. reason \<noteq> [] \<and> Decide chain micros req s =
    (\<lparr>DVerdict = Block, DRule = ''ipblock'', DReason = reason, DStatus = 403, DecisionMicros = micros\<rparr>, s)"
proof -
  obtain reason r where ev: "ipblock_Evaluate req (ips s) = ((Block, reason), r)"
    using assms(3) by (metis prod.collapse)
  have r: "r = ips s" using ev by (auto simp: ipblock_Evaluate_def split: option.splits)
  obtain rest where rest: "rules chain = ipblock_rule # rest"
    using assms(1) by (auto simp: engine_chain_def New_def)
  have "Evaluate ipblock_rule req s = ((Block, reason), s)" by (simp add: ipblock_rule_def ev r)
  then show ?thesis
    using rest assms(2) ipblock.block_reason [OF ev] by (simp add: Decide_def ipblock_rule_facts)
qed

lemma Apply_ok_names:
  assumes "Apply exec fs env db = (None, db')"
  obtains names where "sortedMigrations fs = Inr names" "set names \<subseteq> set (versions db')"
proof -
  obtain names where names: "sortedMigrations fs = Inr names"
    using assms by (auto simp: Apply_def Let_def split: if_splits sum.splits prod.splits)
  from names assms have "versions db' = versions db @ Migrate.pending names db" by (rule Apply_prefix) simp
  then have "set names \<subseteq> set (versions db')" by (auto simp: Migrate.pending_def)
  with names show thesis by (rule that)
qed

lemma reload_rules: "reload sql reason snap (chain, s) = (chain', s') \<Longrightarrow> rules chain' = rules chain"
  unfolding reload_def by (rule applyConfig_keeps)


definition sample_out :: "(string list, ZSet) outside" where
  "sample_out = \<lparr>environment = sample_env, engine_pool = healthy_pool, sql_exec = log_exec, migration_files = two_files,
     migration_env = quiet, schema_db = fresh_db, redis_ping = None, database = ideal_db, head_up = True,
     log_rows = [], compile = (\<lambda>p. Some (find_literal p 0)), read_file = (\<lambda>_. None),
     embedded = projr (marshal (signatures_file \<lparr>SQLi = [quote_or\<lparr>re := None\<rparr>], XSS = []\<rparr>)), redis_cmds = documented_redis,
     lower_table = id, print_table = (\<lambda>_. True), rule_sql = plain_sql, first_read = empty_snapshot,
     counters = quiet_counters, ready_store = None, ready_redis = None, build_version = ''dev'', fresh_uuid = ''u'', time_now = 0\<rparr>"

lemma sample_engine_starts: "\<exists>srv s sdb. engine_start sample_out = Inr ((srv, s), sdb)"
proof -
  have env: "LoadEngine sample_env = (fst (LoadEngine sample_env), [])" by (simp add: sample_load)
  have names: "sortedMigrations two_files = Inr [''001.sql'', ''002.sql'']" by code_simp
  have "fst (Apply log_exec two_files quiet fresh_db) = None"
    by (simp add: Apply_def names appliedVersions_def apply_one_def log_exec_def two_files_contents quiet_def
        fresh_db_def Let_def)
  then obtain sdb where mig: "Apply log_exec two_files quiet fresh_db = (None, sdb)" by (metis prod.collapse)
  have pat: "getenv sample_env ''OS_PATTERNS_FILE'' = []" by (simp add: getenv_def sample_env_def)
  let ?sigs = "\<lparr>SQLi = [quote_or\<lparr>re := None\<rparr>], XSS = []\<rparr>"
  have "plain_signature (quote_or\<lparr>re := None\<rparr>)"
    by (simp add: plain_signature_def quote_or_def utf8_valid_ascii ascii_def code_def)
  then have read: "unmarshal_signatures (projr (marshal (signatures_file ?sigs))) = Some ?sigs"
    using signatures_file_writes [of ?sigs] signatures_file_reads [of ?sigs] by auto
  show ?thesis
    by (subst engine_start_def, simp only: sample_out_def outside.simps)
      (subst env, simp add: mig pat NewWriter_def Let_def pg_Head_def LoadSignatures_def read compileAll_def NewClient_def
        del: marshal.simps, simp add: quote_or_def split: prod.splits)
qed




text \<open>The status is zero exactly when the engine started and what was queued was drained after a signal.\<close>

lemma engine_main_status:
  "snd (engine_main out (\<lambda>w. engine_wait app rounds uuid now listen_error (work w))) = 0 \<longleftrightarrow>
     (\<exists>srv s sdb. engine_start out = Inr ((srv, s), sdb) \<and> listen_error = None
        \<and> fst (fst (engine_shutdown app rounds uuid now (work (srv_writer srv)))) = None)"
  by (auto simp: engine_main_def engine_wait_def split: sum.splits option.splits prod.splits)

text \<open>A listener that fails ends the process with whatever is queued still unwritten.\<close>

lemma listener_failure_undrained:
  "engine_wait app rounds uuid now (Some err) (w, st) = (Some err, (w, st))"
  by (simp add: engine_wait_def)

end
