(* ===== verification/Auth.thy ===== *)
theory Auth
  imports Go_Http Go_Sha256 Go_Time
begin

text \<open>
  \<^verbatim>\<open>dashboard/api/internal/auth\<close>: the administrator's session. A session is a token
  \<open>base64(user).expiry.signature\<close> whose signature is an HMAC-SHA256 of what precedes it. The bcrypt
  library is an argument: whether a text is one of its hashes, and whether a password matches a hash.
  Shown: a token is accepted exactly when it is the signed form of its own body and has not expired,
  and signing in with the right credentials yields a token that is accepted until then.
\<close>

subsection \<open>The manager\<close>

definition CookieName :: string where "CookieName = ''openshield_session''"

datatype auth_error = ErrInvalidCredentials | ErrInvalidSession | ErrSessionExpired

definition auth_error_text :: "auth_error \<Rightarrow> string" where
  "auth_error_text e =
     (case e of ErrInvalidCredentials \<Rightarrow> ''auth: invalid credentials''
      | ErrInvalidSession \<Rightarrow> ''auth: invalid session'' | ErrSessionExpired \<Rightarrow> ''auth: session expired'')"

record Manager =
  muser :: string
  passwordHash :: string
  secret :: string
  ttl :: duration
  secure :: bool

datatype new_error = NoUser | WeakSecret | NotAHash

definition auth_New :: "(string \<Rightarrow> bool) \<Rightarrow> string \<Rightarrow> string \<Rightarrow> string \<Rightarrow> duration \<Rightarrow> bool \<Rightarrow> new_error + Manager" where
  "auth_New is_bcrypt user hash sec lifetime sc =
     (if user = [] then Inl NoUser
      else if length sec < 32 then Inl WeakSecret
      else if \<not> is_bcrypt hash then Inl NotAHash
      else Inr \<lparr>muser = user, passwordHash = hash, secret = sec,
                ttl = (if lifetime \<le> 0 then 28800 * second else lifetime), secure = sc\<rparr>)"

definition sign :: "Manager \<Rightarrow> string \<Rightarrow> string" where
  "sign m body = b64_encode (hmac_sha256 (secret m) body)"

definition issue :: "Manager \<Rightarrow> string \<Rightarrow> time \<Rightarrow> string" where
  "issue m user expiry =
     (let body = b64_encode user @ ''.'' @ itoa (unix_sec expiry) in body @ ''.'' @ sign m body)"

text \<open>Both comparisons are made whatever the outcome of the first.\<close>

definition Login :: "(string \<Rightarrow> string \<Rightarrow> bool) \<Rightarrow> Manager \<Rightarrow> time \<Rightarrow> string \<Rightarrow> string \<Rightarrow> auth_error + string" where
  "Login bcrypt_match m now user password =
     (let userMatches = (user = muser m); passwordMatches = bcrypt_match (passwordHash m) password in
      if \<not> userMatches \<or> \<not> passwordMatches then Inl ErrInvalidCredentials
      else Inr (issue m (muser m) (now + ttl m)))"

definition Verify :: "Manager \<Rightarrow> time \<Rightarrow> string \<Rightarrow> auth_error + string" where
  "Verify m now token =
     (case split_on (CHR ''.'') token of
        [p0, p1, p2] \<Rightarrow>
          if p2 \<noteq> sign m (p0 @ ''.'' @ p1) then Inl ErrInvalidSession
          else (case b64_decode p0 of None \<Rightarrow> Inl ErrInvalidSession
                | Some rawUser \<Rightarrow>
                   (case parse_int p1 of None \<Rightarrow> Inl ErrInvalidSession
                    | Some expiry \<Rightarrow>
                        if now > time_of_unix expiry then Inl ErrSessionExpired else Inr rawUser))
      | _ \<Rightarrow> Inl ErrInvalidSession)"

subsection \<open>Cookies and the guard\<close>

record Cookie =
  cName :: string
  cValue :: string
  cPath :: string
  cHttpOnly :: bool
  cSameSiteStrict :: bool
  cSecure :: bool
  cMaxAge :: int

definition SetCookie :: "Manager \<Rightarrow> string \<Rightarrow> Cookie" where
  "SetCookie m token = \<lparr>cName = CookieName, cValue = token, cPath = ''/'', cHttpOnly = True,
     cSameSiteStrict = True, cSecure = secure m, cMaxAge = ttl m div second\<rparr>"

definition ClearCookie :: "Manager \<Rightarrow> Cookie" where
  "ClearCookie m = \<lparr>cName = CookieName, cValue = [], cPath = ''/'', cHttpOnly = True,
     cSameSiteStrict = True, cSecure = secure m, cMaxAge = - 1\<rparr>"

record DashResponse = Response +
  set_cookies :: "Cookie list"

definition unauthorized :: "string \<Rightarrow> Cookie list \<Rightarrow> DashResponse" where
  "unauthorized message cs = \<lparr>rstatus = 401, rheaders = [(''Content-Type'', json_type)],
     rbody = error_body message, set_cookies = cs\<rparr>"

text \<open>The user in the context of a request, \<^verbatim>\<open>context.go\<close>.\<close>

definition WithUser :: "string option \<Rightarrow> string \<Rightarrow> string option" where
  "WithUser ctx user = Some user"

definition UserFrom :: "string option \<Rightarrow> string" where
  "UserFrom ctx = (case ctx of None \<Rightarrow> [] | Some user \<Rightarrow> user)"

lemma UserFrom_WithUser [simp]: "UserFrom (WithUser ctx user) = user"
  by (simp add: UserFrom_def WithUser_def)

text \<open>\<^verbatim>\<open>Require\<close>: the wrapped handler finds the user in the request's context.\<close>

definition Require :: "Manager \<Rightarrow> time \<Rightarrow> string option \<Rightarrow> (string \<Rightarrow> 'a) \<Rightarrow> DashResponse + 'a" where
  "Require m now cookie next_handler =
     (case cookie of None \<Rightarrow> Inl (unauthorized ''authentication required'' [])
      | Some token \<Rightarrow>
         (case Verify m now token of Inl err \<Rightarrow> Inl (unauthorized (auth_error_text err) [ClearCookie m])
          | Inr user \<Rightarrow> Inr (next_handler (UserFrom (WithUser None user)))))"

subsection \<open>Tokens\<close>

lemma sign_no_dot: "CHR ''.'' \<notin> set (sign m body)"
  using b64_encode_alphabet by (auto simp: sign_def)

lemma b64_no_dot: "CHR ''.'' \<notin> set (b64_encode bs)"
  using b64_encode_alphabet by blast

lemma split_token:
  assumes "CHR ''.'' \<notin> set a" "CHR ''.'' \<notin> set b" "CHR ''.'' \<notin> set c"
  shows "split_on (CHR ''.'') (a @ ''.'' @ b @ ''.'' @ c) = [a, b, c]"
  using assms by (simp add: split_on_sep split_on_no_sep)

lemma Verify_signed:
  assumes "CHR ''.'' \<notin> set a" "CHR ''.'' \<notin> set b"
  shows "Verify m now (a @ ''.'' @ b @ ''.'' @ sign m (a @ ''.'' @ b)) =
    (case b64_decode a of None \<Rightarrow> Inl ErrInvalidSession
     | Some u \<Rightarrow> (case parse_int b of None \<Rightarrow> Inl ErrInvalidSession
        | Some n \<Rightarrow> if now > time_of_unix n then Inl ErrSessionExpired else Inr u))"
  unfolding Verify_def split_token [OF assms sign_no_dot] by simp

lemma Verify_issue:
  assumes "in_int64 (unix_sec expiry)"
  shows "Verify m now (issue m user expiry) =
    (if now > time_of_unix (unix_sec expiry) then Inl ErrSessionExpired else Inr user)"
proof -
  have "issue m user expiry = b64_encode user @ ''.'' @ itoa (unix_sec expiry) @ ''.''
      @ sign m (b64_encode user @ ''.'' @ itoa (unix_sec expiry))"
    by (simp add: issue_def Let_def)
  then show ?thesis
    using Verify_signed [OF b64_no_dot itoa_not_dot, of m now user "unix_sec expiry"] assms
    by (simp add: b64_decode_encode parse_itoa)
qed

lemma Verify_shape:
  assumes "Verify m now token = Inr user"
  obtains a b n where "token = a @ ''.'' @ b @ ''.'' @ sign m (a @ ''.'' @ b)"
    "CHR ''.'' \<notin> set a" "CHR ''.'' \<notin> set b" "b64_decode a = Some user" "parse_int b = Some n" "now \<le> time_of_unix n"
proof -
  obtain a b c where parts: "split_on (CHR ''.'') token = [a, b, c]"
    using assms by (auto simp: Verify_def split: list.splits)
  then have "token = a @ ''.'' @ b @ ''.'' @ c" using join_split_on [of "CHR ''.''" token] by simp
  moreover have "CHR ''.'' \<notin> set a" "CHR ''.'' \<notin> set b"
    using parts split_on_parts [of _ "CHR ''.''" token] by simp_all
  moreover have "c = sign m (a @ ''.'' @ b)" and "\<exists>n. b64_decode a = Some user \<and> parse_int b = Some n \<and> now \<le> time_of_unix n"
    using assms parts by (auto simp: Verify_def split: if_splits option.splits)
  ultimately show thesis using that by blast
qed

subsection \<open>Properties\<close>


lemma unix_sec_floor: "time_of_unix (unix_sec t) \<le> t" "t < time_of_unix (unix_sec t) + second"
proof -
  have "(t - unix_epoch) = (t - unix_epoch) div second * second + (t - unix_epoch) mod second" by simp
  moreover have "0 \<le> (t - unix_epoch) mod second" "(t - unix_epoch) mod second < second" by (simp_all add: second_def)
  ultimately show "time_of_unix (unix_sec t) \<le> t" "t < time_of_unix (unix_sec t) + second"
    unfolding time_of_unix_def unix_sec_def by linarith+
qed

text \<open>Signing in gives a session for the configured time and no longer. A token is issued only for the
  administrator's name and a password that matches the hash; it is accepted, as the administrator, at every
  moment up to one second before the configured lifetime has passed, and refused as expired at every moment
  after it.\<close>

theorem login_session_lifetime:
  assumes "auth_New is_bcrypt admin hash sec lifetime sc = Inr m"
    "Login bcrypt_match m now user password = Inr token" "in_int64 (unix_sec (now + ttl m))"
  shows "user = admin \<and> bcrypt_match hash password \<and> 0 < ttl m \<and> 32 \<le> length (secret m)
    \<and> Verify m (now + ttl m - second) token = Inr admin
    \<and> Verify m (now + ttl m + 1) token = Inl ErrSessionExpired"
proof -
  have m: "muser m = admin" "passwordHash m = hash" "0 < ttl m" "32 \<le> length (secret m)"
    using assms(1) by (auto simp: auth_New_def second_def split: if_splits)
  have tok: "user = admin" "bcrypt_match hash password" "token = issue m admin (now + ttl m)"
    using assms(2) m(1,2) by (auto simp: Login_def Let_def split: if_splits)
  show ?thesis
    using m tok unix_sec_floor [of "now + ttl m"] Verify_issue [OF assms(3), of m _ admin] by auto
qed

definition sample_manager :: Manager where
  "sample_manager = \<lparr>muser = ''admin'', passwordHash = ''$2a$h'', secret = replicate 32 (CHR ''k''), ttl = 28800 * second, secure = False\<rparr>"

theorem login_session_lifetime_witness:
  "\<exists>token. Login (\<lambda>h p. p = ''pw'') sample_manager unix_epoch ''admin'' ''pw'' = Inr token
     \<and> Verify sample_manager (unix_epoch + 28799 * second) token = Inr ''admin''"
proof -
  have new: "auth_New (\<lambda>_. True) ''admin'' ''$2a$h'' (replicate 32 (CHR ''k'')) 0 False = Inr sample_manager"
    by (simp add: auth_New_def sample_manager_def)
  have log: "Login (\<lambda>h p. p = ''pw'') sample_manager unix_epoch ''admin'' ''pw''
      = Inr (issue sample_manager ''admin'' (unix_epoch + ttl sample_manager))"
    by (simp add: Login_def sample_manager_def)
  have "in_int64 (unix_sec (unix_epoch + ttl sample_manager))"
    by (simp add: unix_sec_def sample_manager_def second_def in_int64_def int64_min_def int64_max_def)
  note ok = login_session_lifetime [OF new log this]
  have "unix_epoch + ttl sample_manager - second = unix_epoch + 28799 * second"
    by (simp add: sample_manager_def second_def)
  then show ?thesis using ok log by metis
qed

end
