(* ===== verification/Dash_Support.thy ===== *)
theory Dash_Support
  imports Auth IPBlock
begin

text \<open>
  \<^verbatim>\<open>dashboard/api/internal/httpapi/support.go\<close>: the throttle on signing in, the address a request is
  attributed to, the normalisation of an access-list entry, and the serving of the static application.
\<close>

subsection \<open>Requests\<close>

text \<open>
  What the handlers read of a request. \<open>qForwarded\<close> holds the lines of the header
  \<^verbatim>\<open>X-Forwarded-For\<close> in order, \<open>qQuery\<close> the first value of every query parameter, \<open>qCookie\<close> the
  session cookie, \<open>qSegment\<close> the value of a wildcard of the route.
\<close>

record HttpRequest =
  qMethod :: string
  qPath :: string
  qRemoteAddr :: string
  qForwarded :: "string list"
  qCookie :: "string option"
  qQuery :: "string gomap"
  qSegment :: string
  qBody :: bytes

definition query_get :: "HttpRequest \<Rightarrow> string \<Rightarrow> string" where
  "query_get r k = map_get [] (qQuery r) k"

text \<open>\<^verbatim>\<open>Header.Get\<close> returns the first line.\<close>

definition forwarded_header :: "HttpRequest \<Rightarrow> string" where
  "forwarded_header r = (case qForwarded r of [] \<Rightarrow> [] | v # _ \<Rightarrow> v)"

subsection \<open>The throttle\<close>

record attemptRecord =
  at_count :: int
  at_first :: time

record loginLimiter =
  lmax :: int
  lwindow :: duration
  attempts :: "attemptRecord gomap"

definition newLoginLimiter :: "int \<Rightarrow> duration \<Rightarrow> loginLimiter" where
  "newLoginLimiter mx win = \<lparr>lmax = mx, lwindow = win, attempts = []\<rparr>"

definition map_delete :: "string \<Rightarrow> 'v gomap \<Rightarrow> 'v gomap" where
  "map_delete k m = filter (\<lambda>kv. fst kv \<noteq> k) m"

definition expired :: "time \<Rightarrow> loginLimiter \<Rightarrow> attemptRecord \<Rightarrow> bool" where
  "expired now l rec \<longleftrightarrow> now - at_first rec > lwindow l"

definition sweep :: "time \<Rightarrow> loginLimiter \<Rightarrow> loginLimiter" where
  "sweep now l =
     (if length (attempts l) < 1024 then l
      else l\<lparr>attempts := filter (\<lambda>(ip, rec). \<not> expired now l rec) (attempts l)\<rparr>)"

definition login_allow :: "time \<Rightarrow> string \<Rightarrow> loginLimiter \<Rightarrow> bool \<times> loginLimiter" where
  "login_allow now ip l0 =
     (let l = sweep now l0 in
      case map_of (attempts l) ip of
        None \<Rightarrow> (True, l)
      | Some rec \<Rightarrow>
          if expired now l rec then (True, l\<lparr>attempts := map_delete ip (attempts l)\<rparr>)
          else (at_count rec < lmax l, l))"

definition login_fail :: "time \<Rightarrow> string \<Rightarrow> loginLimiter \<Rightarrow> loginLimiter" where
  "login_fail now ip l =
     (case map_of (attempts l) ip of
        None \<Rightarrow> l\<lparr>attempts := map_put ip \<lparr>at_count = 1, at_first = now\<rparr> (attempts l)\<rparr>
      | Some rec \<Rightarrow>
          if expired now l rec then l\<lparr>attempts := map_put ip \<lparr>at_count = 1, at_first = now\<rparr> (attempts l)\<rparr>
          else l\<lparr>attempts := map_put ip (rec\<lparr>at_count := at_count rec + 1\<rparr>) (attempts l)\<rparr>)"

definition login_reset :: "string \<Rightarrow> loginLimiter \<Rightarrow> loginLimiter" where
  "login_reset ip l = l\<lparr>attempts := map_delete ip (attempts l)\<rparr>"

subsection \<open>The address of the client\<close>

text \<open>\<^verbatim>\<open>net.SplitHostPort\<close>, the host only.\<close>

definition split_host :: "string \<Rightarrow> string option" where
  "split_host s =
     (case split_last (CHR '':'') s of None \<Rightarrow> None
      | Some (before, port) \<Rightarrow>
          if s \<noteq> [] \<and> hd s = CHR ''['' then
            (let host = takeWhile (\<lambda>c. c \<noteq> CHR '']'') (tl s); rest = dropWhile (\<lambda>c. c \<noteq> CHR '']'') (tl s) in
             if rest = [] \<or> tl rest \<noteq> CHR '':'' # port \<or> CHR ''['' \<in> set (tl s) \<or> CHR '']'' \<in> set (tl rest) then None
             else Some host)
          else if CHR '':'' \<in> set before \<or> CHR ''['' \<in> set s \<or> CHR '']'' \<in> set s then None
          else Some before)"

definition peerAddr :: "HttpRequest \<Rightarrow> string" where
  "peerAddr r = (case split_host (qRemoteAddr r) of None \<Rightarrow> qRemoteAddr r | Some host \<Rightarrow> host)"

definition trusted_contains :: "Prefix list \<Rightarrow> Addr \<Rightarrow> bool" where
  "trusted_contains t addr \<longleftrightarrow> (\<exists>p \<in> set t. Contains p addr)"

text \<open>The loop, over the entries from the right.\<close>

fun walk_forwarded :: "Prefix list \<Rightarrow> string \<Rightarrow> string list \<Rightarrow> string" where
  "walk_forwarded t peer [] = peer"
| "walk_forwarded t peer (e # es) =
     (let candidate = trim_space e in
      if candidate = [] then walk_forwarded t peer es
      else case ParseAddr candidate of None \<Rightarrow> peer
        | Some parsed \<Rightarrow> if \<not> trusted_contains t parsed then Addr_String parsed else walk_forwarded t peer es)"

definition clientIP :: "Prefix list \<Rightarrow> HttpRequest \<Rightarrow> string" where
  "clientIP t r =
     (let peer = peerAddr r in
      if t = [] then peer
      else case ParseAddr peer of None \<Rightarrow> peer
        | Some addr \<Rightarrow>
            if \<not> trusted_contains t addr then peer
            else walk_forwarded t peer (rev (split_on (CHR '','') (forwarded_header r))))"

subsection \<open>Access-list entries\<close>

datatype prefix_error = PrefixRequired | BadPrefix string

definition parsePrefix :: "string \<Rightarrow> prefix_error + string" where
  "parsePrefix val0 =
     (let val = trim_space val0 in
      if val = [] then Inl PrefixRequired
      else case netip_ParsePrefix val of Some prefix \<Rightarrow> Inr (Prefix_String (Masked prefix))
        | None \<Rightarrow>
           (case ParseAddr val of None \<Rightarrow> Inl (BadPrefix val)
            | Some addr \<Rightarrow> Inr (Prefix_String (PrefixFrom addr (BitLen addr)))))"

subsection \<open>The static application\<close>

text \<open>\<^verbatim>\<open>path.Clean\<close>: a fold over the segments with those kept so far, last first.\<close>

definition clean_step :: "bool \<Rightarrow> string list \<Rightarrow> string \<Rightarrow> string list" where
  "clean_step rooted out s =
     (if s = [] \<or> s = ''.'' then out
      else if s = ''..'' then
        (case out of t # ts \<Rightarrow> if t \<noteq> ''..'' then ts else ''..'' # out | [] \<Rightarrow> if rooted then [] else [''..''])
      else s # out)"

definition path_Clean :: "string \<Rightarrow> string" where
  "path_Clean p =
     (let rooted = (p \<noteq> [] \<and> hd p = CHR ''/'');
          out = join ''/'' (rev (foldl (clean_step rooted) [] (split_on (CHR ''/'') p)))
      in if rooted then ''/'' @ out else if out = [] then ''.'' else out)"

definition spa_name :: "string \<Rightarrow> string" where
  "spa_name path = (let name = trim_prefix (path_Clean path) ''/'' in if name = [] then ''index.html'' else name)"

definition html_type :: string where "html_type = ''text/html; charset=utf-8''"

text \<open>
  \<open>stat\<close> tells which names exist in the embedded file system, \<open>index\<close> is the content of its index page
  and \<open>files\<close> the file server of \<^verbatim>\<open>net/http\<close> over it.
\<close>

definition serveIndex :: "string option \<Rightarrow> DashResponse" where
  "serveIndex index =
     (case index of
        None \<Rightarrow> \<lparr>rstatus = 404, rheaders = [(''Content-Type'', ''text/plain; charset=utf-8'')],
                 rbody = GString ''dashboard assets are missing from this build'', set_cookies = []\<rparr>
      | Some page \<Rightarrow> \<lparr>rstatus = 200, rheaders = [(''Content-Type'', html_type), (''Cache-Control'', ''no-cache'')],
                      rbody = GString page, set_cookies = []\<rparr>)"

definition cache_policy :: "string \<Rightarrow> string" where
  "cache_policy name =
     (if has_prefix name ''assets/'' then ''public, max-age=31536000, immutable'' else ''no-cache'')"

definition spaHandler :: "(string \<Rightarrow> bool) \<Rightarrow> string option \<Rightarrow> (HttpRequest \<Rightarrow> DashResponse) \<Rightarrow> HttpRequest
    \<Rightarrow> DashResponse" where
  "spaHandler stat index files r =
     (let name = spa_name (qPath r) in
      if \<not> stat name then serveIndex index
      else let resp = files r in
        resp\<lparr>rheaders := (''Cache-Control'', cache_policy name) # rheaders resp\<rparr>)"

subsection \<open>Security headers\<close>

definition squote :: "string \<Rightarrow> string" where
  "squote s = [CHR 0x27] @ s @ [CHR 0x27]"

definition csp :: string where
  "csp = ''default-src '' @ squote ''self'' @ ''; script-src '' @ squote ''self'' @ ''; style-src '' @ squote ''self''
     @ '' '' @ squote ''unsafe-inline'' @ ''; img-src '' @ squote ''self'' @ '' data:; connect-src '' @ squote ''self''
     @ '' ws: wss:; frame-ancestors '' @ squote ''none'' @ ''; base-uri '' @ squote ''self''
     @ ''; form-action '' @ squote ''self''"

definition securityHeaders :: "DashResponse \<Rightarrow> DashResponse" where
  "securityHeaders resp =
     resp\<lparr>rheaders := [(''Content-Security-Policy'', csp), (''X-Content-Type-Options'', ''nosniff''),
       (''X-Frame-Options'', ''DENY''), (''Referrer-Policy'', ''no-referrer'')] @ rheaders resp\<rparr>"

subsection \<open>Facts on the throttle\<close>

lemma map_of_delete: "map_of (map_delete k m) j = (if j = k then None else map_of m j)"
  by (induction m) (auto simp: map_delete_def)

lemma map_of_filter_keep:
  "distinct (map fst m) \<Longrightarrow> map_of m k = Some v \<Longrightarrow> P (k, v) \<Longrightarrow> map_of (filter P m) k = Some v"
  by (induction m) (auto split: if_splits dest: map_of_SomeD)

lemma map_of_filter_None: "map_of m k = None \<Longrightarrow> map_of (filter P m) k = None"
  by (auto simp: map_of_eq_None_iff)

lemma sweep_keeps:
  assumes "distinct (keys (attempts l))"
  shows "map_of (attempts (sweep now l)) ip =
    (case map_of (attempts l) ip of None \<Rightarrow> None
     | Some rec \<Rightarrow> if length (attempts l) \<ge> 1024 \<and> expired now l rec then None else Some rec)"
proof (cases "map_of (attempts l) ip")
  case None
  then show ?thesis by (simp add: sweep_def map_of_filter_None)
next
  case (Some rec)
  have "map_of (filter (\<lambda>(ip, rec). \<not> expired now l rec) (attempts l)) ip = None" if "expired now l rec"
    using assms Some that
    by (auto simp: map_of_eq_None_iff keys_def dest: map_of_SomeD eq_key_imp_eq_value [of "attempts l" ip rec])
  then show ?thesis
    using Some assms map_of_filter_keep [of "attempts l" ip rec "\<lambda>(ip, rec). \<not> expired now l rec"]
    by (auto simp: sweep_def keys_def)
qed

text \<open>The limiter after operations; none changes the limit or the window, and the keys stay distinct.\<close>

definition limiter_ok :: "loginLimiter \<Rightarrow> bool" where
  "limiter_ok l \<longleftrightarrow> distinct (keys (attempts l))"

lemma limiter_params [simp]:
  "lmax (sweep now l) = lmax l" "lwindow (sweep now l) = lwindow l"
  "lmax (snd (login_allow now ip l)) = lmax l" "lwindow (snd (login_allow now ip l)) = lwindow l"
  "lmax (login_fail now ip l) = lmax l" "lwindow (login_fail now ip l) = lwindow l"
  "lmax (login_reset ip l) = lmax l" "lwindow (login_reset ip l) = lwindow l"
  by (auto simp: sweep_def login_allow_def login_fail_def login_reset_def Let_def split: option.splits)

lemma expired_sweep [simp]: "expired now (sweep t l) rec = expired now l rec"
  by (simp add: expired_def)

lemma limiter_ok_ops [wf_intros]:
  assumes "limiter_ok l"
  shows "limiter_ok (sweep now l)" "limiter_ok (snd (login_allow now ip l))" "limiter_ok (login_fail now ip l)"
    "limiter_ok (login_reset ip l)"
proof -
  have del: "distinct (keys (filter P m))" if "distinct (keys m)" for P and m :: "attemptRecord gomap"
    using that by (simp add: keys_def distinct_map_filter)
  show sw: "limiter_ok (sweep now l)" using assms del by (simp add: limiter_ok_def sweep_def)
  show "limiter_ok (snd (login_allow now ip l))"
    using sw del by (simp add: login_allow_def limiter_ok_def map_delete_def Let_def split: option.splits)
  show "limiter_ok (login_fail now ip l)"
    using assms by (simp add: login_fail_def limiter_ok_def map_put_distinct split: option.splits)
  show "limiter_ok (login_reset ip l)"
    using assms del by (simp add: login_reset_def limiter_ok_def map_delete_def)
qed

text \<open>What an operation on behalf of one address does to the record of an address.\<close>

lemma allow_lookup:
  assumes "limiter_ok l"
  shows "fst (login_allow now ip l) =
      (case map_of (attempts l) ip of None \<Rightarrow> True | Some rec \<Rightarrow> expired now l rec \<or> at_count rec < lmax l)"
    "\<not> (\<exists>rec. map_of (attempts l) j = Some rec \<and> expired now l rec) \<Longrightarrow>
      map_of (attempts (snd (login_allow now ip l))) j = map_of (attempts l) j"
  using assms sweep_keeps [of l now ip] sweep_keeps [of l now j]
  by (auto simp: login_allow_def limiter_ok_def Let_def map_of_delete split: option.splits if_splits)

lemma fail_lookup:
  "map_of (attempts (login_fail now ip l)) j =
     (if j = ip then Some (case map_of (attempts l) ip of None \<Rightarrow> \<lparr>at_count = 1, at_first = now\<rparr>
        | Some rec \<Rightarrow> if expired now l rec then \<lparr>at_count = 1, at_first = now\<rparr> else rec\<lparr>at_count := at_count rec + 1\<rparr>)
      else map_of (attempts l) j)"
  by (auto simp: login_fail_def map_of_put split: option.splits)

text \<open>
  A run of sign-in attempts, each with its time, address and whether its credentials are right; the
  result says which of them were let through to the password check.
\<close>

fun login_run :: "loginLimiter \<Rightarrow> (time \<times> string \<times> bool) list \<Rightarrow> (string \<times> bool) list" where
  "login_run l [] = []"
| "login_run l ((now, ip, right) # es) =
     (case login_allow now ip l of
        (False, l') \<Rightarrow> (ip, False) # login_run l' es
      | (True, l') \<Rightarrow> (ip, True) # login_run (if right then login_reset ip l' else login_fail now ip l') es)"

definition guesses :: "string \<Rightarrow> (string \<times> bool) list \<Rightarrow> int" where
  "guesses ip rs = int (length (filter (\<lambda>r. r = (ip, True)) rs))"

text \<open>The failures on record for an address, all of them since \<open>t0\<close>.\<close>

definition on_record :: "time \<Rightarrow> string \<Rightarrow> loginLimiter \<Rightarrow> int \<Rightarrow> bool" where
  "on_record t0 ip l c \<longleftrightarrow>
     (case map_of (attempts l) ip of None \<Rightarrow> c = 0 | Some rec \<Rightarrow> at_count rec = c \<and> t0 \<le> at_first rec)"

lemma login_run_guesses:
  assumes "limiter_ok l" "\<forall>(t, j, right) \<in> set es. t0 \<le> t \<and> t \<le> t0 + lwindow l \<and> (j = ip \<longrightarrow> \<not> right)"
    "on_record t0 ip l c" "0 \<le> c" "c \<le> lmax l" "0 < lmax l"
  shows "guesses ip (login_run l es) = min (int (length (filter (\<lambda>(t, j, right). j = ip) es))) (lmax l - c)"
  using assms
proof (induction es arbitrary: l c)
  case (Cons e es)
  obtain t j right where e: "e = (t, j, right)" by (metis surj_pair)
  have t: "t0 \<le> t" "t \<le> t0 + lwindow l" "j = ip \<Longrightarrow> \<not> right" using Cons.prems(2) e by auto
  obtain ok l1 where al: "login_allow t j l = (ok, l1)" by fastforce
  have fresh: "\<not> expired t l rec" if "map_of (attempts l) ip = Some rec" for rec
    using that Cons.prems(3) t(2) by (simp add: on_record_def expired_def)
  then have same: "map_of (attempts l1) ip = map_of (attempts l) ip"
    using allow_lookup(2) [OF Cons.prems(1), of ip t j] al by auto
  have l1: "limiter_ok l1" "lmax l1 = lmax l" "lwindow l1 = lwindow l"
    using limiter_ok_ops(2) [OF Cons.prems(1), of t j] limiter_params(3,4) [of t j l] al by simp_all
  have rest: "\<forall>(t, j, right) \<in> set es. t0 \<le> t \<and> t \<le> t0 + lwindow l \<and> (j = ip \<longrightarrow> \<not> right)"
    using Cons.prems(2) by simp
  show ?case
  proof (cases "j = ip")
    case False
    let ?l2 = "if ok then (if right then login_reset j l1 else login_fail t j l1) else l1"
    have "map_of (attempts ?l2) ip = map_of (attempts l) ip"
      using False same by (simp add: login_reset_def map_of_delete fail_lookup)
    then have "on_record t0 ip ?l2 c" using Cons.prems(3) by (simp add: on_record_def)
    moreover have "limiter_ok ?l2" "lmax ?l2 = lmax l" "lwindow ?l2 = lwindow l"
      using l1 limiter_ok_ops by auto
    ultimately have "guesses ip (login_run ?l2 es) = min (int (length (filter (\<lambda>(t, j, right). j = ip) es))) (lmax l - c)"
      using Cons.IH [of ?l2 c] rest Cons.prems(4-6) by simp
    then show ?thesis using False e al by (cases ok) (simp_all add: guesses_def)
  next
    case True
    have ok: "ok = (c < lmax l)"
      using allow_lookup(1) [OF Cons.prems(1), of t j] al Cons.prems(3-6) True fresh
      by (auto simp: on_record_def split: option.splits)
    show ?thesis
    proof (cases ok)
      case refused: False
      have "on_record t0 ip l1 c" using Cons.prems(3) same by (simp add: on_record_def)
      then have "guesses ip (login_run l1 es) = min (int (length (filter (\<lambda>(t, j, right). j = ip) es))) (lmax l - c)"
        using Cons.IH [of l1 c] rest Cons.prems(4-6) l1 by simp
      then show ?thesis using refused ok e al True Cons.prems(5) by (simp add: guesses_def)
    next
      case let_through: True
      have "on_record t0 ip (login_fail t j l1) (c + 1)"
        using Cons.prems(3) same fresh t(1) True l1(3)
        by (auto simp: on_record_def fail_lookup expired_def split: option.splits)
      then have "guesses ip (login_run (login_fail t j l1) es)
          = min (int (length (filter (\<lambda>(t, j, right). j = ip) es))) (lmax l - (c + 1))"
        using Cons.IH [of "login_fail t j l1" "c + 1"] rest Cons.prems(4,6) l1 let_through ok limiter_ok_ops(3) by simp
      then show ?thesis using let_through ok e al True t(3) by (simp add: guesses_def)
    qed
  qed
qed (simp add: guesses_def)

text \<open>
  Sweeping removes expired records only: any number of addresses failing at the same time stay on record,
  so the table has no bound of its own.
\<close>

lemma failures_not_bounded:
  assumes "distinct ips"
  shows "length (attempts (foldl (\<lambda>l ip. login_fail now ip (snd (login_allow now ip l))) (newLoginLimiter 10 w) ips)) = length ips
    \<or> w < 0"
proof (cases "w < 0")
  case False
  let ?run = "foldl (\<lambda>l ip. login_fail now ip (snd (login_allow now ip l))) (newLoginLimiter 10 w)"
  have "attempts (?run ips) = map (\<lambda>ip. (ip, \<lparr>at_count = 1, at_first = now\<rparr>)) ips \<and> lwindow (?run ips) = w"
    using assms
  proof (induction ips rule: rev_induct)
    case (snoc ip ips)
    define l where "l = ?run ips"
    have l: "attempts l = map (\<lambda>ip. (ip, \<lparr>at_count = 1, at_first = now\<rparr>)) ips" "lwindow l = w"
      using snoc by (simp_all add: l_def)
    have live: "\<not> expired now l \<lparr>at_count = 1, at_first = now\<rparr>" using False l(2) by (simp add: expired_def)
    have "filter (\<lambda>(ip, rec). \<not> expired now l rec) (attempts l) = attempts l"
      using live by (auto simp: l(1) filter_id_conv)
    then have sw: "sweep now l = l" by (simp add: sweep_def)
    have none: "map_of (attempts l) ip = None" using snoc.prems by (auto simp: l(1) map_of_eq_None_iff)
    then have "ip \<notin> set (keys (attempts l))" by (simp add: keys_def map_of_eq_None_iff)
    then have "login_fail now ip l = l\<lparr>attempts := attempts l @ [(ip, \<lparr>at_count = 1, at_first = now\<rparr>)]\<rparr>"
      using none by (simp add: login_fail_def map_put_new)
    moreover have "snd (login_allow now ip l) = l" using none sw by (simp add: login_allow_def)
    moreover have "?run (ips @ [ip]) = login_fail now ip (snd (login_allow now ip l))" by (simp add: l_def)
    ultimately show ?case using l by simp
  qed (simp add: newLoginLimiter_def)
  then show ?thesis by (metis length_map)
qed simp

subsection \<open>Facts on client addresses\<close>

text \<open>An entry that ends the walk: a text that is no address, or an address outside the trusted networks.\<close>

definition decisive :: "Prefix list \<Rightarrow> string \<Rightarrow> bool" where
  "decisive t e \<longleftrightarrow> trim_space e \<noteq> []
     \<and> (case ParseAddr (trim_space e) of None \<Rightarrow> True | Some a \<Rightarrow> \<not> trusted_contains t a)"

lemma walk_decided:
  "\<exists>e \<in> set es. decisive t e \<Longrightarrow> walk_forwarded t peer (es @ fs) = walk_forwarded t peer es"
proof (induction es)
  case (Cons e es)
  show ?case
  proof (cases "decisive t e")
    case True
    then show ?thesis by (auto simp: decisive_def Let_def split: option.splits)
  next
    case False
    then have "walk_forwarded t peer (es @ fs) = walk_forwarded t peer es" using Cons by auto
    then show ?thesis by (auto simp: Let_def split: option.splits)
  qed
qed simp

lemma split_on_append: "split_on c (a @ c # b) = split_on c a @ split_on c b"
  by (induction a) (auto split: list.splits)

lemma clean_steps_rooted:
  assumes "''..'' \<notin> set out" "[] \<notin> set out" "''.'' \<notin> set out"
  shows "''..'' \<notin> set (foldl (clean_step True) out segs) \<and> [] \<notin> set (foldl (clean_step True) out segs)
    \<and> ''.'' \<notin> set (foldl (clean_step True) out segs)"
  using assms
proof (induction segs arbitrary: out)
  case (Cons s segs)
  have "''..'' \<notin> set (clean_step True out s) \<and> [] \<notin> set (clean_step True out s) \<and> ''.'' \<notin> set (clean_step True out s)"
    using Cons.prems by (auto simp: clean_step_def split: list.splits)
  then show ?case using Cons.IH [of "clean_step True out s"] by simp
qed simp

subsection \<open>Properties\<close>



text \<open>C37: Only a trusted proxy can name the client. Without trusted networks, or when the connection does not
  come from one, the address is that of the connection, whatever the header says; and behind a trusted proxy,
  once the entries the proxies appended contain one that is no trusted address, what the client wrote before
  them makes no difference.\<close>

theorem client_address_not_forged:
  assumes "\<exists>e \<in> set (split_on (CHR '','') appended). decisive t e"
  shows "clientIP t (r\<lparr>qForwarded := [forged @ '','' @ appended]\<rparr>) = clientIP t (r\<lparr>qForwarded := [appended]\<rparr>)
    \<and> clientIP [] (r\<lparr>qForwarded := lines\<rparr>) = peerAddr r
    \<and> (clientIP t (r\<lparr>qForwarded := lines\<rparr>) = peerAddr r
       \<or> (\<exists>a. ParseAddr (peerAddr r) = Some a \<and> trusted_contains t a))"
proof (intro conjI)
  have peer: "peerAddr (r\<lparr>qForwarded := ls\<rparr>) = peerAddr r" for ls by (simp add: peerAddr_def split: option.splits)
  have "\<exists>e \<in> set (rev (split_on (CHR '','') appended)). decisive t e" using assms by simp
  from walk_decided [OF this] have
    "walk_forwarded t p (rev (split_on (CHR '','') (forged @ CHR '','' # appended)))
      = walk_forwarded t p (rev (split_on (CHR '','') appended))" for p
    unfolding split_on_append by simp
  then show "clientIP t (r\<lparr>qForwarded := [forged @ '','' @ appended]\<rparr>) = clientIP t (r\<lparr>qForwarded := [appended]\<rparr>)"
    by (simp add: clientIP_def peer forwarded_header_def Let_def split: option.splits)
  show "clientIP [] (r\<lparr>qForwarded := lines\<rparr>) = peerAddr r" by (simp add: clientIP_def peer)
  show "clientIP t (r\<lparr>qForwarded := lines\<rparr>) = peerAddr r
       \<or> (\<exists>a. ParseAddr (peerAddr r) = Some a \<and> trusted_contains t a)"
    by (auto simp: clientIP_def peer Let_def split: option.splits)
qed

definition edge_request :: HttpRequest where
  "edge_request = \<lparr>qMethod = ''GET'', qPath = ''/'', qRemoteAddr = ''10.0.0.2:4711'', qForwarded = [], qCookie = None,
     qQuery = [], qSegment = [], qBody = []\<rparr>"

theorem client_address_not_forged_witness:
  "clientIP [\<lparr>paddr = V4 0x0A000000, pbits = 8\<rparr>] (edge_request\<lparr>qForwarded := [''1.2.3.4'' @ '','' @ ''203.0.113.7'']\<rparr>)
   = clientIP [\<lparr>paddr = V4 0x0A000000, pbits = 8\<rparr>] (edge_request\<lparr>qForwarded := [''203.0.113.7'']\<rparr>)"
proof -
  have "trim_space ''203.0.113.7'' = ''203.0.113.7''"
    by (rule trim_space_graphic) (simp add: graphic_def code_def)
  moreover have "ParseAddr ''203.0.113.7'' = Some (V4 0xCB007107)" by code_simp
  moreover have "\<not> Contains \<lparr>paddr = V4 0x0A000000, pbits = 8\<rparr> (V4 0xCB007107)" by code_simp
  ultimately have "decisive [\<lparr>paddr = V4 0x0A000000, pbits = 8\<rparr>] ''203.0.113.7''"
    by (simp add: decisive_def trusted_contains_def)
  then have "\<exists>e \<in> set (split_on (CHR '','') ''203.0.113.7''). decisive [\<lparr>paddr = V4 0x0A000000, pbits = 8\<rparr>] e" by simp
  from client_address_not_forged [OF this, THEN conjunct1] show ?thesis .
qed

text \<open>
  Only the first line of the header is read. A proxy that adds a line of its own instead of extending the
  client's is not heard.
\<close>

lemma second_line_ignored: "clientIP t (r\<lparr>qForwarded := l # ls\<rparr>) = clientIP t (r\<lparr>qForwarded := [l]\<rparr>)"
proof -
  have "peerAddr (r\<lparr>qForwarded := ms\<rparr>) = peerAddr r" for ms by (simp add: peerAddr_def split: option.splits)
  then show ?thesis by (simp add: clientIP_def forwarded_header_def Let_def split: option.splits)
qed

end
