(* ===== verification/Dash_Http.thy ===== *)
theory Dash_Http
  imports Dash_Support Rulestore Events Decode_Facts
begin

text \<open>
  \<^verbatim>\<open>dashboard/api/internal/httpapi\<close>: the dashboard's handlers (\<^verbatim>\<open>httpapi.go\<close>) and its client of
  the engine (\<^verbatim>\<open>auditclient.go\<close>). What the server calls is a record: the audit repository, the
  database behind the rule store, the engine's HTTP interface, the clock, and bcrypt. What a request can change is a record of its own: the tables, the sign-in
  throttle, the entries the engine has confirmed, and the notifications sent.
\<close>

subsection \<open>The server\<close>

record Repo =
  repo_List :: "Filter \<Rightarrow> AuditEntry list result"
  repo_Count :: "Filter \<Rightarrow> int result"
  repo_Stats :: "duration \<Rightarrow> Stats result"
  repo_Verify :: "time \<Rightarrow> time \<Rightarrow> VerifyResult result"

record loginRequest =
  lUser :: string
  lPassword :: string

text \<open>
  \<open>s_engine\<close> answers a posted body with a transport error or a status and a text; \<open>s_engine_status\<close> is
  the body of the engine's report of itself, or a transport error; \<open>s_json_error\<close> is the wording of the
  decoder's complaint about a body.
\<close>

record DashServer =
  s_repo :: Repo
  s_sql :: RuleSQL
  s_store_up :: bool
  s_brk :: "nat option"
  s_manager :: Manager
  s_trusted :: "Prefix list"
  s_engine :: "bytes \<Rightarrow> string + (int \<times> string)"
  s_engine_status :: "string + bytes"
  s_redis :: "string \<Rightarrow> string \<Rightarrow> string option"
  s_publisher :: Publisher
  s_now :: time
  s_bcrypt :: "string \<Rightarrow> string \<Rightarrow> bool"
  s_version :: string
  s_printable :: "nat \<Rightarrow> bool"
  s_clients :: nat
  s_stat :: "string \<Rightarrow> bool"
  s_index :: "string option"
  s_files :: "HttpRequest \<Rightarrow> DashResponse"
  s_live :: "HttpRequest \<Rightarrow> DashResponse"
  s_json_error :: "bytes \<Rightarrow> string"

record Dash =
  d_tables :: RuleTables
  d_logins :: loginLimiter
  d_journal :: "goval gomap list"
  d_notes :: "(string \<times> string) list"

definition dash_writeJSON :: "int \<Rightarrow> goval \<Rightarrow> DashResponse" where
  "dash_writeJSON status body =
     \<lparr>rstatus = status, rheaders = [(''Content-Type'', json_type)], rbody = body, set_cookies = []\<rparr>"

definition fail :: "string \<Rightarrow> DashResponse" where
  "fail action = dash_writeJSON 500 (error_body (action @ '' failed''))"

definition refuseUnaudited :: "string \<Rightarrow> DashResponse" where
  "refuseUnaudited err = dash_writeJSON 503 (error_body
     (''the change was not applied because it could not be recorded in the audit log: '' @ err))"

text \<open>A request body into a struct, of which unknown fields are refused.\<close>

definition decodeJSON :: "(string \<times> 'r setter) list \<Rightarrow> 'r \<Rightarrow> HttpRequest \<Rightarrow> 'r option" where
  "decodeJSON fs zero r =
     (case decode_tree (take 1048576 (qBody r)) of None \<Rightarrow> None | Some t \<Rightarrow> set_struct True fs t zero)"

definition login_fields :: "(string \<times> loginRequest setter) list" where
  "login_fields = [(''user'', set_string (\<lambda>v. lUser_update (\<lambda>_. v))), (''password'', set_string (\<lambda>v. lPassword_update (\<lambda>_. v)))]"

definition no_login :: loginRequest where
  "no_login = \<lparr>lUser = [], lPassword = []\<rparr>"

text \<open>The one field of \<^verbatim>\<open>patchRuleRequest\<close> is a pointer, nil when it is absent.\<close>

definition patch_fields :: "(string \<times> bool option setter) list" where
  "patch_fields = [(''enabled'', set_bool_ptr (\<lambda>v _. v))]"

definition ip_fields :: "(string \<times> IPRule setter) list" where
  "ip_fields = [(''cidr'', set_string (\<lambda>v. CIDR_update (\<lambda>_. v))), (''action'', set_string (\<lambda>v. Action_update (\<lambda>_. v))),
     (''note'', set_string (\<lambda>v. Note_update (\<lambda>_. v))), (''created_at'', set_time (\<lambda>v. CreatedAt_update (\<lambda>_. v))),
     (''created_by'', set_string (\<lambda>v. CreatedBy_update (\<lambda>_. v)))]"

definition no_rule :: IPRule where
  "no_rule = \<lparr>CIDR = [], Action = [], Note = [], CreatedAt = 0, CreatedBy = []\<rparr>"

subsection \<open>The client of the engine\<close>

text \<open>The details cannot replace the actor or the action.\<close>

definition admin_step :: "goval gomap \<Rightarrow> string \<times> goval \<Rightarrow> goval gomap" where
  "admin_step p kv = (if fst kv = ''actor'' \<or> fst kv = ''action'' then p else map_put (fst kv) (snd kv) p)"

definition admin_payload :: "string \<Rightarrow> string \<Rightarrow> goval gomap \<Rightarrow> goval gomap" where
  "admin_payload actor action details =
     foldl admin_step [(''actor'', GString actor), (''action'', GString action)] details"

text \<open>Returns the error, if any; an entry the engine confirmed is on the journal.\<close>

definition RecordAdmin :: "DashServer \<Rightarrow> string \<Rightarrow> string \<Rightarrow> goval gomap \<Rightarrow> Dash \<Rightarrow> string option \<times> Dash" where
  "RecordAdmin srv actor action details st =
     (let payload = admin_payload actor action details in
      case marshal (GMap [(''kind'', GString KindAdmin), (''payload'', GMap payload)]) of
        Inl err \<Rightarrow> (Some (''audit client: encode entry: '' @ marshal_error_text err), st)
      | Inr body \<Rightarrow>
         (case s_engine srv body of
            Inl err \<Rightarrow> (Some (''audit client: reach the engine: '' @ err), st)
          | Inr (status, text) \<Rightarrow>
              if status \<noteq> 201
              then (Some (''audit client: engine answered '' @ itoa status @ '': '' @ trim_space (take 512 text)), st)
              else (None, st\<lparr>d_journal := d_journal st @ [payload]\<rparr>)))"

text \<open>The engine's report; a body that is \<^verbatim>\<open>null\<close> decodes to a nil map.\<close>

definition EngineStatus :: "DashServer \<Rightarrow> string + goval gomap option" where
  "EngineStatus srv =
     (case s_engine_status srv of Inl err \<Rightarrow> Inl (''audit client: reach the engine: '' @ err)
      | Inr body \<Rightarrow>
         (case (case decode_tree (take 1048576 body) of None \<Rightarrow> None | Some t \<Rightarrow> set_any_map id (\<lambda>v _. v) t None) of
            None \<Rightarrow> Inl (''audit client: decode engine status: '' @ s_json_error srv body) | Some status \<Rightarrow> Inr status))"

text \<open>A failed notification is only logged; \<open>d_notes\<close> are the messages Redis took.\<close>

definition notifyEngine :: "DashServer \<Rightarrow> string \<Rightarrow> Dash \<Rightarrow> Dash" where
  "notifyEngine srv kind st =
     (case Notify (s_redis srv) (s_publisher srv) kind of (err, sent) \<Rightarrow> st\<lparr>d_notes := d_notes st @ sent\<rparr>)"

subsection \<open>Sessions\<close>

definition dash_handleLogin :: "DashServer \<Rightarrow> HttpRequest \<Rightarrow> Dash \<Rightarrow> DashResponse \<times> Dash" where
  "dash_handleLogin srv r st0 =
     (let ip = clientIP (s_trusted srv) r;
          (ok, logins) = login_allow (s_now srv) ip (d_logins st0);
          st = st0\<lparr>d_logins := logins\<rparr>
      in if \<not> ok then (dash_writeJSON 429 (error_body ''too many failed sign-in attempts; try again later''), st)
         else case decodeJSON login_fields no_login r of
           None \<Rightarrow> (dash_writeJSON 400 (error_body ''malformed request''), st)
         | Some req \<Rightarrow>
            (case Login (s_bcrypt srv) (s_manager srv) (s_now srv) (lUser req) (lPassword req) of
               Inl _ \<Rightarrow> (dash_writeJSON 401 (error_body ''invalid credentials''),
                         st\<lparr>d_logins := login_fail (s_now srv) ip (d_logins st)\<rparr>)
             | Inr token \<Rightarrow>
                (let st = st\<lparr>d_logins := login_reset ip (d_logins st)\<rparr>;
                     (err, st) = RecordAdmin srv (lUser req) ''login'' [(''ip'', GString ip)] st
                 in ((dash_writeJSON 200 (GMap [(''user'', GString (lUser req)),
                        (''expires_in'', GInt (ttl (s_manager srv) div second))]))
                       \<lparr>set_cookies := [SetCookie (s_manager srv) token]\<rparr>, st))))"

definition dash_handleLogout :: "DashServer \<Rightarrow> HttpRequest \<Rightarrow> Dash \<Rightarrow> DashResponse \<times> Dash" where
  "dash_handleLogout srv r st =
     (let st = (case qCookie r of None \<Rightarrow> st
                | Some token \<Rightarrow> (case Verify (s_manager srv) (s_now srv) token of Inl _ \<Rightarrow> st
                    | Inr user \<Rightarrow> snd (RecordAdmin srv user ''logout'' [] st)))
      in ((dash_writeJSON 200 (GStrMap [(''status'', ''signed out'')]))\<lparr>set_cookies := [ClearCookie (s_manager srv)]\<rparr>, st))"

definition handleSession :: "DashServer \<Rightarrow> HttpRequest \<Rightarrow> DashResponse" where
  "handleSession srv r =
     (case qCookie r of None \<Rightarrow> dash_writeJSON 401 (error_body ''no session'')
      | Some token \<Rightarrow>
         (case Verify (s_manager srv) (s_now srv) token of
            Inl err \<Rightarrow> (dash_writeJSON 401 (error_body (auth_error_text err)))\<lparr>set_cookies := [ClearCookie (s_manager srv)]\<rparr>
          | Inr user \<Rightarrow> dash_writeJSON 200 (GStrMap [(''user'', user)])))"

subsection \<open>The audit log\<close>

definition parseTime :: "string \<Rightarrow> string + time" where
  "parseTime raw =
     (if raw = [] then Inr 0
      else case parse_rfc3339 raw of
        None \<Rightarrow> Inl ''must be an RFC3339 timestamp, e.g. 2026-08-25T12:00:00Z'' | Some t \<Rightarrow> Inr t)"

definition parse_number :: "string \<Rightarrow> string \<Rightarrow> string + int" where
  "parse_number msg raw = (if raw = [] then Inr 0 else case parse_int raw of None \<Rightarrow> Inl msg | Some n \<Rightarrow> Inr n)"

definition parseFilter :: "HttpRequest \<Rightarrow> string + Filter" where
  "parseFilter r =
     (case parseTime (query_get r ''from'') of Inl err \<Rightarrow> Inl (''from: '' @ err)
      | Inr since \<Rightarrow>
         (case parseTime (query_get r ''to'') of Inl err \<Rightarrow> Inl (''to: '' @ err)
          | Inr until \<Rightarrow>
             (case parse_number ''limit must be a number'' (query_get r ''limit'') of Inl err \<Rightarrow> Inl err
              | Inr lim \<Rightarrow>
                 (case parse_number ''offset must be a number'' (query_get r ''offset'') of Inl err \<Rightarrow> Inl err
                  | Inr off \<Rightarrow>
                      Inr \<lparr>FKind = query_get r ''kind'', FVerdict = query_get r ''verdict'', FIP = query_get r ''ip'',
                           FRule = query_get r ''rule'', FRequestID = query_get r ''request_id'', FFrom = since,
                           FTo = until, Limit = lim, Offset = off\<rparr>))))"

definition handleEvents :: "DashServer \<Rightarrow> HttpRequest \<Rightarrow> DashResponse" where
  "handleEvents srv r =
     (case parseFilter r of Inl err \<Rightarrow> dash_writeJSON 400 (error_body err)
      | Inr f0 \<Rightarrow>
         (let f = Normalized f0 in
          case repo_List (s_repo srv) f of Inl _ \<Rightarrow> fail ''listing audit entries''
          | Inr es \<Rightarrow>
             (case repo_Count (s_repo srv) f of Inl _ \<Rightarrow> fail ''counting audit entries''
              | Inr hits \<Rightarrow>
                  dash_writeJSON 200 (GMap [(''entries'', GSlice (map entry_value es)), (''total'', GInt hits),
                    (''limit'', GInt (Limit f)), (''offset'', GInt (Offset f))]))))"

definition handleEvent :: "DashServer \<Rightarrow> HttpRequest \<Rightarrow> DashResponse" where
  "handleEvent srv r =
     (case repo_List (s_repo srv) \<lparr>FKind = [], FVerdict = [], FIP = [], FRule = [], FRequestID = qSegment r,
             FFrom = 0, FTo = 0, Limit = 100, Offset = 0\<rparr> of
        Inl _ \<Rightarrow> fail ''reading audit entry''
      | Inr es \<Rightarrow>
          if es = [] then dash_writeJSON 404 (error_body ''no entry with that request id'')
          else dash_writeJSON 200 (GMap [(''entries'', GSlice (map entry_value es))]))"

definition handleStats :: "DashServer \<Rightarrow> HttpRequest \<Rightarrow> DashResponse" where
  "handleStats srv r =
     (let raw = query_get r ''window'';
          win = (if raw = [] then Some (3600 * second)
                 else case ParseDuration raw of None \<Rightarrow> None
                   | Some d \<Rightarrow> if d \<le> 0 \<or> d > 2592000 * second then None else Some d)
      in case win of
           None \<Rightarrow> dash_writeJSON 400 (error_body ''window must be a duration between 1s and 720h, e.g. 1h or 24h'')
         | Some w \<Rightarrow>
            (case repo_Stats (s_repo srv) w of Inl _ \<Rightarrow> fail ''computing traffic statistics''
             | Inr st \<Rightarrow> dash_writeJSON 200 (traffic_value st)))"

definition handleVerify :: "DashServer \<Rightarrow> HttpRequest \<Rightarrow> DashResponse" where
  "handleVerify srv r =
     (case parseTime (query_get r ''from'') of Inl err \<Rightarrow> dash_writeJSON 400 (error_body (''from: '' @ err))
      | Inr since \<Rightarrow>
         (case parseTime (query_get r ''to'') of Inl err \<Rightarrow> dash_writeJSON 400 (error_body (''to: '' @ err))
          | Inr until \<Rightarrow>
             (case repo_Verify (s_repo srv) since until of Inl _ \<Rightarrow> fail ''verifying the audit chain''
              | Inr res \<Rightarrow> dash_writeJSON 200 (verify_value res))))"

subsection \<open>Rules and the access list\<close>

definition handleListRules :: "DashServer \<Rightarrow> Dash \<Rightarrow> DashResponse" where
  "handleListRules srv st =
     (case Rules (s_sql srv) (s_store_up srv) (s_brk srv) (d_tables st) of Inl _ \<Rightarrow> fail ''listing rules''
      | Inr [] \<Rightarrow> dash_writeJSON 200 (GMap [(''rules'', GNil)])
      | Inr rs \<Rightarrow> dash_writeJSON 200 (GMap [(''rules'', GSlice (map rule_config_value rs))]))"

definition patch_details :: "string \<Rightarrow> bool \<Rightarrow> string \<Rightarrow> goval gomap" where
  "patch_details name on ip = [(''rule'', GString name), (''enabled'', GBool on), (''ip'', GString ip)]"

definition handlePatchRule :: "DashServer \<Rightarrow> string \<Rightarrow> HttpRequest \<Rightarrow> Dash \<Rightarrow> DashResponse \<times> Dash" where
  "handlePatchRule srv actor r st =
     (let name = qSegment r in
      case decodeJSON patch_fields None r of
        Some (Some on) \<Rightarrow>
          (case RecordAdmin srv actor ''rule.set_enabled'' (patch_details name on (clientIP (s_trusted srv) r)) st of
             (Some err, st) \<Rightarrow> (refuseUnaudited err, st)
           | (None, st) \<Rightarrow>
              (case store_SetEnabled (s_store_up srv) (s_now srv) name on actor (d_tables st) of
                 (Inl (ErrUnknownRule _), t) \<Rightarrow> (dash_writeJSON 404 (error_body (''no such rule: '' @ name)), st\<lparr>d_tables := t\<rparr>)
               | (Inl _, t) \<Rightarrow> (fail ''updating rule'', st\<lparr>d_tables := t\<rparr>)
               | (Inr rule, t) \<Rightarrow> (dash_writeJSON 200 (rule_config_value rule), notifyEngine srv ''rules'' (st\<lparr>d_tables := t\<rparr>))))
      | _ \<Rightarrow> (dash_writeJSON 400 (error_body (''body must be {'' @ [dquote] @ ''enabled'' @ [dquote] @ '': true|false}'')), st))"

definition handleListIPRules :: "DashServer \<Rightarrow> Dash \<Rightarrow> DashResponse" where
  "handleListIPRules srv st =
     (case IPRules (s_sql srv) (s_store_up srv) (s_brk srv) (d_tables st) of Inl _ \<Rightarrow> fail ''listing ip rules''
      | Inr rs \<Rightarrow> dash_writeJSON 200 (GMap [(''rules'', GSlice (map ip_rule_value rs))]))"

text \<open>The text of the error, with the Unicode table behind \<^verbatim>\<open>%q\<close> as an argument.\<close>

definition prefix_error_text :: "(nat \<Rightarrow> bool) \<Rightarrow> prefix_error \<Rightarrow> string" where
  "prefix_error_text printable e =
     (case e of PrefixRequired \<Rightarrow> ''cidr is required''
      | BadPrefix v \<Rightarrow> go_quote printable v @ '' is neither an IP address nor a CIDR range'')"

definition add_details :: "IPRule \<Rightarrow> string \<Rightarrow> goval gomap" where
  "add_details rule ip = [(''cidr'', GString (CIDR rule)), (''target'', GString (Action rule)),
     (''note'', GString (Note rule)), (''ip'', GString ip)]"

definition handleAddIPRule :: "DashServer \<Rightarrow> string \<Rightarrow> HttpRequest \<Rightarrow> Dash \<Rightarrow> DashResponse \<times> Dash" where
  "handleAddIPRule srv actor r st =
     (case decodeJSON ip_fields no_rule r of
        None \<Rightarrow> (dash_writeJSON 400 (error_body ''malformed request''), st)
      | Some req0 \<Rightarrow>
         (case parsePrefix (CIDR req0) of
            Inl err \<Rightarrow> (dash_writeJSON 400 (error_body (prefix_error_text (s_printable srv) err)), st)
          | Inr cidr \<Rightarrow>
             (let req = req0\<lparr>CIDR := cidr\<rparr> in
              if Action req \<noteq> ActionAllow \<and> Action req \<noteq> ActionDeny
              then (dash_writeJSON 400 (error_body (''action must be '' @ [dquote] @ ''allow'' @ [dquote] @ '' or ''
                      @ [dquote] @ ''deny'' @ [dquote])), st)
              else case RecordAdmin srv actor ''ipblock.add'' (add_details req (clientIP (s_trusted srv) r)) st of
                (Some err, st) \<Rightarrow> (refuseUnaudited err, st)
              | (None, st) \<Rightarrow>
                 (case AddIPRule (s_sql srv) (s_store_up srv) (s_now srv) req actor (d_tables st) of
                    (Inl _, t) \<Rightarrow> (fail ''adding ip rule'', st\<lparr>d_tables := t\<rparr>)
                  | (Inr rule, t) \<Rightarrow>
                      (dash_writeJSON 201 (ip_rule_value rule), notifyEngine srv ''ipblock'' (st\<lparr>d_tables := t\<rparr>))))))"

definition delete_details :: "string \<Rightarrow> string \<Rightarrow> goval gomap" where
  "delete_details cidr ip = [(''cidr'', GString cidr), (''ip'', GString ip)]"

definition handleDeleteIPRule :: "DashServer \<Rightarrow> string \<Rightarrow> HttpRequest \<Rightarrow> Dash \<Rightarrow> DashResponse \<times> Dash" where
  "handleDeleteIPRule srv actor r st =
     (case parsePrefix (query_get r ''cidr'') of
        Inl err \<Rightarrow> (dash_writeJSON 400 (error_body (prefix_error_text (s_printable srv) err)), st)
      | Inr cidr \<Rightarrow>
         (case RecordAdmin srv actor ''ipblock.delete'' (delete_details cidr (clientIP (s_trusted srv) r)) st of
            (Some err, st) \<Rightarrow> (refuseUnaudited err, st)
          | (None, st) \<Rightarrow>
             (case DeleteIPRule (s_sql srv) (s_store_up srv) cidr (d_tables st) of
                (Inl _, t) \<Rightarrow> (fail ''deleting ip rule'', st\<lparr>d_tables := t\<rparr>)
              | (Inr removed, t) \<Rightarrow>
                  if \<not> removed then (dash_writeJSON 404 (error_body (''no such entry: '' @ cidr)), st\<lparr>d_tables := t\<rparr>)
                  else (\<lparr>rstatus = 204, rheaders = [], rbody = GNil, set_cookies = []\<rparr>,
                        notifyEngine srv ''ipblock'' (st\<lparr>d_tables := t\<rparr>)))))"

subsection \<open>Status\<close>

definition dash_handleHealth :: "DashServer \<Rightarrow> DashResponse" where
  "dash_handleHealth srv = dash_writeJSON 200 (GStrMap [(''status'', ''ok''), (''version'', s_version srv)])"

text \<open>Writing into a nil map panics; the server then drops the connection without an answer.\<close>

definition dropped_connection :: DashResponse where
  "dropped_connection = \<lparr>rstatus = 0, rheaders = [], rbody = GNil, set_cookies = []\<rparr>"

definition dash_handleStatus :: "DashServer \<Rightarrow> DashResponse" where
  "dash_handleStatus srv =
     (let answer = (\<lambda>engine. dash_writeJSON 200 (GMap [(''version'', GString (s_version srv)),
            (''ws_clients'', GInt (int (s_clients srv))), (''engine'', engine)]))
      in case EngineStatus srv of
           Inl err \<Rightarrow> answer (GMap [(''reachable'', GBool False), (''error'', GString err)])
         | Inr None \<Rightarrow> dropped_connection
         | Inr (Some engine) \<Rightarrow> answer (GMap (map_put ''reachable'' (GBool True) engine)))"

subsection \<open>Routing\<close>

datatype outer_route = RHealth | RLogin | RLogout | RSession | RGuarded | RSpa

datatype guarded_route =
    GEvents | GEvent | GStats | GVerify | GListRules | GPatchRule | GListIP | GAddIP | GDeleteIP | GStatus | GLive

definition outer_routes :: "(string \<times> segment list \<times> outer_route) list" where
  "outer_routes =
     [(''GET'', [Lit ''healthz''], RHealth), (''POST'', [Lit ''api'', Lit ''v1'', Lit ''login''], RLogin),
      (''POST'', [Lit ''api'', Lit ''v1'', Lit ''logout''], RLogout), (''GET'', [Lit ''api'', Lit ''v1'', Lit ''session''], RSession),
      ([], [Lit ''api'', Rest], RGuarded), ([], [Lit ''ws'', Rest], RGuarded), ([], [Rest], RSpa)]"

definition guarded_routes :: "(string \<times> segment list \<times> guarded_route) list" where
  "guarded_routes =
     [(''GET'', [Lit ''api'', Lit ''v1'', Lit ''events''], GEvents), (''GET'', [Lit ''api'', Lit ''v1'', Lit ''events'', Wild], GEvent),
      (''GET'', [Lit ''api'', Lit ''v1'', Lit ''stats''], GStats), (''GET'', [Lit ''api'', Lit ''v1'', Lit ''audit'', Lit ''verify''], GVerify),
      (''GET'', [Lit ''api'', Lit ''v1'', Lit ''rules''], GListRules), (''PATCH'', [Lit ''api'', Lit ''v1'', Lit ''rules'', Wild], GPatchRule),
      (''GET'', [Lit ''api'', Lit ''v1'', Lit ''ipblock''], GListIP), (''POST'', [Lit ''api'', Lit ''v1'', Lit ''ipblock''], GAddIP),
      (''DELETE'', [Lit ''api'', Lit ''v1'', Lit ''ipblock''], GDeleteIP), (''GET'', [Lit ''api'', Lit ''v1'', Lit ''status''], GStatus),
      (''GET'', [Lit ''ws'', Lit ''live''], GLive)]"

definition mux_error :: "int \<Rightarrow> DashResponse" where
  "mux_error status = \<lparr>rstatus = status, rheaders = [(''Content-Type'', ''text/plain; charset=utf-8'')],
     rbody = GString (if status = 404 then ''404 page not found'' else ''Method Not Allowed''), set_cookies = []\<rparr>"

definition mux_answer :: "HttpRequest \<Rightarrow> int \<Rightarrow> DashResponse" where
  "mux_answer r status = (if status = 301 then
     \<lparr>rstatus = 301, rheaders = [(''Content-Type'', ''text/html; charset=utf-8''), (''Location'', qPath r @ ''/'')],
      rbody = (if qMethod r = ''GET'' then GString (''<a href='' @ [dquote] @ qPath r @ ''/'' @ [dquote] @ ''>Moved Permanently</a>.'') else GNil),
      set_cookies = []\<rparr>
     else mux_error status)"

definition guarded :: "DashServer \<Rightarrow> HttpRequest \<Rightarrow> Dash \<Rightarrow> string \<Rightarrow> DashResponse \<times> Dash" where
  "guarded srv r0 st user =
     (let path = path_segments (qPath r0); r = r0\<lparr>qSegment := (if path = [] then [] else last path)\<rparr> in
      case route guarded_routes (qMethod r) path of
        Inl status \<Rightarrow> (mux_answer r status, st)
      | Inr GEvents \<Rightarrow> (handleEvents srv r, st)
      | Inr GEvent \<Rightarrow> (handleEvent srv r, st)
      | Inr GStats \<Rightarrow> (handleStats srv r, st)
      | Inr GVerify \<Rightarrow> (handleVerify srv r, st)
      | Inr GListRules \<Rightarrow> (handleListRules srv st, st)
      | Inr GPatchRule \<Rightarrow> handlePatchRule srv user r st
      | Inr GListIP \<Rightarrow> (handleListIPRules srv st, st)
      | Inr GAddIP \<Rightarrow> handleAddIPRule srv user r st
      | Inr GDeleteIP \<Rightarrow> handleDeleteIPRule srv user r st
      | Inr GStatus \<Rightarrow> (dash_handleStatus srv, st)
      | Inr GLive \<Rightarrow> (s_live srv r, st))"

definition dash_Handler :: "DashServer \<Rightarrow> HttpRequest \<Rightarrow> Dash \<Rightarrow> DashResponse \<times> Dash" where
  "dash_Handler srv r st =
     (let (resp, st') =
        (case route outer_routes (qMethod r) (path_segments (qPath r)) of
           Inl status \<Rightarrow> (mux_answer r status, st)
         | Inr RHealth \<Rightarrow> (dash_handleHealth srv, st)
         | Inr RLogin \<Rightarrow> dash_handleLogin srv r st
         | Inr RLogout \<Rightarrow> dash_handleLogout srv r st
         | Inr RSession \<Rightarrow> (handleSession srv r, st)
         | Inr RGuarded \<Rightarrow>
             (case Require (s_manager srv) (s_now srv) (qCookie r) (guarded srv r st) of
                Inl resp \<Rightarrow> (resp, st) | Inr out \<Rightarrow> out)
         | Inr RSpa \<Rightarrow> (spaHandler (s_stat srv) (s_index srv) (s_files srv) r, st))
      in (securityHeaders resp, st'))"

subsection \<open>What is put on the record\<close>

lemma admin_payload_lookup:
  "map_of (admin_payload actor action details) ''actor'' = Some (GString actor)"
  "map_of (admin_payload actor action details) ''action'' = Some (GString action)"
proof -
  have "map_of (foldl admin_step p ds) k = map_of p k" if "k = ''actor'' \<or> k = ''action''" for p ds k
    using that by (induction ds arbitrary: p) (auto simp: admin_step_def map_of_put)
  then show "map_of (admin_payload actor action details) ''actor'' = Some (GString actor)"
    "map_of (admin_payload actor action details) ''action'' = Some (GString action)"
    by (simp_all add: admin_payload_def)
qed

lemma admin_payload_details:
  assumes "k \<noteq> ''actor''" "k \<noteq> ''action''" "distinct (keys details)" "map_of details k = Some v"
  shows "map_of (admin_payload actor action details) k = Some v"
proof -
  have "map_of (foldl admin_step p ds) k = (case map_of ds k of None \<Rightarrow> map_of p k | Some v \<Rightarrow> Some v)"
    if "distinct (keys ds)" for p ds
    using that
  proof (induction ds arbitrary: p)
    case (Cons d ds)
    have "map_of ds (fst d) = None" using Cons.prems by (simp add: keys_def map_of_eq_None_iff)
    then show ?case
      using Cons assms(1,2) by (cases d) (auto simp: admin_step_def map_of_put keys_def split: option.splits)
  qed simp
  then show ?thesis using assms(3,4) by (simp add: admin_payload_def)
qed

definition confirmed :: "DashServer \<Rightarrow> goval gomap \<Rightarrow> bool" where
  "confirmed srv p \<longleftrightarrow> (\<exists>body text. marshal (GMap [(''kind'', GString KindAdmin), (''payload'', GMap p)]) = Inr body
     \<and> s_engine srv body = Inr (201, text))"

lemma RecordAdmin_cases:
  assumes "RecordAdmin srv actor action details st = (err, st')"
  obtains (failed) e where "err = Some e" "st' = st"
  | (recorded) "err = None" "confirmed srv (admin_payload actor action details)"
      "st' = st\<lparr>d_journal := d_journal st @ [admin_payload actor action details]\<rparr>"
proof -
  have "(\<exists>e. err = Some e \<and> st' = st) \<or> (err = None \<and> confirmed srv (admin_payload actor action details)
      \<and> st' = st\<lparr>d_journal := d_journal st @ [admin_payload actor action details]\<rparr>)"
    using assms unfolding RecordAdmin_def confirmed_def Let_def by (auto split: sum.splits if_splits simp del: marshal.simps)
  then show thesis using failed recorded by blast
qed

text \<open>
  What an entry on the record says was done to the tables: the change, repeated from the entry alone.
\<close>

definition payload_text :: "goval gomap \<Rightarrow> string \<Rightarrow> string" where
  "payload_text p k = (case map_of p k of Some (GString v) \<Rightarrow> v | _ \<Rightarrow> [])"

definition replay_admin :: "RuleSQL \<Rightarrow> time \<Rightarrow> goval gomap \<Rightarrow> RuleTables \<Rightarrow> RuleTables" where
  "replay_admin sql now p db =
     (if payload_text p ''action'' = ''rule.set_enabled''
      then snd (store_SetEnabled True now (payload_text p ''rule'') (map_of p ''enabled'' = Some (GBool True))
                  (payload_text p ''actor'') db)
      else if payload_text p ''action'' = ''ipblock.add''
      then snd (AddIPRule sql True now \<lparr>CIDR = payload_text p ''cidr'', Action = payload_text p ''target'',
                  Note = payload_text p ''note'', CreatedAt = 0, CreatedBy = []\<rparr> (payload_text p ''actor'') db)
      else if payload_text p ''action'' = ''ipblock.delete''
      then snd (DeleteIPRule sql True (payload_text p ''cidr'') db)
      else db)"

text \<open>The one entry a request put on the record, and that it tells the change.\<close>

definition on_the_record :: "DashServer \<Rightarrow> HttpRequest \<Rightarrow> string \<Rightarrow> Dash \<Rightarrow> Dash \<Rightarrow> bool" where
  "on_the_record srv r actor st st' \<longleftrightarrow>
     (\<exists>p. d_journal st' = d_journal st @ [p] \<and> confirmed srv p \<and> text_members p
        \<and> map_of p ''actor'' = Some (GString actor)
        \<and> map_of p ''ip'' = Some (GString (clientIP (s_trusted srv) r))
        \<and> d_tables st' = replay_admin (s_sql srv) (s_now srv) p (d_tables st))"

lemma notifyEngine_fields [simp]:
  "d_tables (notifyEngine srv k st) = d_tables st" "d_journal (notifyEngine srv k st) = d_journal st"
  "d_logins (notifyEngine srv k st) = d_logins st"
  by (simp_all add: notifyEngine_def split: prod.splits)

text \<open>
  How a handler that can change something ends: it refused and did nothing, or the engine confirmed its
  entry and the store, if it could be reached, made the change the entry tells.
\<close>

definition vouched :: "DashServer \<Rightarrow> HttpRequest \<Rightarrow> string \<Rightarrow> Dash \<Rightarrow> Dash \<Rightarrow> bool" where
  "vouched srv r actor st st' \<longleftrightarrow> st' = st \<or>
     (\<exists>p. d_journal st' = d_journal st @ [p] \<and> confirmed srv p \<and> text_members p
        \<and> map_of p ''actor'' = Some (GString actor)
        \<and> map_of p ''ip'' = Some (GString (clientIP (s_trusted srv) r))
        \<and> (if s_store_up srv then d_tables st' = replay_admin (s_sql srv) (s_now srv) p (d_tables st)
           else d_tables st' = d_tables st \<and> d_notes st' = d_notes st))"

lemma admin_payload_texts:
  assumes "text_members details"
  shows "text_members (admin_payload actor action details)"
proof -
  have put: "text_members (map_put k v p)" if "text_members p" "utf8_valid k" "text_value v" for k v p
  proof -
    have "set (map_put k v p) \<subseteq> insert (k, v) (set p)" by (induction p) (auto split: if_splits)
    then show ?thesis using that map_put_distinct by (fastforce simp: text_members_def list_all_iff)
  qed
  have "text_members (foldl admin_step p ds)"
    if "text_members p" "list_all (\<lambda>kv. utf8_valid (fst kv) \<and> text_value (snd kv)) ds" for p ds
    using that by (induction ds arbitrary: p) (simp_all add: admin_step_def put)
  moreover have "text_members [(''actor'', GString actor), (''action'', GString action)]"
    by (simp add: text_members_def keys_def text_value_def utf8_valid_ascii ascii_def code_def)
  ultimately show ?thesis using assms by (simp add: admin_payload_def text_members_def)
qed

lemma vouchedI:
  assumes "confirmed srv (admin_payload actor action details)"
    "d_journal st' = d_journal st @ [admin_payload actor action details]"
    "if s_store_up srv then d_tables st' = replay_admin (s_sql srv) (s_now srv) (admin_payload actor action details) (d_tables st)
     else d_tables st' = d_tables st \<and> d_notes st' = d_notes st"
    "text_members details" "map_of details ''ip'' = Some (GString (clientIP (s_trusted srv) r))"
  shows "vouched srv r actor st st'"
  unfolding vouched_def
  using assms admin_payload_lookup admin_payload_details [OF _ _ _ assms(5)] admin_payload_texts text_members_def
  by (intro disjI2 exI [where x = "admin_payload actor action details"]) auto

lemma vouched_recorded:
  assumes "vouched srv r actor st st'" "d_tables st' \<noteq> d_tables st \<or> d_notes st' \<noteq> d_notes st"
  shows "on_the_record srv r actor st st'"
  using assms unfolding vouched_def on_the_record_def by (auto split: if_splits)

lemma admin_payload_text:
  "payload_text (admin_payload actor action details) ''actor'' = actor"
  "payload_text (admin_payload actor action details) ''action'' = action"
  by (simp_all add: payload_text_def admin_payload_lookup)

lemma replay_set_enabled:
  "replay_admin sql now (admin_payload actor ''rule.set_enabled'' (patch_details name on ip)) db
    = snd (store_SetEnabled True now name on actor db)"
proof -
  let ?d = "patch_details name on ip"
  have "distinct (keys ?d)" "map_of ?d ''rule'' = Some (GString name)" "map_of ?d ''enabled'' = Some (GBool on)"
    by (simp_all add: patch_details_def keys_def)
  then show ?thesis
    using admin_payload_details [of "''rule''" ?d] admin_payload_details [of "''enabled''" ?d]
    by (simp add: replay_admin_def admin_payload_text payload_text_def [of _ "''rule''"])
qed

lemma replay_add:
  "replay_admin sql now (admin_payload actor ''ipblock.add'' (add_details rule ip)) db
    = snd (AddIPRule sql True now rule actor db)"
proof -
  let ?d = "add_details rule ip"
  have "distinct (keys ?d)" "map_of ?d ''cidr'' = Some (GString (CIDR rule))"
    "map_of ?d ''target'' = Some (GString (Action rule))" "map_of ?d ''note'' = Some (GString (Note rule))"
    by (simp_all add: add_details_def keys_def)
  then show ?thesis
    using admin_payload_details [of "''cidr''" ?d] admin_payload_details [of "''target''" ?d]
      admin_payload_details [of "''note''" ?d]
    by (simp add: replay_admin_def admin_payload_text AddIPRule_def Let_def
        payload_text_def [of _ "''cidr''"] payload_text_def [of _ "''target''"] payload_text_def [of _ "''note''"]
        split: option.splits)
qed

lemma replay_delete:
  "replay_admin sql now (admin_payload actor ''ipblock.delete'' (delete_details cidr ip)) db
    = snd (DeleteIPRule sql True cidr db)"
proof -
  let ?d = "delete_details cidr ip"
  have "distinct (keys ?d)" "map_of ?d ''cidr'' = Some (GString cidr)" by (simp_all add: delete_details_def keys_def)
  then show ?thesis
    using admin_payload_details [of "''cidr''" ?d]
    by (simp add: replay_admin_def admin_payload_text payload_text_def [of _ "''cidr''"])
qed

lemma details_facts:
  "text_members (patch_details name on ip)" "map_of (patch_details name on ip) ''ip'' = Some (GString ip)"
  "text_members (add_details rule ip)" "map_of (add_details rule ip) ''ip'' = Some (GString ip)"
  "text_members (delete_details cidr ip)" "map_of (delete_details cidr ip) ''ip'' = Some (GString ip)"
  by (simp_all add: patch_details_def add_details_def delete_details_def text_members_def text_value_def keys_def
      utf8_valid_ascii ascii_def code_def)

lemma store_down:
  "snd (store_SetEnabled False now name on actor db) = db" "snd (AddIPRule sql False now rule actor db) = db"
  "snd (DeleteIPRule sql False cidr db) = db"
  by (simp_all add: store_SetEnabled_def AddIPRule_def DeleteIPRule_def)

lemmas account_facts = details_facts store_down replay_set_enabled replay_add replay_delete

lemma handlePatchRule_accounted:
  assumes "handlePatchRule srv actor r st = (resp, st')"
  shows "vouched srv r actor st st'"
proof (cases "decodeJSON patch_fields None r")
  case (Some o1)
  show ?thesis
  proof (cases o1)
    case None
    then show ?thesis using Some assms by (simp add: handlePatchRule_def Let_def vouched_def)
  next
    case on: (Some on)
    let ?det = "patch_details (qSegment r) on (clientIP (s_trusted srv) r)"
    obtain err st1 where rec: "RecordAdmin srv actor ''rule.set_enabled'' ?det st = (err, st1)" by fastforce
    then show ?thesis
    proof (cases rule: RecordAdmin_cases)
      case failed
      then show ?thesis using assms Some on rec by (simp add: handlePatchRule_def Let_def vouched_def)
    next
      case recorded
      let ?t = "store_SetEnabled (s_store_up srv) (s_now srv) (qSegment r) on actor (d_tables st)"
      have "d_journal st' = d_journal st @ [admin_payload actor ''rule.set_enabled'' ?det]" "d_tables st' = snd ?t"
        using assms Some on rec recorded
        by (auto simp: handlePatchRule_def Let_def split: prod.splits sum.splits store_error.splits)
      moreover have "s_store_up srv \<or> d_notes st' = d_notes st"
        using assms Some on rec recorded by (cases "s_store_up srv") (auto simp: handlePatchRule_def Let_def store_SetEnabled_def)
      ultimately show ?thesis
        by (intro vouchedI [OF recorded(2)])
          (auto simp: account_facts)
    qed
  qed
next
  case None
  then show ?thesis using assms by (simp add: handlePatchRule_def Let_def vouched_def)
qed

lemma handleAddIPRule_accounted:
  assumes "handleAddIPRule srv actor r st = (resp, st')"
  shows "vouched srv r actor st st'"
proof (cases "\<exists>req cidr. decodeJSON ip_fields no_rule r = Some req \<and> parsePrefix (CIDR req) = Inr cidr
    \<and> (Action req = ActionAllow \<or> Action req = ActionDeny)")
  case True
  then obtain req cidr where req: "decodeJSON ip_fields no_rule r = Some req" "parsePrefix (CIDR req) = Inr cidr"
    "Action req = ActionAllow \<or> Action req = ActionDeny" by blast
  let ?rule = "req\<lparr>CIDR := cidr\<rparr>"
  let ?det = "add_details ?rule (clientIP (s_trusted srv) r)"
  obtain err st1 where rec: "RecordAdmin srv actor ''ipblock.add'' ?det st = (err, st1)" by fastforce
  then show ?thesis
  proof (cases rule: RecordAdmin_cases)
    case failed
    then show ?thesis using assms req rec by (auto simp: handleAddIPRule_def Let_def vouched_def)
  next
    case recorded
    have "d_journal st' = d_journal st @ [admin_payload actor ''ipblock.add'' ?det]"
      "d_tables st' = snd (AddIPRule (s_sql srv) (s_store_up srv) (s_now srv) ?rule actor (d_tables st))"
      using assms req rec recorded by (auto simp: handleAddIPRule_def Let_def split: prod.splits sum.splits if_splits)
    moreover have "s_store_up srv \<or> d_notes st' = d_notes st"
      using assms req rec recorded by (cases "s_store_up srv") (auto simp: handleAddIPRule_def Let_def AddIPRule_def)
    ultimately show ?thesis
      by (intro vouchedI [OF recorded(2)])
        (auto simp: account_facts)
  qed
next
  case False
  then have "st' = st"
    using assms by (auto simp: handleAddIPRule_def Let_def split: option.splits sum.splits if_splits)
  then show ?thesis by (simp add: vouched_def)
qed

lemma handleDeleteIPRule_accounted:
  assumes "handleDeleteIPRule srv actor r st = (resp, st')"
  shows "vouched srv r actor st st'"
proof (cases "parsePrefix (query_get r ''cidr'')")
  case (Inl e)
  then show ?thesis using assms by (simp add: handleDeleteIPRule_def vouched_def)
next
  case (Inr cidr)
  let ?det = "delete_details cidr (clientIP (s_trusted srv) r)"
  obtain err st1 where rec: "RecordAdmin srv actor ''ipblock.delete'' ?det st = (err, st1)" by fastforce
  then show ?thesis
  proof (cases rule: RecordAdmin_cases)
    case failed
    then show ?thesis using assms Inr rec by (simp add: handleDeleteIPRule_def vouched_def)
  next
    case recorded
    have "d_journal st' = d_journal st @ [admin_payload actor ''ipblock.delete'' ?det]"
      "d_tables st' = snd (DeleteIPRule (s_sql srv) (s_store_up srv) cidr (d_tables st))"
      using assms Inr rec recorded by (auto simp: handleDeleteIPRule_def Let_def split: prod.splits sum.splits if_splits)
    moreover have "s_store_up srv \<or> d_notes st' = d_notes st"
      using assms Inr rec recorded by (cases "s_store_up srv") (auto simp: handleDeleteIPRule_def Let_def DeleteIPRule_def)
    ultimately show ?thesis
      by (intro vouchedI [OF recorded(2)])
        (auto simp: account_facts)
  qed
qed

subsection \<open>Sessions and routes\<close>

definition session :: "DashServer \<Rightarrow> HttpRequest \<Rightarrow> string option" where
  "session srv r = (case qCookie r of None \<Rightarrow> None
     | Some token \<Rightarrow> (case Verify (s_manager srv) (s_now srv) token of Inl _ \<Rightarrow> None | Inr user \<Rightarrow> Some user))"

definition behind_session :: "string list \<Rightarrow> bool" where
  "behind_session p \<longleftrightarrow> (case p of a # b # rest \<Rightarrow>
     a = ''ws'' \<or> a = ''api'' \<and> \<not> (b = ''v1'' \<and> rest \<in> set [[''login''], [''logout''], [''session'']]) | _ \<Rightarrow> False)"

lemma behind_session_route:
  assumes "behind_session p"
  shows "route outer_routes m p = Inr RGuarded"
proof -
  have "\<exists>a b rest. p = a # b # rest" using assms by (auto simp: behind_session_def split: list.splits)
  then have "\<not> slash_redirect outer_routes m p" by (auto simp: slash_redirect_def outer_routes_def)
  moreover obtain segs where "find (\<lambda>(pm, segs, r). method_match pm m \<and> segs_match segs p) outer_routes = Some ([], segs, RGuarded)"
    using assms by (auto simp: behind_session_def outer_routes_def method_match_def split: list.splits)
  ultimately show ?thesis by (simp add: route_def)
qed

lemma guarded_behind_session:
  assumes "route guarded_routes m p = Inr g"
  shows "route outer_routes m p = Inr RGuarded"
proof -
  have "\<forall>(pm, segs, g) \<in> set guarded_routes. \<forall>p. segs_match segs p \<longrightarrow> behind_session p"
    by (auto simp: guarded_routes_def behind_session_def)
  moreover obtain pm segs where "(pm, segs, g) \<in> set guarded_routes" "segs_match segs p"
    using assms by (rule route_Inr)
  ultimately have "behind_session p" by blast
  then show ?thesis by (rule behind_session_route)
qed

lemma no_session_unauthorized:
  assumes "session srv r = None"
  obtains resp where "Require (s_manager srv) (s_now srv) (qCookie r) h = Inl resp" "rstatus resp = 401"
  using assms
  by (auto simp: Require_def session_def unauthorized_def split: option.splits sum.splits)

lemma RecordAdmin_fields:
  "d_tables (snd (RecordAdmin srv actor action details st)) = d_tables st"
  "d_notes (snd (RecordAdmin srv actor action details st)) = d_notes st"
  by (cases "RecordAdmin srv actor action details st" rule: prod.exhaust; simp; erule RecordAdmin_cases; simp)+

lemma handleLogout_keeps:
  "d_tables (snd (dash_handleLogout srv r st)) = d_tables st" "d_notes (snd (dash_handleLogout srv r st)) = d_notes st"
  by (simp_all add: dash_handleLogout_def RecordAdmin_fields split: option.splits sum.splits)

lemma handleLogin_keeps:
  "d_tables (snd (dash_handleLogin srv r st)) = d_tables st" "d_notes (snd (dash_handleLogin srv r st)) = d_notes st"
  using RecordAdmin_fields
  by (simp_all add: dash_handleLogin_def Let_def case_prod_beta split: option.splits sum.splits)

lemma clientIP_segment [simp]: "clientIP t (r\<lparr>qSegment := x\<rparr>) = clientIP t r"
proof -
  have "peerAddr (r\<lparr>qSegment := x\<rparr>) = peerAddr r" "forwarded_header (r\<lparr>qSegment := x\<rparr>) = forwarded_header r"
    by (simp_all add: peerAddr_def forwarded_header_def split: option.splits)
  then show ?thesis by (simp add: clientIP_def Let_def split: option.splits)
qed

lemma guarded_accounted:
  assumes "guarded srv r st user = (resp, st')"
  shows "vouched srv r user st st'"
proof -
  let ?r = "r\<lparr>qSegment := (if path_segments (qPath r) = [] then [] else last (path_segments (qPath r)))\<rparr>"
  have same: "vouched srv ?r user st st' = vouched srv r user st st'" by (simp add: vouched_def)
  consider "handlePatchRule srv user ?r st = (resp, st')" | "handleAddIPRule srv user ?r st = (resp, st')"
    | "handleDeleteIPRule srv user ?r st = (resp, st')" | "st' = st"
    using assms by (auto simp: guarded_def Let_def split: sum.splits guarded_route.splits)
  then have "vouched srv ?r user st st'"
    using handlePatchRule_accounted handleAddIPRule_accounted handleDeleteIPRule_accounted
    by cases (blast | simp add: vouched_def)+
  then show ?thesis unfolding same .
qed

lemma Handler_unchanged:
  assumes "route outer_routes (qMethod r) (path_segments (qPath r)) \<noteq> Inr RGuarded"
  shows "d_tables (snd (dash_Handler srv r st)) = d_tables st \<and> d_notes (snd (dash_Handler srv r st)) = d_notes st"
  using assms handleLogin_keeps handleLogout_keeps
  by (simp add: dash_Handler_def case_prod_beta Let_def split: sum.splits outer_route.splits)

lemma Handler_guarded:
  assumes "route outer_routes (qMethod r) (path_segments (qPath r)) = Inr RGuarded"
  shows "dash_Handler srv r st = (case Require (s_manager srv) (s_now srv) (qCookie r) (guarded srv r st) of
    Inl resp \<Rightarrow> (securityHeaders resp, st) | Inr (resp, st') \<Rightarrow> (securityHeaders resp, st'))"
  using assms by (simp add: dash_Handler_def Let_def split: sum.splits)

lemma Require_session:
  "Require (s_manager srv) (s_now srv) (qCookie r) h = Inr out \<Longrightarrow> \<exists>user. session srv r = Some user \<and> out = h user"
  by (auto simp: Require_def session_def split: option.splits sum.splits)

lemma securityHeaders_status [simp]: "rstatus (securityHeaders resp) = rstatus resp"
  by (simp add: securityHeaders_def)

lemma handler_on_the_record:
  assumes "dash_Handler srv r st = (resp, st')" "d_tables st' \<noteq> d_tables st \<or> d_notes st' \<noteq> d_notes st"
  shows "\<exists>user. session srv r = Some user \<and> on_the_record srv r user st st'"
proof -
  have g: "route outer_routes (qMethod r) (path_segments (qPath r)) = Inr RGuarded"
    using assms Handler_unchanged [of r srv st] by (auto simp: prod_eq_iff)
  obtain out where out: "Require (s_manager srv) (s_now srv) (qCookie r) (guarded srv r st) = Inr out"
    using assms unfolding Handler_guarded [OF g] by (auto split: sum.splits)
  then obtain user where user: "session srv r = Some user" "out = guarded srv r st user" by (meson Require_session)
  obtain resp' where "guarded srv r st user = (resp', st')"
    using assms(1) out user(2) unfolding Handler_guarded [OF g] by (auto split: prod.splits)
  from vouched_recorded [OF guarded_accounted [OF this] assms(2)] show ?thesis using user(1) by blast
qed

subsection \<open>Properties\<close>

text \<open>C28: Nothing changes off the record. Whenever a request to the dashboard changes the tables, or makes it
  notify the engine, the request carries the session of an administrator, and the engine confirmed exactly
  one audit entry for it beforehand; that entry names the administrator and the client's address, and it
  tells the change: the new tables are what repeating the entry on the old ones gives.\<close>

theorem change_is_recorded:
  assumes "dash_Handler srv r st = (resp, st')" "d_tables st' \<noteq> d_tables st \<or> d_notes st' \<noteq> d_notes st"
  shows "\<exists>user. session srv r = Some user \<and> on_the_record srv r user st st'"
  using assms by (rule handler_on_the_record)

definition demo_server :: DashServer where
  "demo_server = \<lparr>s_repo = \<lparr>repo_List = \<lambda>_. Inr [], repo_Count = \<lambda>_. Inr 0, repo_Stats = \<lambda>_. Inl ''down'',
       repo_Verify = \<lambda>_ _. Inl ''down''\<rparr>,
     s_sql = plain_sql, s_store_up = True, s_brk = None, s_manager = sample_manager, s_trusted = [],
     s_engine = \<lambda>_. Inr (201, []), s_engine_status = Inr ''{}'', s_redis = \<lambda>_ _. None, s_publisher = NewPublisher ''events'', s_now = unix_epoch,
     s_bcrypt = \<lambda>h p. p = ''pw'', s_version = ''1.0.0'', s_printable = \<lambda>_. True, s_clients = 0,
     s_stat = \<lambda>_. False, s_index = None, s_files = \<lambda>_. mux_error 404, s_live = \<lambda>_. mux_error 404,
     s_json_error = \<lambda>_. ''unexpected EOF''\<rparr>"

definition demo_state :: Dash where
  "demo_state = \<lparr>d_tables = \<lparr>rules_table = [\<lparr>rr_name = ''sqli'', rr_enabled = True, rr_config = ''{}'', rr_updated = 0,
       rr_by = []\<rparr>], ip_table = []\<rparr>, d_logins = newLoginLimiter 10 (900 * second), d_journal = [], d_notes = []\<rparr>"

text \<open>A request whose body is the text of an object, and how it is read.\<close>

definition with_body :: "goval gomap \<Rightarrow> HttpRequest \<Rightarrow> HttpRequest" where
  "with_body m r = r\<lparr>qBody := (case marshal (GMap m) of Inl _ \<Rightarrow> [] | Inr b \<Rightarrow> b)\<rparr>"

lemma with_body_fields [simp]:
  "qRemoteAddr (with_body m r) = qRemoteAddr r" "qForwarded (with_body m r) = qForwarded r" "qMethod (with_body m r) = qMethod r"
  "qPath (with_body m r) = qPath r" "qCookie (with_body m r) = qCookie r"
  by (simp_all add: with_body_def)

lemma decodeJSON_body:
  assumes "text_members m" "2 + sum_list (map (\<lambda>kv. length (json_quote True (fst kv)) + part_size (marshal (snd kv)) + 2) m) \<le> 1048576"
  shows "decodeJSON fs zero (with_body m r) = set_members True fs (map (\<lambda>kv. (fst kv, tree_of (snd kv))) (sort_key fst m)) zero"
proof -
  note t = text_members_tree [OF assms(1)]
  obtain b where b: "marshal (GMap m) = Inr b" using t(6) by (metis sum.collapse(2))
  have "tree_value 0 (b @ []) = Some (tree_of (GMap m), [])"
    using t(5) [of max_depth] by (intro tree_marshal [OF b]) (simp_all add: max_depth_def)
  moreover have "length b \<le> 1048576" using object_length [OF b] assms(2) by simp
  ultimately show ?thesis
    unfolding t(1) by (simp add: decodeJSON_def with_body_def b decode_tree_def set_struct_def del: marshal.simps)
qed

definition demo_patch :: HttpRequest where
  "demo_patch = with_body [(''enabled'', GBool False)] edge_request\<lparr>qMethod := ''PATCH'', qPath := ''/api/v1/rules/sqli'',
     qCookie := Some (issue sample_manager ''admin'' (unix_epoch + 60 * second))\<rparr>"

lemma demo_session: "Verify sample_manager unix_epoch (issue sample_manager ''admin'' (unix_epoch + 60 * second)) = Inr ''admin''"
proof -
  have "unix_sec (unix_epoch + 60 * second) = 60" by (simp add: unix_sec_def second_def)
  moreover have "in_int64 60" by (simp add: in_int64_def int64_min_def int64_max_def)
  ultimately show ?thesis by (simp add: Verify_issue time_of_unix_def second_def)
qed

text \<open>Encoding an entry whose details are texts and truth values never fails.\<close>

lemma admin_payload_encodes:
  assumes "text_members details"
  shows "\<exists>body. marshal (GMap [(''kind'', GString KindAdmin), (''payload'', GMap (admin_payload actor action details))]) = Inr body"
proof -
  have "\<not> isl (marshal (GMap [(''kind'', GString KindAdmin), (''payload'', GMap (admin_payload actor action details))]))"
    using text_members_tree(6) [OF admin_payload_texts [OF assms]] by (intro marshal_object) (simp del: marshal.simps(9))
  then show ?thesis by (metis sum.collapse(2))
qed

lemma RecordAdmin_confirmed:
  assumes "text_members details" "\<And>body. s_engine srv body = Inr (201, [])"
  shows "RecordAdmin srv actor action details st = (None, st\<lparr>d_journal := d_journal st @ [admin_payload actor action details]\<rparr>)"
proof -
  obtain body where "marshal (GMap [(''kind'', GString KindAdmin), (''payload'', GMap (admin_payload actor action details))]) = Inr body"
    using admin_payload_encodes [OF assms(1)] by blast
  then show ?thesis unfolding RecordAdmin_def Let_def by (simp add: assms(2))
qed

lemma demo_patch_ip: "clientIP [] demo_patch = ''10.0.0.2''"
proof -
  have "split_host ''10.0.0.2:4711'' = Some ''10.0.0.2''" by code_simp
  then show ?thesis by (simp add: clientIP_def peerAddr_def demo_patch_def edge_request_def)
qed

lemma demo_patch_body: "decodeJSON patch_fields None (demo_patch\<lparr>qSegment := x\<rparr>) = Some (Some False)"
proof -
  have "ascii ''enabled''" by (simp add: ascii_def code_def)
  then have "text_members [(''enabled'', GBool False)]" "length (json_quote True ''enabled'') \<le> 44"
    using json_quote_length [of "''enabled''" True] by (simp_all add: text_members_def keys_def text_value_def utf8_valid_ascii)
  then have "decodeJSON patch_fields None (with_body [(''enabled'', GBool False)] r) = Some (Some False)" for r
    by (subst decodeJSON_body) (simp_all add: part_size_def field_named_def patch_fields_def set_bool_ptr_def)
  moreover have "decodeJSON patch_fields None (demo_patch\<lparr>qSegment := x\<rparr>)
      = decodeJSON patch_fields None (with_body [(''enabled'', GBool False)] edge_request)"
    by (simp add: demo_patch_def decodeJSON_def)
  ultimately show ?thesis by simp
qed

lemma demo_patch_changes:
  fixes f :: "bytes \<Rightarrow> string + (int \<times> string)"
  defines "srv \<equiv> demo_server\<lparr>s_engine := f\<rparr>"
  assumes "RecordAdmin srv ''admin'' ''rule.set_enabled'' (patch_details ''sqli'' False ''10.0.0.2'') demo_state = (None, st1)"
    "d_tables st1 = d_tables demo_state"
  shows "session srv demo_patch = Some ''admin''"
    "d_tables (snd (dash_Handler srv demo_patch demo_state)) \<noteq> d_tables demo_state"
proof -
  have path: "path_segments (qPath demo_patch) = [''api'', ''v1'', ''rules'', ''sqli'']"
    by (simp add: demo_patch_def path_segments_def)
  show user: "session srv demo_patch = Some ''admin''"
    by (simp add: session_def demo_patch_def srv_def demo_server_def demo_session)
  have route: "route outer_routes (qMethod demo_patch) (path_segments (qPath demo_patch)) = Inr RGuarded"
    "route guarded_routes (qMethod demo_patch) (path_segments (qPath demo_patch)) = Inr GPatchRule"
    unfolding path by (simp_all add: demo_patch_def outer_routes_def guarded_routes_def route_def slash_redirect_def method_match_def)
  have "snd (dash_Handler srv demo_patch demo_state) =
      snd (handlePatchRule srv ''admin'' (demo_patch\<lparr>qSegment := ''sqli''\<rparr>) demo_state)"
    using user unfolding Handler_guarded [OF route(1)]
    by (auto simp: Require_def session_def guarded_def route [unfolded path] path Let_def split: option.splits sum.splits prod.splits)
  moreover have "d_tables (snd (handlePatchRule srv ''admin'' (demo_patch\<lparr>qSegment := ''sqli''\<rparr>) demo_state))
      = snd (store_SetEnabled True unix_epoch ''sqli'' False ''admin'' (d_tables demo_state))"
  proof -
    have srv: "s_trusted srv = []" "s_store_up srv" "s_now srv = unix_epoch" by (simp_all add: srv_def demo_server_def)
    note body = demo_patch_body
    show ?thesis
      using assms(2,3) unfolding handlePatchRule_def Let_def
      by (auto simp: srv body demo_patch_ip split: prod.splits sum.splits store_error.splits)
  qed
  moreover have "snd (store_SetEnabled True unix_epoch ''sqli'' False ''admin'' (d_tables demo_state)) \<noteq> d_tables demo_state"
    by (simp add: demo_state_def store_SetEnabled_def update_rule_def)
  ultimately show "d_tables (snd (dash_Handler srv demo_patch demo_state)) \<noteq> d_tables demo_state" by simp
qed

theorem change_is_recorded_witness:
  "on_the_record demo_server demo_patch ''admin'' demo_state (snd (dash_Handler demo_server demo_patch demo_state))"
proof -
  have same: "demo_server\<lparr>s_engine := s_engine demo_server\<rparr> = demo_server" by simp
  have "RecordAdmin demo_server ''admin'' ''rule.set_enabled'' (patch_details ''sqli'' False ''10.0.0.2'') demo_state =
      (None, demo_state\<lparr>d_journal := d_journal demo_state @ [admin_payload ''admin'' ''rule.set_enabled'' (patch_details ''sqli'' False ''10.0.0.2'')]\<rparr>)"
    by (rule RecordAdmin_confirmed) (simp_all add: details_facts demo_server_def)
  then have "session demo_server demo_patch = Some ''admin''"
    "d_tables (snd (dash_Handler demo_server demo_patch demo_state)) \<noteq> d_tables demo_state"
    using demo_patch_changes [of "s_engine demo_server", unfolded same] by simp_all
  then show ?thesis using change_is_recorded [of demo_server demo_patch demo_state] by (metis option.inject prod.collapse)
qed

text \<open>C30: Without a session there is nothing to see. Every route of the interface that reads or changes
  the log, the rules or the access list, and the live feed, answers a request without a valid session with
  status 401, an error text and the security headers, and leaves the server as it was.\<close>

theorem no_session_no_access:
  assumes "route guarded_routes (qMethod r) (path_segments (qPath r)) = Inr g" "session srv r = None"
  shows "\<exists>err cs. dash_Handler srv r st = (securityHeaders (unauthorized err cs), st)
    \<and> err \<in> {''authentication required'', ''auth: invalid session'', ''auth: session expired''}"
proof -
  have texts: "auth_error_text e \<in> {''auth: invalid session'', ''auth: session expired''}"
    if "Verify (s_manager srv) (s_now srv) token = Inl e" for token e
    using that by (auto simp: Verify_def auth_error_text_def split: list.splits option.splits if_splits)
  note handler = Handler_guarded [OF guarded_behind_session [OF assms(1)], of srv st]
  show ?thesis
  proof (cases "qCookie r")
    case None
    then have "dash_Handler srv r st = (securityHeaders (unauthorized ''authentication required'' []), st)"
      unfolding handler Require_def by simp
    then show ?thesis by blast
  next
    case (Some token)
    then obtain e where e: "Verify (s_manager srv) (s_now srv) token = Inl e"
      using assms(2) by (auto simp: session_def split: sum.splits)
    have "dash_Handler srv r st = (securityHeaders (unauthorized (auth_error_text e) [ClearCookie (s_manager srv)]), st)"
      unfolding handler Require_def Some by (simp add: e)
    then show ?thesis using texts [OF e] by blast
  qed
qed

theorem no_session_no_access_witness:
  "rstatus (fst (dash_Handler demo_server (edge_request\<lparr>qPath := ''/api/v1/events''\<rparr>) demo_state)) = 401"
proof -
  let ?r = "edge_request\<lparr>qPath := ''/api/v1/events''\<rparr>"
  have "route guarded_routes (qMethod ?r) (path_segments (qPath ?r)) = Inr GEvents"
    by (simp add: edge_request_def path_segments_def guarded_routes_def route_def slash_redirect_def method_match_def)
  moreover have "session demo_server ?r = None" by (simp add: session_def edge_request_def)
  ultimately obtain err cs where "dash_Handler demo_server ?r demo_state = (securityHeaders (unauthorized err cs), demo_state)"
    using no_session_no_access by blast
  then show ?thesis by (simp add: unauthorized_def)
qed

text \<open>
  The entry is written before the change is tried, so a rule that does not exist is put on the record
  as switched although nothing was.
\<close>

lemma recorded_but_not_applied:
  assumes "decodeJSON patch_fields None r = Some (Some on)" "s_store_up srv"
    "\<And>body. s_engine srv body = Inr (201, [])" "qSegment r \<notin> rr_name ` set (rules_table (d_tables st))"
  shows "rstatus (fst (handlePatchRule srv actor r st)) = 404
    \<and> d_tables (snd (handlePatchRule srv actor r st)) = d_tables st
    \<and> length (d_journal (snd (handlePatchRule srv actor r st))) = length (d_journal st) + 1"
proof -
  have "rr_name x \<noteq> qSegment r" if "x \<in> set (rules_table (d_tables st))" for x using assms(4) that by force
  then have "find (\<lambda>x. rr_name x = qSegment r) (map (update_rule (qSegment r) on actor (s_now srv)) (rules_table (d_tables st))) = None"
    by (auto simp: find_None_iff)
  then show ?thesis
    using assms(1,2) unfolding handlePatchRule_def Let_def
    by (subst RecordAdmin_confirmed [OF details_facts(1) assms(3)] | simp add: store_SetEnabled_def dash_writeJSON_def)+
qed

text \<open>A report of the engine that is \<^verbatim>\<open>null\<close> ends the request without an answer.\<close>

lemma null_status_drops:
  "s_engine_status srv = Inr ''null'' \<Longrightarrow> dash_handleStatus srv = dropped_connection"
proof -
  have "decode_tree ''null'' = Some JNull"
    by (simp add: decode_tree_def tree_value_literal [of "''null''" JNull "[]"] tree_literal_def has_prefix_def is_ws_def dquote_def)
  then show "s_engine_status srv = Inr ''null'' \<Longrightarrow> dash_handleStatus srv = dropped_connection"
    by (simp add: dash_handleStatus_def EngineStatus_def set_any_map_def)
qed

subsection \<open>Types of bodies\<close>

text \<open>
  The types of the fields of a body, said without the setters: a body is well typed when it is one JSON value,
  \<^verbatim>\<open>null\<close> or an object, each of whose members names a field and is \<^verbatim>\<open>null\<close> or of the field's type.
\<close>

datatype field_type = StringField | BoolField | TimeField

fun of_type :: "field_type \<Rightarrow> jtree \<Rightarrow> bool" where
  "of_type ty JNull = True"
| "of_type StringField (JStr raw s) = True"
| "of_type TimeField (JStr raw s) = (parse_rfc3339 raw \<noteq> None)"
| "of_type BoolField (JBool b) = True"
| "of_type _ _ = False"

definition member_typed :: "(string \<times> field_type) list \<Rightarrow> string \<times> jtree \<Rightarrow> bool" where
  "member_typed tys kt = (case field_named tys (fst kt) of None \<Rightarrow> False | Some ty \<Rightarrow> of_type ty (snd kt))"

definition well_typed :: "(string \<times> field_type) list \<Rightarrow> bytes \<Rightarrow> bool" where
  "well_typed tys body =
     (case decode_tree (take 1048576 body) of
        None \<Rightarrow> False
      | Some t \<Rightarrow> (case t of JNull \<Rightarrow> True | JObj ms \<Rightarrow> list_all (member_typed tys) ms | _ \<Rightarrow> False))"

definition login_types :: "(string \<times> field_type) list" where
  "login_types = [(''user'', StringField), (''password'', StringField)]"

definition patch_types :: "(string \<times> field_type) list" where
  "patch_types = [(''enabled'', BoolField)]"

definition ip_types :: "(string \<times> field_type) list" where
  "ip_types = [(''cidr'', StringField), (''action'', StringField), (''note'', StringField), (''created_at'', TimeField),
     (''created_by'', StringField)]"

text \<open>Setters that succeed exactly on values of a type, field by field.\<close>

definition accepts :: "'r setter \<Rightarrow> field_type \<Rightarrow> bool" where
  "accepts st ty \<longleftrightarrow> (\<forall>t r. (st t r = None) = (\<not> of_type ty t))"

definition typed_fields :: "(string \<times> 'r setter) list \<Rightarrow> (string \<times> field_type) list \<Rightarrow> bool" where
  "typed_fields fs tys \<longleftrightarrow> list_all2 (\<lambda>f ty. fst f = fst ty \<and> accepts (snd f) (snd ty)) fs tys"

lemma setters_typed: "accepts (set_string upd) StringField" "accepts (set_bool_ptr updb) BoolField" "accepts (set_time updt) TimeField"
proof -
  have "(set_string upd t r = None) = (\<not> of_type StringField t)" "(set_bool_ptr updb t r' = None) = (\<not> of_type BoolField t)"
    "(set_time updt t r'' = None) = (\<not> of_type TimeField t)" for t r r' r''
    by (cases t; simp add: set_string_def set_bool_ptr_def set_time_def)+
  then show "accepts (set_string upd) StringField" "accepts (set_bool_ptr updb) BoolField" "accepts (set_time updt) TimeField"
    by (auto simp: accepts_def)
qed

lemma typed_field_named:
  assumes "typed_fields fs tys"
  shows "rel_option accepts (field_named fs k) (field_named tys k)"
proof -
  have "rel_option accepts (map_of fs k) (map_of tys k)
    \<and> rel_option accepts (map_option snd (find (\<lambda>f. fold_name (fst f) = fold_name k) fs))
        (map_option snd (find (\<lambda>f. fold_name (fst f) = fold_name k) tys))"
    using assms unfolding typed_fields_def by (induction rule: list_all2_induct) auto
  then show ?thesis unfolding field_named_def by (cases "map_of fs k"; cases "map_of tys k") simp_all
qed

lemma typed_members:
  assumes "typed_fields fs tys"
  shows "(set_members True fs ms r = None) = (\<not> list_all (member_typed tys) ms)"
proof (induction ms arbitrary: r)
  case (Cons kt ms)
  obtain k t where kt: "kt = (k, t)" by fastforce
  show ?case
  proof (cases "field_named fs k")
    case None
    then show ?thesis using typed_field_named [OF assms, of k] by (simp add: kt member_typed_def)
  next
    case (Some st)
    then obtain ty where ty: "field_named tys k = Some ty" "accepts st ty"
      using typed_field_named [OF assms, of k] by (cases "field_named tys k") auto
    then have "(st t r = None) = (\<not> member_typed tys kt)" by (simp add: kt member_typed_def accepts_def)
    then show ?thesis using Some Cons.IH by (cases "st t r") (simp_all add: kt)
  qed
qed simp

lemma decodeJSON_typed:
  assumes "typed_fields fs tys"
  shows "(decodeJSON fs zero r = None) = (\<not> well_typed tys (qBody r))"
  using typed_members [OF assms] by (simp add: decodeJSON_def well_typed_def set_struct_def split: option.splits jtree.splits)

lemma body_fields_typed: "typed_fields login_fields login_types" "typed_fields patch_fields patch_types" "typed_fields ip_fields ip_types"
  by (simp_all add: typed_fields_def login_fields_def login_types_def patch_fields_def patch_types_def ip_fields_def ip_types_def setters_typed)

text \<open>C35: Only a well-typed body acts. Signing in, switching a rule and adding an access-list entry read a body exactly
  when every member of it names a field of the request, in any case of letters, and has that field's type; any
  other body is answered 400, or 429 when the address may not sign in, and no table, record or notification
  changes.\<close>

theorem only_typed_bodies_act:
  "(decodeJSON login_fields no_login r \<noteq> None) = well_typed login_types (qBody r)
   \<and> (decodeJSON patch_fields None r \<noteq> None) = well_typed patch_types (qBody r)
   \<and> (decodeJSON ip_fields no_rule r \<noteq> None) = well_typed ip_types (qBody r)
   \<and> (well_typed patch_types (qBody r) \<or> rstatus (fst (handlePatchRule srv user r st)) = 400 \<and> snd (handlePatchRule srv user r st) = st)
   \<and> (well_typed ip_types (qBody r) \<or> rstatus (fst (handleAddIPRule srv user r st)) = 400 \<and> snd (handleAddIPRule srv user r st) = st)
   \<and> (well_typed login_types (qBody r) \<or> rstatus (fst (dash_handleLogin srv r st)) \<in> {400, 429}
        \<and> d_journal (snd (dash_handleLogin srv r st)) = d_journal st \<and> set_cookies (fst (dash_handleLogin srv r st)) = [])"
proof -
  note typed = body_fields_typed [THEN decodeJSON_typed, where r = r]
  have "decodeJSON patch_fields None r = None \<Longrightarrow>
      rstatus (fst (handlePatchRule srv user r st)) = 400 \<and> snd (handlePatchRule srv user r st) = st"
    by (simp add: handlePatchRule_def dash_writeJSON_def)
  moreover have "decodeJSON ip_fields no_rule r = None \<Longrightarrow>
      rstatus (fst (handleAddIPRule srv user r st)) = 400 \<and> snd (handleAddIPRule srv user r st) = st"
    by (simp add: handleAddIPRule_def dash_writeJSON_def)
  moreover have "decodeJSON login_fields no_login r = None \<Longrightarrow> rstatus (fst (dash_handleLogin srv r st)) \<in> {400, 429}
        \<and> d_journal (snd (dash_handleLogin srv r st)) = d_journal st \<and> set_cookies (fst (dash_handleLogin srv r st)) = []"
    by (simp add: dash_handleLogin_def dash_writeJSON_def Let_def split: prod.splits)
  ultimately show ?thesis using typed by metis
qed

end
