(* ===== verification/Dash_Record.thy ===== *)
theory Dash_Record
  imports Dash_Http "HOL-Library.Sublist"
begin

text \<open>
  The dashboard's requests one after the other: the entries the engine confirmed, repeated on the tables
  of the beginning, give the tables of the end.
\<close>

subsection \<open>The record as a whole\<close>

text \<open>What one request added to the record, and that it accounts for the tables.\<close>

definition told :: "DashServer \<Rightarrow> Dash \<Rightarrow> Dash \<Rightarrow> bool" where
  "told srv st st' \<longleftrightarrow> (\<exists>ps. length ps \<le> 1 \<and> d_journal st' = d_journal st @ ps
     \<and> d_tables st' = foldl (\<lambda>t p. replay_admin (s_sql srv) (s_now srv) p t) (d_tables st) ps)"

lemma told_same: "d_journal st' = d_journal st \<Longrightarrow> d_tables st' = d_tables st \<Longrightarrow> told srv st st'"
  unfolding told_def by (rule exI [where x = "[]"]) simp

lemma told_accounted:
  assumes "vouched srv r actor st st'" "s_store_up srv"
  shows "told srv st st'"
proof (cases "st' = st")
  case False
  then obtain p where "d_journal st' = d_journal st @ [p]" "d_tables st' = replay_admin (s_sql srv) (s_now srv) p (d_tables st)"
    using assms unfolding vouched_def by auto
  then show ?thesis unfolding told_def by (intro exI [where x = "[p]"]) simp
qed (simp add: told_same)

lemma told_session_entry:
  assumes "RecordAdmin srv actor action details st = (err, st')" "action = ''login'' \<or> action = ''logout''"
  shows "told srv st st'"
  using assms(1)
proof (cases rule: RecordAdmin_cases)
  case recorded
  have "replay_admin (s_sql srv) (s_now srv) (admin_payload actor action details) (d_tables st) = d_tables st"
    using assms(2) by (auto simp: replay_admin_def admin_payload_text)
  then show ?thesis
    using recorded unfolding told_def by (intro exI [where x = "[admin_payload actor action details]"]) simp
qed (simp add: told_same)

lemma told_cong:
  "d_journal st1 = d_journal st \<Longrightarrow> d_tables st1 = d_tables st \<Longrightarrow> told srv st1 st' \<Longrightarrow> told srv st st'"
  by (simp add: told_def)

lemma told_login: "told srv st (snd (dash_handleLogin srv r st))"
proof -
  have "told srv st (snd (RecordAdmin srv u ''login'' d (st\<lparr>d_logins := l\<rparr>)))" for u d l
    by (rule told_cong [OF _ _ told_session_entry [OF prod.collapse [symmetric]]]) simp_all
  then show ?thesis
    by (auto simp: dash_handleLogin_def Let_def case_prod_beta split: option.splits sum.splits intro: told_same)
qed

lemma told_logout: "told srv st (snd (dash_handleLogout srv r st))"
  using told_session_entry [OF prod.collapse [symmetric]]
  by (auto simp: dash_handleLogout_def Let_def split: option.splits sum.splits intro: told_same)

lemma Handler_told:
  assumes "s_store_up srv"
  shows "told srv st (snd (dash_Handler srv r st))"
proof (cases "route outer_routes (qMethod r) (path_segments (qPath r)) = Inr RGuarded")
  case True
  show ?thesis
  proof (cases "Require (s_manager srv) (s_now srv) (qCookie r) (guarded srv r st)")
    case (Inl resp)
    then show ?thesis by (simp add: Handler_guarded [OF True] told_same)
  next
    case (Inr out)
    then obtain user where user: "out = guarded srv r st user" using Require_session [OF Inr] by blast
    obtain resp st' where g: "guarded srv r st user = (resp, st')" by fastforce
    then show ?thesis
      using Inr user told_accounted [OF guarded_accounted [OF g] assms] by (simp add: Handler_guarded [OF True])
  qed
next
  case False
  then show ?thesis
    using told_login [of srv st r] told_logout [of srv st r] told_same [of st st srv]
    by (auto simp: dash_Handler_def case_prod_beta Let_def split: sum.splits outer_route.splits)
qed

fun dash_serve :: "(DashServer \<times> HttpRequest) list \<Rightarrow> Dash \<Rightarrow> Dash" where
  "dash_serve [] st = st"
| "dash_serve ((srv, r) # reqs) st = dash_serve reqs (snd (dash_Handler srv r st))"

text \<open>C29: The record accounts for the configuration. After any number of requests, whatever they were and
  whoever sent them, with the engine answering as it likes and the store at hand, the tables are those of the
  beginning with the recorded entries repeated on them, one after the other in the order of the record,
  each at the time of a request; the record only grew, by at most one entry a request.\<close>

theorem record_accounts_for_tables:
  assumes "\<forall>(srv, r) \<in> set reqs. s_store_up srv \<and> s_sql srv = sql"
  shows "\<exists>told. d_journal (dash_serve reqs st) = d_journal st @ map snd told
    \<and> subseq (map fst told) (map (\<lambda>(srv, r). s_now srv) reqs)
    \<and> d_tables (dash_serve reqs st) = foldl (\<lambda>t (now, p). replay_admin sql now p t) (d_tables st) told"
  using assms
proof (induction reqs arbitrary: st)
  case (Cons req reqs)
  obtain srv r where req: "req = (srv, r)" by fastforce
  let ?st = "snd (dash_Handler srv r st)"
  obtain ps where ps: "length ps \<le> 1" "d_journal ?st = d_journal st @ ps"
    "d_tables ?st = foldl (\<lambda>t p. replay_admin (s_sql srv) (s_now srv) p t) (d_tables st) ps"
    using Handler_told [of srv st r] Cons.prems req unfolding told_def by auto
  obtain es where es: "d_journal (dash_serve reqs ?st) = d_journal ?st @ map snd es"
    "subseq (map fst es) (map (\<lambda>(srv, r). s_now srv) reqs)"
    "d_tables (dash_serve reqs ?st) = foldl (\<lambda>t (now, p). replay_admin sql now p t) (d_tables ?st) es"
    using Cons.IH [of ?st] Cons.prems by auto
  let ?es = "map (Pair (s_now srv)) ps @ es"
  have "subseq (map fst ?es) (map (\<lambda>(srv, r). s_now srv) (req # reqs))"
    using ps(1) es(2) req by (cases ps) auto
  moreover have "d_tables ?st = foldl (\<lambda>t (now, p). replay_admin sql now p t) (d_tables st) (map (Pair (s_now srv)) ps)"
    using ps(3) Cons.prems req by (simp add: foldl_map)
  moreover have "map snd ?es = ps @ map snd es" by (simp add: comp_def)
  ultimately show ?case using es(1,3) ps(2) req by (intro exI [where x = ?es]) simp
qed simp

theorem record_accounts_for_tables_witness:
  "\<exists>told. d_journal (dash_serve [(demo_server, demo_patch)] demo_state) = map snd told
    \<and> d_tables (dash_serve [(demo_server, demo_patch)] demo_state)
      = foldl (\<lambda>t (now, p). replay_admin plain_sql now p t) (d_tables demo_state) told"
  using record_accounts_for_tables [of "[(demo_server, demo_patch)]" plain_sql demo_state]
  by (auto simp: demo_server_def demo_state_def)

end
