(* ===== verification/Ws_Hub.thy ===== *)
theory Ws_Hub
  imports Wire "HOL-Library.Sublist"
begin

text \<open>
  \<^verbatim>\<open>dashboard/api/internal/ws/hub.go\<close>: the live feed. A client is a pointer that the hub's map, the
  handler of its connection and the goroutine reading from it share, so clients live in a store and are
  named by their address in it. The goroutines are interleaved: one step is what one of them does between
  two waits, and the hub's lock makes each operation on the map one step. Closing a channel that is closed
  already panics, and so ends the whole process; such a step has no result.
\<close>

subsection \<open>The hub\<close>

record Client =
  ch_events :: "AuditEntry list"
  ch_done :: bool

record Hub =
  store :: "Client list"
  clients :: "nat list"

definition clientBuffer :: nat where "clientBuffer = 128"

definition NewHub :: Hub where "NewHub = \<lparr>store = [], clients = []\<rparr>"

text \<open>A send that never waits.\<close>

definition offer :: "AuditEntry \<Rightarrow> Client \<Rightarrow> Client" where
  "offer e c = (if length (ch_events c) < clientBuffer then c\<lparr>ch_events := ch_events c @ [e]\<rparr> else c)"

definition broadcast :: "AuditEntry \<Rightarrow> Hub \<Rightarrow> Hub" where
  "broadcast e h = h\<lparr>store := foldl (\<lambda>s c. s[c := offer e (s ! c)]) (store h) (clients h)\<rparr>"

definition Clients :: "Hub \<Rightarrow> nat" where
  "Clients h = length (clients h)"

definition hub_add :: "nat \<Rightarrow> Hub \<Rightarrow> Hub" where
  "hub_add c h = h\<lparr>clients := List.insert c (clients h)\<rparr>"

definition close_done :: "nat \<Rightarrow> Hub \<Rightarrow> Hub option" where
  "close_done c h = (if ch_done (store h ! c) then None
     else Some (h\<lparr>store := (store h)[c := (store h ! c)\<lparr>ch_done := True\<rparr>]\<rparr>))"

definition hub_delete :: "nat \<Rightarrow> Hub \<Rightarrow> Hub" where
  "hub_delete c h = h\<lparr>clients := remove1 c (clients h)\<rparr>"

definition hub_remove :: "nat \<Rightarrow> Hub \<Rightarrow> Hub option" where
  "hub_remove c h = (if c \<in> set (clients h) then close_done c (hub_delete c h) else Some h)"

fun close_each :: "nat list \<Rightarrow> Hub \<Rightarrow> Hub option" where
  "close_each [] h = Some h"
| "close_each (c # cs) h = (case close_done c (hub_delete c h) of None \<Rightarrow> None | Some h \<Rightarrow> close_each cs h)"

definition closeAll :: "Hub \<Rightarrow> Hub option" where
  "closeAll h = close_each (clients h) h"

subsection \<open>Connections\<close>

text \<open>
  One connection: whether the handler's loop and the reader are still at work, and the frames written to
  the browser. The connection of a client has the client's address.
\<close>

record Conn =
  serving :: bool
  reading :: bool
  frames :: "goval list"

text \<open>\<open>running\<close> tells whether \<^verbatim>\<open>Run\<close> has not returned.\<close>

record World =
  hub :: Hub
  running :: bool
  conns :: "Conn list"

definition new_world :: World where
  "new_world = \<lparr>hub = NewHub, running = True, conns = []\<rparr>"

text \<open>\<^verbatim>\<open>writeEntry\<close>, given whether the connection takes the frame: the connection after it, or the error.\<close>

definition writeEntry :: "bool \<Rightarrow> AuditEntry \<Rightarrow> Conn \<Rightarrow> Conn option" where
  "writeEntry ok e k = (if isl (marshal_struct (entry_members e)) then None
     else if \<not> ok then None else Some (k\<lparr>frames := frames k @ [entry_value e]\<rparr>))"

definition with_hub :: "Hub option \<Rightarrow> World \<Rightarrow> World option" where
  "with_hub h w = map_option (\<lambda>h. w\<lparr>hub := h\<rparr>) h"

text \<open>The deferred calls of the handler.\<close>

definition handler_return :: "nat \<Rightarrow> World \<Rightarrow> World option" where
  "handler_return c w = with_hub (hub_remove c (hub w)) (w\<lparr>conns := (conns w)[c := (conns w ! c)\<lparr>serving := False\<rparr>]\<rparr>)"

definition handler_connect :: "World \<Rightarrow> World" where
  "handler_connect w =
     (let c = length (store (hub w)) in
      w\<lparr>hub := hub_add c (hub w\<lparr>store := store (hub w) @ [\<lparr>ch_events = [], ch_done = False\<rparr>]\<rparr>),
        conns := conns w @ [\<lparr>serving = True, reading = True, frames = []\<rparr>]\<rparr>)"

definition handler_event :: "nat \<Rightarrow> bool \<Rightarrow> World \<Rightarrow> World option" where
  "handler_event c ok w =
     (case ch_events (store (hub w) ! c) of
        [] \<Rightarrow> Some w
      | e # es \<Rightarrow>
         (let w = w\<lparr>hub := hub w\<lparr>store := (store (hub w))[c := (store (hub w) ! c)\<lparr>ch_events := es\<rparr>]\<rparr>\<rparr> in
          case writeEntry ok e (conns w ! c) of None \<Rightarrow> handler_return c w
          | Some k \<Rightarrow> Some (w\<lparr>conns := (conns w)[c := k]\<rparr>)))"

text \<open>\<^verbatim>\<open>Run\<close>: it copies an entry to the clients, and returns when its context or the stream ends.\<close>

definition Run_entry :: "AuditEntry \<Rightarrow> World \<Rightarrow> World" where
  "Run_entry e w = (if running w then w\<lparr>hub := broadcast e (hub w)\<rparr> else w)"

definition Run_end :: "World \<Rightarrow> World option" where
  "Run_end w = (if running w then with_hub (closeAll (hub w)) (w\<lparr>running := False\<rparr>) else Some w)"

text \<open>
  What can happen next. A failed upgrade changes nothing. \<open>HandlerEvent\<close> says whether the write succeeds;
  \<open>HandlerGone\<close> is the end of the request's context or a ping without answer.
\<close>

datatype hub_event =
    StreamEntry AuditEntry
  | StreamEnd
  | Upgrade bool
  | ReadFails nat
  | HandlerEvent nat bool
  | HandlerDone nat
  | HandlerGone nat

fun hub_step :: "hub_event \<Rightarrow> World \<Rightarrow> World option" where
  "hub_step (StreamEntry e) w = Some (Run_entry e w)"
| "hub_step StreamEnd w = Run_end w"
| "hub_step (Upgrade ok) w = Some (if ok then handler_connect w else w)"
| "hub_step (ReadFails c) w =
     (if c < length (conns w) \<and> reading (conns w ! c)
      then with_hub (hub_remove c (hub w)) (w\<lparr>conns := (conns w)[c := (conns w ! c)\<lparr>reading := False\<rparr>]\<rparr>) else Some w)"
| "hub_step (HandlerEvent c ok) w =
     (if c < length (conns w) \<and> serving (conns w ! c) then handler_event c ok w else Some w)"
| "hub_step (HandlerDone c) w =
     (if c < length (conns w) \<and> serving (conns w ! c) \<and> ch_done (store (hub w) ! c) then handler_return c w else Some w)"
| "hub_step (HandlerGone c) w =
     (if c < length (conns w) \<and> serving (conns w ! c) then handler_return c w else Some w)"

fun hub_run :: "hub_event list \<Rightarrow> World \<Rightarrow> World option" where
  "hub_run [] w = Some w"
| "hub_run (ev # evs) w = (case hub_step ev w of None \<Rightarrow> None | Some w \<Rightarrow> hub_run evs w)"

text \<open>The states the process can be in.\<close>

inductive hub_reachable :: "World \<Rightarrow> bool" where
  start: "hub_reachable new_world"
| step: "hub_reachable w \<Longrightarrow> hub_step ev w = Some w' \<Longrightarrow> hub_reachable w'"

subsection \<open>The invariant\<close>

declare Run_entry_def [simp] Run_end_def [simp]

text \<open>A client is in the map exactly while its channel is open, and a handler that returned has left.\<close>

definition hub_inv :: "World \<Rightarrow> bool" where
  "hub_inv w \<longleftrightarrow> length (conns w) = length (store (hub w)) \<and> distinct (clients (hub w))
     \<and> set (clients (hub w)) = {c. c < length (store (hub w)) \<and> \<not> ch_done (store (hub w) ! c)}
     \<and> (\<forall>c < length (store (hub w)). length (ch_events (store (hub w) ! c)) \<le> clientBuffer)
     \<and> (\<forall>c \<in> set (clients (hub w)). serving (conns w ! c))"

lemma offer_facts: "ch_done (offer e c) = ch_done c"
  "length (ch_events c) \<le> clientBuffer \<Longrightarrow> length (ch_events (offer e c)) \<le> clientBuffer"
  by (auto simp: offer_def)

lemma offer_all:
  "distinct cs \<Longrightarrow> \<forall>c \<in> set cs. c < length s \<Longrightarrow>
     foldl (\<lambda>s c. s[c := offer e (s ! c)]) s cs = map (\<lambda>i. if i \<in> set cs then offer e (s ! i) else s ! i) [0..<length s]"
proof (induction cs arbitrary: s)
  case Nil
  then show ?case by (simp add: map_nth)
next
  case (Cons c cs)
  then show ?case by (auto intro!: nth_equalityI simp: nth_list_update)
qed

lemma broadcast_store:
  assumes "distinct (clients h)" "\<forall>c \<in> set (clients h). c < length (store h)"
  shows "clients (broadcast e h) = clients h" "length (store (broadcast e h)) = length (store h)"
    "c < length (store h) \<Longrightarrow> store (broadcast e h) ! c = (if c \<in> set (clients h) then offer e (store h ! c) else store h ! c)"
  using offer_all [OF assms] by (simp_all add: broadcast_def)

lemma hub_inv_range: "hub_inv w \<Longrightarrow> \<forall>c \<in> set (clients (hub w)). c < length (store (hub w))"
  by (auto simp: hub_inv_def)

lemma hub_invD:
  assumes "hub_inv w"
  shows "length (conns w) = length (store (hub w))" "distinct (clients (hub w))"
    "c \<in> set (clients (hub w)) \<longleftrightarrow> c < length (store (hub w)) \<and> \<not> ch_done (store (hub w) ! c)"
    "c < length (store (hub w)) \<Longrightarrow> length (ch_events (store (hub w) ! c)) \<le> clientBuffer"
    "c \<in> set (clients (hub w)) \<Longrightarrow> serving (conns w ! c)"
  using assms by (auto simp: hub_inv_def)

lemma inv_broadcast:
  assumes "hub_inv w"
  shows "hub_inv (w\<lparr>hub := broadcast e (hub w)\<rparr>)"
proof -
  note b = broadcast_store [OF hub_invD(2) [OF assms] hub_inv_range [OF assms], where e = e]
  show ?thesis
    using hub_invD [OF assms] unfolding hub_inv_def by (auto simp: b offer_facts)
qed

text \<open>Taking a client out of the map, with the connection's own state changed or not.\<close>

lemma inv_remove:
  assumes "hub_inv w" "length ks = length (conns w)" "\<And>d. d \<noteq> c \<Longrightarrow> serving (ks ! d) = serving (conns w ! d)"
  shows "\<exists>h. hub_remove c (hub w) = Some h \<and> hub_inv (w\<lparr>conns := ks, hub := h\<rparr>)
    \<and> set (clients h) = set (clients (hub w)) - {c} \<and> map ch_events (store h) = map ch_events (store (hub w))"
proof (cases "c \<in> set (clients (hub w))")
  case True
  let ?h = "\<lparr>store = (store (hub w))[c := (store (hub w) ! c)\<lparr>ch_done := True\<rparr>], clients = remove1 c (clients (hub w))\<rparr>"
  have c: "c < length (store (hub w))" "\<not> ch_done (store (hub w) ! c)" using True hub_invD(3) [OF assms(1)] by blast+
  have set: "set (remove1 c (clients (hub w))) = set (clients (hub w)) - {c}" using hub_invD(2) [OF assms(1)] by simp
  have upd: "(store (hub w))[c := x] ! d = (if d = c then x else store (hub w) ! d)" for x d using c(1) by simp
  have "hub_remove c (hub w) = Some ?h"
    using True c by (simp add: hub_remove_def close_done_def hub_delete_def)
  moreover have "hub_inv (w\<lparr>conns := ks, hub := ?h\<rparr>)"
    using hub_invD [OF assms(1)] assms(2,3) unfolding hub_inv_def
    by (auto simp: set upd split: if_splits)
  moreover have "map ch_events (store ?h) = map ch_events (store (hub w))"
    using c by (simp add: map_update list_update_same_conv)
  ultimately show ?thesis using set by auto
next
  case False
  then have "hub_remove c (hub w) = Some (hub w)" by (simp add: hub_remove_def)
  moreover have "serving (ks ! d)" if "d \<in> set (clients (hub w))" for d
    using that False assms(3) [of d] hub_invD(5) [OF assms(1), of d] by auto
  then have "hub_inv (w\<lparr>conns := ks\<rparr>)" using assms(1,2) by (simp add: hub_inv_def)
  ultimately show ?thesis using False by simp
qed

lemma inv_handler_return:
  assumes "hub_inv w"
  shows "\<exists>w'. handler_return c w = Some w' \<and> hub_inv w' \<and> set (clients (hub w')) = set (clients (hub w)) - {c}
    \<and> map ch_events (store (hub w')) = map ch_events (store (hub w)) \<and> map frames (conns w') = map frames (conns w)
    \<and> running w' = running w"
proof -
  let ?ks = "(conns w)[c := (conns w ! c)\<lparr>serving := False\<rparr>]"
  obtain h where "hub_remove c (hub w) = Some h" "hub_inv (w\<lparr>conns := ?ks, hub := h\<rparr>)"
    "set (clients h) = set (clients (hub w)) - {c}" "map ch_events (store h) = map ch_events (store (hub w))"
    using inv_remove [OF assms, of ?ks c] by auto
  moreover have "map frames ?ks = map frames (conns w)"
    by (cases "c < length (conns w)") (simp_all add: map_update list_update_same_conv list_update_beyond)
  ultimately show ?thesis by (simp add: handler_return_def with_hub_def)
qed

lemma inv_close_each:
  assumes "hub_inv w" "set cs = set (clients (hub w))" "distinct cs"
  shows "\<exists>h. close_each cs (hub w) = Some h \<and> hub_inv (w\<lparr>hub := h\<rparr>) \<and> clients h = []
    \<and> map ch_events (store h) = map ch_events (store (hub w))"
  using assms
proof (induction cs arbitrary: w)
  case (Cons c cs)
  obtain h where h: "hub_remove c (hub w) = Some h" "hub_inv (w\<lparr>conns := conns w, hub := h\<rparr>)"
    "set (clients h) = set (clients (hub w)) - {c}" "map ch_events (store h) = map ch_events (store (hub w))"
    using inv_remove [OF Cons.prems(1), of "conns w" c] by auto
  have "close_done c (hub_delete c (hub w)) = Some h" using h(1) Cons.prems(2) by (auto simp: hub_remove_def split: if_splits)
  moreover have "hub_inv (w\<lparr>hub := h\<rparr>)" "set cs = set (clients h)" "distinct cs"
    using h(2,3) Cons.prems(2,3) by auto
  ultimately show ?case using Cons.IH [of "w\<lparr>hub := h\<rparr>"] h(4) by auto
qed simp

lemma inv_connect:
  assumes "hub_inv w"
  shows "hub_inv (handler_connect w)"
proof -
  let ?n = "length (store (hub w))"
  have "?n \<notin> set (clients (hub w))" using hub_invD(3) [OF assms] by blast
  then show ?thesis
    using hub_invD [OF assms] unfolding hub_inv_def handler_connect_def
    by (auto simp: Let_def hub_add_def nth_append less_Suc_eq)
qed

lemma inv_take:
  assumes "hub_inv w" "ch_events (store (hub w) ! c) = e # es" "c < length (store (hub w))"
  shows "hub_inv (w\<lparr>hub := hub w\<lparr>store := (store (hub w))[c := (store (hub w) ! c)\<lparr>ch_events := es\<rparr>]\<rparr>\<rparr>)"
proof -
  have upd: "(store (hub w))[c := x] ! d = (if d = c then x else store (hub w) ! d)" for x d using assms(3) by simp
  have "length es < clientBuffer" using hub_invD(4) [OF assms(1,3)] assms(2) by simp
  then show ?thesis using assms(1) by (auto simp: hub_inv_def upd)
qed


subsection \<open>What a browser is sent\<close>

text \<open>What was written to the connection or waits in its buffer, and what one step adds to it.\<close>

definition fed :: "nat \<Rightarrow> World \<Rightarrow> goval list" where
  "fed c w = frames (conns w ! c) @ map entry_value (ch_events (store (hub w) ! c))"

fun arrived :: "nat \<Rightarrow> hub_event \<Rightarrow> World \<Rightarrow> goval list" where
  "arrived c (StreamEntry e) w =
     (if running w \<and> c \<in> set (clients (hub w)) \<and> length (ch_events (store (hub w) ! c)) < clientBuffer
      then [entry_value e] else [])"
| "arrived c _ w = []"

lemma map_eq_nth: "map f xs = map f ys \<Longrightarrow> c < length ys \<Longrightarrow> f (xs ! c) = f (ys ! c)"
  by (metis length_map nth_map)

lemma fed_unchanged:
  assumes "map ch_events (store (hub w')) = map ch_events (store (hub w))" "map frames (conns w') = map frames (conns w)"
    "c < length (conns w)" "c < length (store (hub w))"
  shows "fed c w' = fed c w"
  using map_eq_nth [OF assms(1,4)] map_eq_nth [OF assms(2,3)] by (simp add: fed_def)

text \<open>One step: it never panics, keeps the invariant, and feeds a client at the end of what it has.\<close>

definition good_step :: "hub_event \<Rightarrow> World \<Rightarrow> World \<Rightarrow> bool" where
  "good_step ev w w' \<longleftrightarrow> hub_step ev w = Some w' \<and> hub_inv w' \<and> length (conns w) \<le> length (conns w')
     \<and> (\<forall>c < length (conns w). subseq (fed c w') (fed c w @ arrived c ev w)
          \<and> length (ch_events (store (hub w') ! c)) \<le> length (ch_events (store (hub w) ! c)) + length (arrived c ev w)
          \<and> (c \<in> set (clients (hub w')) \<longrightarrow> c \<in> set (clients (hub w)) \<and> fed c w' = fed c w @ arrived c ev w))
     \<and> (running w' \<longrightarrow> running w)"

lemma good_stepI:
  assumes "hub_step ev w = Some w'" "hub_inv w'" "length (conns w') = length (conns w)"
    "map ch_events (store (hub w')) = map ch_events (store (hub w))" "map frames (conns w') = map frames (conns w)"
    "set (clients (hub w')) \<subseteq> set (clients (hub w))" "running w' \<longrightarrow> running w" "hub_inv w" "\<And>c. arrived c ev w = []"
  shows "good_step ev w w'"
  using assms(1-3,6,7,9) fed_unchanged [OF assms(4,5)] map_eq_nth [OF assms(4)] hub_invD(1) [OF assms(8)]
  unfolding good_step_def by auto

lemma good_same: "hub_inv w \<Longrightarrow> hub_step ev w = Some w \<Longrightarrow> (\<And>c. arrived c ev w = []) \<Longrightarrow> good_step ev w w"
  by (rule good_stepI) simp_all

lemma good_return:
  assumes "hub_inv w" "hub_step ev w = handler_return c w" "\<And>c. arrived c ev w = []"
  shows "\<exists>w'. good_step ev w w'"
proof -
  obtain w' where w': "handler_return c w = Some w'" "hub_inv w'" "set (clients (hub w')) = set (clients (hub w)) - {c}"
    "map ch_events (store (hub w')) = map ch_events (store (hub w))" "map frames (conns w') = map frames (conns w)"
    "running w' = running w" using inv_handler_return [OF assms(1)] by blast
  have "good_step ev w w'"
    using w' assms map_eq_imp_length_eq [OF w'(5)] by (intro good_stepI) auto
  then show ?thesis by blast
qed

lemma good_stream:
  assumes "hub_inv w"
  shows "\<exists>w'. good_step (StreamEntry e) w w'"
proof (cases "running w")
  case True
  note b = broadcast_store [OF hub_invD(2) [OF assms] hub_inv_range [OF assms], where e = e]
  have "good_step (StreamEntry e) w (w\<lparr>hub := broadcast e (hub w)\<rparr>)"
    using True inv_broadcast [OF assms, of e] hub_invD(1) [OF assms]
    unfolding good_step_def by (simp add: fed_def b offer_def)
  then show ?thesis by blast
next
  case False
  then have "good_step (StreamEntry e) w w" using assms by (intro good_same) auto
  then show ?thesis by blast
qed

lemma good_end:
  assumes "hub_inv w"
  shows "\<exists>w'. good_step StreamEnd w w' \<and> (running w \<longrightarrow> clients (hub w') = [])"
proof (cases "running w")
  case True
  obtain h where h: "closeAll (hub w) = Some h" "hub_inv (w\<lparr>hub := h\<rparr>)" "clients h = []"
    "map ch_events (store h) = map ch_events (store (hub w))"
    using inv_close_each [OF assms refl hub_invD(2) [OF assms]] unfolding closeAll_def by blast
  have "good_step StreamEnd w (w\<lparr>running := False, hub := h\<rparr>)"
    using True h assms by (intro good_stepI) (auto simp: with_hub_def hub_inv_def)
  then show ?thesis using h(3) by (intro exI conjI) auto
next
  case False
  then have "good_step StreamEnd w w" using assms by (intro good_same) auto
  then show ?thesis using False by blast
qed

lemma good_connect:
  assumes "hub_inv w"
  shows "\<exists>w'. good_step (Upgrade ok) w w'"
proof (cases ok)
  case True
  have "good_step (Upgrade ok) w (handler_connect w)"
    using True inv_connect [OF assms] hub_invD(1) [OF assms] unfolding good_step_def
    by (auto simp: fed_def handler_connect_def Let_def nth_append hub_add_def)
  then show ?thesis by blast
next
  case False
  then have "good_step (Upgrade ok) w w" using assms by (intro good_same) auto
  then show ?thesis by blast
qed


lemma good_read:
  assumes "hub_inv w"
  shows "\<exists>w'. good_step (ReadFails c) w w'"
proof (cases "c < length (conns w) \<and> reading (conns w ! c)")
  case True
  let ?ks = "(conns w)[c := (conns w ! c)\<lparr>reading := False\<rparr>]"
  obtain h where h: "hub_remove c (hub w) = Some h" "hub_inv (w\<lparr>conns := ?ks, hub := h\<rparr>)"
    "set (clients h) = set (clients (hub w)) - {c}" "map ch_events (store h) = map ch_events (store (hub w))"
    using inv_remove [OF assms, of ?ks c] by auto
  have "good_step (ReadFails c) w (w\<lparr>conns := ?ks, hub := h\<rparr>)"
    using True h assms by (intro good_stepI) (auto simp: with_hub_def map_update list_update_same_conv)
  then show ?thesis by blast
next
  case False
  then have "good_step (ReadFails c) w w" using assms by (intro good_same) auto
  then show ?thesis by blast
qed

lemma good_event:
  assumes "hub_inv w"
  shows "\<exists>w'. good_step (HandlerEvent c ok) w w'"
proof (cases "c < length (conns w) \<and> serving (conns w ! c) \<and> ch_events (store (hub w) ! c) \<noteq> []")
  case True
  then obtain e es where q: "ch_events (store (hub w) ! c) = e # es" by (cases "ch_events (store (hub w) ! c)") auto
  have c: "c < length (store (hub w))" using True hub_invD(1) [OF assms] by simp
  define v where "v = w\<lparr>hub := hub w\<lparr>store := (store (hub w))[c := (store (hub w) ! c)\<lparr>ch_events := es\<rparr>]\<rparr>\<rparr>"
  have v: "hub_inv v" unfolding v_def by (rule inv_take [OF assms q c])
  have vs: "clients (hub v) = clients (hub w)" "conns v = conns w" "running v = running w"
    "length (store (hub v)) = length (store (hub w))"
    "\<And>d. ch_events (store (hub v) ! d) = (if d = c then es else ch_events (store (hub w) ! d))"
    using c by (simp_all add: v_def nth_list_update)
  have run: "hub_step (HandlerEvent c ok) w =
      (case writeEntry ok e (conns w ! c) of None \<Rightarrow> handler_return c v | Some k \<Rightarrow> Some (v\<lparr>conns := (conns v)[c := k]\<rparr>))"
    using True q by (simp add: handler_event_def v_def Let_def split: option.split)
  show ?thesis
  proof (cases "writeEntry ok e (conns w ! c)")
    case None
    obtain w' where w': "handler_return c v = Some w'" "hub_inv w'" "set (clients (hub w')) = set (clients (hub w)) - {c}"
      "map ch_events (store (hub w')) = map ch_events (store (hub v))" "map frames (conns w') = map frames (conns w)"
      "running w' = running w" using inv_handler_return [OF v, of c] vs by auto
    have "fed d w' = frames (conns w ! d) @ map entry_value (if d = c then es else ch_events (store (hub w) ! d))"
      if "d < length (conns w)" for d
      using fed_unchanged [of w' v d] w'(4,5) vs that hub_invD(1) [OF assms] by (simp add: fed_def)
    then have "good_step (HandlerEvent c ok) w w'"
      unfolding good_step_def using run None w' map_eq_imp_length_eq [OF w'(5)] q
        map_eq_nth [OF w'(4)] vs(4,5) hub_invD(1) [OF assms]
      by (auto simp: fed_def intro: list_emb_append_mono)
    then show ?thesis by blast
  next
    case (Some k)
    then have k: "k = (conns w ! c)\<lparr>frames := frames (conns w ! c) @ [entry_value e]\<rparr>"
      by (auto simp: writeEntry_def split: if_splits)
    have nth: "(conns w)[c := k] ! d = (if d = c then k else conns w ! d)" for d using True by simp
    have "hub_inv (v\<lparr>conns := (conns v)[c := k]\<rparr>)" using v by (auto simp: hub_inv_def vs nth [unfolded k] k)
    then have "good_step (HandlerEvent c ok) w (v\<lparr>conns := (conns v)[c := k]\<rparr>)"
      unfolding good_step_def using run Some by (auto simp: fed_def vs nth [unfolded k] k q)
    then show ?thesis by blast
  qed
next
  case False
  then have "good_step (HandlerEvent c ok) w w" using assms by (intro good_same) (auto simp: handler_event_def)
  then show ?thesis by blast
qed

lemma hub_step_good:
  assumes "hub_inv w"
  shows "\<exists>w'. good_step ev w w'"
proof (cases ev)
  case (HandlerDone c)
  show ?thesis
  proof (cases "hub_step ev w = Some w")
    case True
    then show ?thesis using good_same [OF assms True] HandlerDone by auto
  next
    case False
    then show ?thesis using HandlerDone assms by (intro good_return) (auto split: if_splits)
  qed
next
  case (HandlerGone c)
  show ?thesis
  proof (cases "hub_step ev w = Some w")
    case True
    then show ?thesis using good_same [OF assms True] HandlerGone by auto
  next
    case False
    then show ?thesis using HandlerGone assms by (intro good_return) (auto split: if_splits)
  qed
qed (use assms good_stream good_end good_connect good_read good_event in blast)+


subsection \<open>Runs\<close>

definition streamed :: "hub_event list \<Rightarrow> goval list" where
  "streamed evs = concat (map (\<lambda>ev. case ev of StreamEntry e \<Rightarrow> [entry_value e] | _ \<Rightarrow> []) evs)"

lemma streamed_simps [simp]: "streamed [] = []"
  "streamed (ev # evs) = (case ev of StreamEntry e \<Rightarrow> [entry_value e] | _ \<Rightarrow> []) @ streamed evs"
  by (simp_all add: streamed_def)

lemma arrived_streamed: "subseq (arrived c ev w) (streamed [ev])"
  by (cases ev) auto

lemma hub_run_inv: "hub_inv w \<Longrightarrow> \<exists>w'. hub_run evs w = Some w' \<and> hub_inv w'"
proof (induction evs arbitrary: w)
  case (Cons ev evs)
  obtain v where "good_step ev w v" using hub_step_good [OF Cons.prems] by blast
  then show ?case using Cons.IH [of v] by (simp add: good_step_def)
qed simp

lemma hub_run_fed:
  assumes "hub_inv w" "hub_run evs w = Some w'" "c < length (conns w)"
  shows "subseq (fed c w') (fed c w @ streamed evs)"
  using assms
proof (induction evs arbitrary: w)
  case (Cons ev evs)
  obtain v where v: "good_step ev w v" using hub_step_good [OF Cons.prems(1)] by blast
  then have step: "subseq (fed c v) (fed c w @ streamed [ev])"
    using Cons.prems(3) arrived_streamed [of c ev w] unfolding good_step_def
    by (meson list_emb_append_mono subseq_order.order_refl subseq_order.order_trans)
  have "subseq (fed c w') (fed c v @ streamed evs)"
    using Cons.IH [of v] Cons.prems v by (simp add: good_step_def)
  also have "subseq (fed c v @ streamed evs) ((fed c w @ streamed [ev]) @ streamed evs)"
    using step by (intro list_emb_append_mono) auto
  finally show ?case by simp
qed simp

lemma hub_run_complete:
  assumes "hub_inv w" "hub_run evs w = Some w'" "c < length (conns w)" "c \<in> set (clients (hub w'))" "running w'"
    "length (ch_events (store (hub w) ! c)) + length (streamed evs) \<le> clientBuffer"
  shows "c \<in> set (clients (hub w)) \<and> running w \<and> fed c w' = fed c w @ streamed evs"
  using assms
proof (induction evs arbitrary: w)
  case (Cons ev evs)
  obtain v where v: "good_step ev w v" using hub_step_good [OF Cons.prems(1)] by blast
  have run: "hub_run evs v = Some w'" "hub_inv v" "c < length (conns v)" using Cons.prems v by (auto simp: good_step_def)
  have room: "length (ch_events (store (hub v) ! c)) + length (streamed evs) \<le> clientBuffer"
    using v Cons.prems(3,6) list_emb_length [OF arrived_streamed [of c ev w]] unfolding good_step_def by fastforce
  note ih = Cons.IH [OF run(2,1,3) Cons.prems(4,5) room]
  then have w: "c \<in> set (clients (hub w))" "running w" "fed c v = fed c w @ arrived c ev w"
    using v Cons.prems(3) by (auto simp: good_step_def)
  moreover have "arrived c ev w = streamed [ev]"
    using w(1,2) Cons.prems(6) by (cases ev) auto
  ultimately show ?case using ih by simp
qed simp


lemma new_world_inv: "hub_inv new_world"
  by (simp add: hub_inv_def new_world_def NewHub_def)

lemma hub_reachable_inv: "hub_reachable w \<Longrightarrow> hub_inv w"
proof (induction rule: hub_reachable.induct)
  case (step w ev w')
  then show ?case using hub_step_good [of w ev] by (auto simp: good_step_def)
qed (rule new_world_inv)

subsection \<open>Properties\<close>

text \<open>C38: The live feed never takes the dashboard down. In every state the goroutines can reach, whatever
  the order in which browsers connect, vanish, fall behind or the stream ends, no next step panics: a
  client's channel is closed at most once although the handler, the reader and the end of the stream all
  close it. No client holds more than 128 events, the reported number of clients is the number of open
  channels, and the end of the stream releases every handler.\<close>

theorem hub_never_panics:
  assumes "hub_reachable w"
  shows "\<exists>w'. hub_step ev w = Some w' \<and> hub_reachable w'
    \<and> (\<forall>k \<in> set (store (hub w')). length (ch_events k) \<le> 128)
    \<and> Clients (hub w') = length (filter (\<lambda>k. \<not> ch_done k) (store (hub w')))
    \<and> (ev = StreamEnd \<and> running w \<longrightarrow> Clients (hub w') = 0)"
proof -
  have inv: "hub_inv w" using assms by (rule hub_reachable_inv)
  obtain w' where w': "good_step ev w w'" "ev = StreamEnd \<and> running w \<longrightarrow> clients (hub w') = []"
    using hub_step_good [OF inv, of ev] good_end [OF inv] by metis
  then have inv': "hub_inv w'" by (simp add: good_step_def)
  have "Clients (hub w') = card {c. c < length (store (hub w')) \<and> \<not> ch_done (store (hub w') ! c)}"
    using inv' distinct_card [of "clients (hub w')"] by (simp add: hub_inv_def Clients_def)
  also have "\<dots> = length (filter (\<lambda>k. \<not> ch_done k) (store (hub w')))" by (simp add: length_filter_conv_card)
  finally have count: "Clients (hub w') = length (filter (\<lambda>k. \<not> ch_done k) (store (hub w')))" .
  have "length (ch_events k) \<le> 128" if "k \<in> set (store (hub w'))" for k
    using that hub_invD(4) [OF inv'] by (auto simp: in_set_conv_nth clientBuffer_def)
  moreover have "hub_step ev w = Some w'" "hub_reachable w'"
    using w'(1) assms by (auto simp: good_step_def intro: hub_reachable.step)
  ultimately show ?thesis using count w'(2) by (auto simp: Clients_def)
qed

theorem hub_never_panics_witness:
  "\<exists>w. hub_step StreamEnd (handler_connect new_world) = Some w \<and> Clients (hub w) = 0"
proof -
  have "hub_reachable (handler_connect new_world)"
    by (rule hub_reachable.step [OF hub_reachable.start, of "Upgrade True"]) simp
  moreover have "running (handler_connect new_world)" by (simp add: handler_connect_def new_world_def Let_def)
  ultimately show ?thesis using hub_never_panics [of "handler_connect new_world" StreamEnd] by blast
qed

lemma live_feed_selects:
  assumes "hub_reachable w" "hub_run evs (handler_connect w) = Some w'" "c = length (conns w)"
  shows "subseq (fed c w') (streamed evs)"
proof -
  have inv: "hub_inv w" using assms(1) by (rule hub_reachable_inv)
  have "fed c (handler_connect w) = []" "c < length (conns (handler_connect w))"
    using hub_invD(1) [OF inv] assms(3) by (simp_all add: fed_def handler_connect_def Let_def hub_add_def nth_append)
  then show ?thesis using hub_run_fed [OF inv_connect [OF inv] assms(2), of c] by simp
qed


definition sample_event :: AuditEntry where
  "sample_event = \<lparr>ID = ''e1'', RequestID = ''r1'', Timestamp = 0, Kind = KindTraffic, Payload = None, PrevHash = [], Hash = []\<rparr>"


end
