(* ===== verification/Dash_Main.thy ===== *)
theory Dash_Main
  imports Dash_Record Config Events Ws_Hub Audit_Postgres
begin

text \<open>
  \<^verbatim>\<open>dashboard/api/cmd/api/main.go\<close>: how the dashboard is put together, from the outcomes of the calls
  that starting up makes to the running server or the first error, and the tool that prints a password hash.
\<close>

subsection \<open>Starting\<close>

datatype dash_start_error =
    DashEnvironment "config_error list"
  | SessionsRefused new_error
  | DashStoreFailed string
  | DashRedisFailed string

text \<open>
  What starting up consults. \<open>services\<close> is what a request meets outside the program, with the engine and
  its report as functions of the address they are asked at.
\<close>

record dash_outside =
  dash_environ :: environ
  bcrypt_cost_ok :: "string \<Rightarrow> bool"
  dash_pool :: PoolOutcomes
  ping_error :: "string option"
  services :: DashServer
  engine_at :: "string \<Rightarrow> bytes \<Rightarrow> string + (int \<times> string)"
  status_at :: "string \<Rightarrow> string + bytes"
  dash_version :: string
  dash_tables :: RuleTables

text \<open>\<^verbatim>\<open>httpapi.New\<close>: the server, and the state it starts in.\<close>

definition dash_New :: "DashServer \<Rightarrow> Manager \<Rightarrow> Publisher \<Rightarrow> Prefix list \<Rightarrow> string \<Rightarrow> RuleTables \<Rightarrow> DashServer \<times> Dash" where
  "dash_New srv sessions pub proxies ver t =
     (srv\<lparr>s_manager := sessions, s_publisher := pub, s_trusted := proxies, s_version := ver\<rparr>,
      \<lparr>d_tables = t, d_logins = newLoginLimiter 10 (900 * second), d_journal = [], d_notes = []\<rparr>)"

definition NewAuditClient :: "dash_outside \<Rightarrow> string \<Rightarrow> DashServer \<Rightarrow> DashServer" where
  "NewAuditClient out baseURL srv = srv\<lparr>s_engine := engine_at out baseURL, s_engine_status := status_at out baseURL\<rparr>"

definition engine_url :: "environ \<Rightarrow> string" where
  "engine_url env = (let u = getenv env ''OS_ENGINE_URL'' in if u = [] then ''http://engine:8080'' else u)"

definition dash_start :: "dash_outside \<Rightarrow> dash_start_error + ((DashServer \<times> Dash) \<times> World)" where
  "dash_start out =
     (case LoadDashboard (dash_environ out) of (cfg, errs) \<Rightarrow>
        if errs \<noteq> [] then Inl (DashEnvironment errs)
        else case auth_New (bcrypt_cost_ok out) (dcAdminUser cfg) (dcAdminPasswordHash cfg) (dcSessionSecret cfg)
                    (dcSessionTTL cfg) (dcSecureCookies cfg) of
          Inl e \<Rightarrow> Inl (SessionsRefused e)
        | Inr sessions \<Rightarrow>
           (case NewPostgres (dash_pool out) (dcPostgresDSN cfg) of Inl e \<Rightarrow> Inl (DashStoreFailed e)
            | Inr pool \<Rightarrow>
               (case NewClient (dcRedisAddr cfg) (ping_error out) of Inl e \<Rightarrow> Inl (DashRedisFailed e)
                | Inr _ \<Rightarrow>
                    Inr (dash_New (NewAuditClient out (engine_url (dash_environ out)) (services out)) sessions
                           (NewPublisher (dcEventsChannel cfg))
                           (dcTrustedProxies cfg) (dash_version out) (dash_tables out), new_world))))"

subsection \<open>The password tool\<close>

text \<open>The lines printed for a hash; \<open>generate\<close> stands for bcrypt, which can refuse a password.\<close>

definition escape_dollar :: "string \<Rightarrow> string" where
  "escape_dollar = replace_all (CHR ''$'') ''$$''"

definition printPasswordHash :: "(string \<Rightarrow> string + string) \<Rightarrow> string \<Rightarrow> string + string list" where
  "printPasswordHash generate password =
     (case generate password of Inl err \<Rightarrow> Inl err
      | Inr hash \<Rightarrow>
          Inr [[], ''Copia esta l'' @ [CHR 0xC3, CHR 0xAD] @ ''nea en deploy/.env tal cual:'', [],
                ''OS_ADMIN_PASSWORD_HASH='' @ escape_dollar hash, [],
                ''Los '' @ [CHR 0x27] @ ''$$'' @ [CHR 0x27] @ '' son intencionales: Docker Compose los convierte en un solo ''
                  @ [CHR 0x27] @ ''$'' @ [CHR 0x27] @ ''.'',
                ''El hash real es: '' @ hash])"

subsection \<open>The life of the process\<close>

text \<open>
  How the server ended: its listener failed before a signal came, or a signal came and the shutdown within
  fifteen seconds returned what it returned. A listener that was closed by the shutdown is no failure.
\<close>

datatype dash_end = ListenerFailed string | Signalled "string option"

datatype dash_run_error = DashStart dash_start_error | Listening string | ShuttingDown string

definition dash_wait :: "dash_end \<Rightarrow> dash_run_error option" where
  "dash_wait ev = (case ev of ListenerFailed err \<Rightarrow> Some (Listening err)
     | Signalled None \<Rightarrow> None
     | Signalled (Some err) \<Rightarrow> Some (ShuttingDown (''http shutdown: '' @ err)))"

datatype resource = SignalContext | StorePool | RedisClient

text \<open>What \<^verbatim>\<open>run\<close> holds when it returns, in the order in which its deferred calls release it.\<close>

fun held_at :: "dash_start_error \<Rightarrow> resource list" where
  "held_at (DashEnvironment errs) = []"
| "held_at (SessionsRefused e) = [SignalContext]"
| "held_at (DashStoreFailed e) = [SignalContext]"
| "held_at (DashRedisFailed e) = [StorePool, SignalContext]"

definition dash_run :: "dash_outside \<Rightarrow> dash_end \<Rightarrow> dash_run_error option \<times> resource list" where
  "dash_run out ev =
     (case dash_start out of Inl e \<Rightarrow> (Some (DashStart e), held_at e)
      | Inr _ \<Rightarrow> (dash_wait ev, [RedisClient, StorePool, SignalContext]))"

text \<open>The program: what it prints and logs, and its exit status.\<close>

datatype printed = OutLine string | ErrLine string | LogError string dash_run_error

definition dash_main :: "(string \<Rightarrow> string + string) \<Rightarrow> string \<Rightarrow> dash_outside \<Rightarrow> dash_end \<Rightarrow> printed list \<times> int" where
  "dash_main generate hashPassword out ev =
     (if hashPassword \<noteq> [] then
        (case printPasswordHash generate hashPassword of
           Inl err \<Rightarrow> ([ErrLine (''could not hash the password: '' @ err)], 1)
         | Inr ls \<Rightarrow> (map OutLine ls, 0))
      else (case fst (dash_run out ev) of
              Some err \<Rightarrow> ([LogError ''dashboard api failed to start'' err], 1)
            | None \<Rightarrow> ([], 0)))"

text \<open>A log level that cannot be read is \<^verbatim>\<open>info\<close>.\<close>

definition dash_newLogger :: "string \<Rightarrow> int" where
  "dash_newLogger level = (case parse_level level of None \<Rightarrow> 0 | Some l \<Rightarrow> l)"

text \<open>What Compose makes of a value: two dollars are one.\<close>

fun compose_value :: "string \<Rightarrow> string" where
  "compose_value (c # d # s) = (if c = CHR ''$'' \<and> d = CHR ''$'' then CHR ''$'' # compose_value s else c # compose_value (d # s))"
| "compose_value s = s"

lemma compose_escape: "compose_value (escape_dollar hash) = hash"
proof (induction hash)
  case (Cons c s)
  have step: "escape_dollar (c # s) = (if c = CHR ''$'' then ''$$'' else [c]) @ escape_dollar s"
    by (simp add: escape_dollar_def replace_all_def)
  show ?case
  proof (cases "c = CHR ''$''")
    case True
    then show ?thesis using step Cons.IH by simp
  next
    case False
    then show ?thesis using step Cons.IH by (cases "escape_dollar s") simp_all
  qed
qed (simp add: escape_dollar_def replace_all_def)

lemma held_at_facts: "RedisClient \<notin> set (held_at e)" "distinct (held_at e)"
  by (cases e, simp_all)+

text \<open>Whatever way it ends, the process gives back what it took, the store after the client of Redis.\<close>

lemma dash_run_releases:
  "StorePool \<in> set (snd (dash_run out ev)) \<longleftrightarrow> (case dash_start out of Inl (DashRedisFailed e) \<Rightarrow> True | Inr _ \<Rightarrow> True | _ \<Rightarrow> False)"
  "RedisClient \<in> set (snd (dash_run out ev)) \<longleftrightarrow> (\<exists>s. dash_start out = Inr s)"
  "distinct (snd (dash_run out ev))"
  by (auto simp: dash_run_def held_at_facts split: sum.splits dash_start_error.splits)

text \<open>The status is zero exactly when the hash was printed or the shutdown was clean.\<close>

lemma dash_main_status:
  "snd (dash_main generate pw out ev) = 0 \<longleftrightarrow>
     (if pw \<noteq> [] then \<exists>hash. generate pw = Inr hash else (\<exists>s. dash_start out = Inr s) \<and> ev = Signalled None)"
  by (auto simp: dash_main_def printPasswordHash_def dash_run_def dash_wait_def split: sum.splits dash_end.splits option.splits)

lemma printed_hash_survives_compose:
  assumes "printPasswordHash generate pw = Inr ls"
  shows "\<exists>hash. generate pw = Inr hash \<and> ls ! 3 = ''OS_ADMIN_PASSWORD_HASH='' @ escape_dollar hash \<and> compose_value (escape_dollar hash) = hash"
  using assms compose_escape by (auto simp: printPasswordHash_def split: sum.splits)

subsection \<open>Properties\<close>

text \<open>A dashboard that starts is a safe one. It starts only when the whole environment could be read, the
  secret has at least 32 bytes, the password hash is one and the services answer; then the sessions, the cookie
  flag and the trusted networks are those of the environment, sessions end, no sign-in failure, record entry
  or notification is there yet, the tables are untouched and the live feed is in its first state. And the
  line printed for the environment file survives Compose's reading of it as the hash itself.\<close>

lemma dash_startup_sound:
  assumes "dash_start out = Inr ((srv, st), w)"
  shows "\<exists>cfg. LoadDashboard (dash_environ out) = (cfg, [])
    \<and> NewPostgres (dash_pool out) (dcPostgresDSN cfg) = Inr \<lparr>pool_open = True\<rparr> \<and> ping_error out = None
    \<and> muser (s_manager srv) = dcAdminUser cfg \<and> dcAdminUser cfg \<noteq> []
    \<and> passwordHash (s_manager srv) = dcAdminPasswordHash cfg \<and> bcrypt_cost_ok out (dcAdminPasswordHash cfg)
    \<and> secret (s_manager srv) = dcSessionSecret cfg \<and> 32 \<le> length (dcSessionSecret cfg)
    \<and> 0 < ttl (s_manager srv) \<and> secure (s_manager srv) = dcSecureCookies cfg
    \<and> s_trusted srv = dcTrustedProxies cfg \<and> pchannel (s_publisher srv) = dcEventsChannel cfg
    \<and> st = \<lparr>d_tables = dash_tables out, d_logins = newLoginLimiter 10 (900 * second), d_journal = [], d_notes = []\<rparr>
    \<and> limiter_ok (d_logins st) \<and> hub_reachable w
    \<and> compose_value (escape_dollar (passwordHash (s_manager srv))) = passwordHash (s_manager srv)"
proof -
  obtain cfg m where cfg: "LoadDashboard (dash_environ out) = (cfg, [])"
    and m: "auth_New (bcrypt_cost_ok out) (dcAdminUser cfg) (dcAdminPasswordHash cfg) (dcSessionSecret cfg)
        (dcSessionTTL cfg) (dcSecureCookies cfg) = Inr m"
    and up: "NewPostgres (dash_pool out) (dcPostgresDSN cfg) = Inr \<lparr>pool_open = True\<rparr>" "ping_error out = None"
    and start: "(srv, st) = dash_New (NewAuditClient out (engine_url (dash_environ out)) (services out)) m
        (NewPublisher (dcEventsChannel cfg)) (dcTrustedProxies cfg) (dash_version out) (dash_tables out)" "w = new_world"
    using assms unfolding dash_start_def
    by (auto simp: NewClient_def NewPostgres_def split: prod.splits if_splits sum.splits option.splits)
  have "muser m = dcAdminUser cfg" "dcAdminUser cfg \<noteq> []" "passwordHash m = dcAdminPasswordHash cfg"
    "bcrypt_cost_ok out (dcAdminPasswordHash cfg)" "secret m = dcSessionSecret cfg" "32 \<le> length (dcSessionSecret cfg)"
    "0 < ttl m" "secure m = dcSecureCookies cfg"
    using m by (auto simp: auth_New_def second_def split: if_splits)
  moreover have "limiter_ok (newLoginLimiter 10 (900 * second))" by (simp add: limiter_ok_def newLoginLimiter_def keys_def)
  ultimately show ?thesis
    using cfg up start hub_reachable.start compose_escape by (intro exI [where x = cfg]) (auto simp: dash_New_def NewPublisher_def)
qed

end
