(* ===== verification/Demo_Backend.thy ===== *)
theory Demo_Backend
  imports Go_Http Config Decode_Facts
begin

text \<open>
  \<^verbatim>\<open>examples/demo-backend/main.go\<close>: the application that stands behind the proxy in the demonstration
  stack. It shows the request it got, so every part of its page but the frame is text a client has chosen.
  The page is read back here the way a browser reads it, into tags and the text behind each of them.
\<close>

subsection \<open>Library functions\<close>

text \<open>\<^verbatim>\<open>textproto.CanonicalMIMEHeaderKey\<close>: a name with a byte that no token has is left alone.\<close>

definition token_char :: "char \<Rightarrow> bool" where
  "token_char c \<longleftrightarrow> is_digit c \<or> 65 \<le> code c \<and> code c \<le> 90 \<or> 97 \<le> code c \<and> code c \<le> 122
     \<or> c \<in> set (''!#$%&*+-.^_|~'' @ [CHR 0x27, CHR 0x60])"

fun canonical_bytes :: "bool \<Rightarrow> string \<Rightarrow> string" where
  "canonical_bytes up [] = []"
| "canonical_bytes up (c # s) =
     (if up \<and> 97 \<le> code c \<and> code c \<le> 122 then byte (code c - 32)
      else if \<not> up \<and> 65 \<le> code c \<and> code c \<le> 90 then byte (code c + 32) else c)
     # canonical_bytes (c = CHR ''-'') s"

definition canonical_key :: "string \<Rightarrow> string" where
  "canonical_key s = (if list_all token_char s then canonical_bytes True s else s)"

text \<open>\<^verbatim>\<open>http.Header.Get\<close>.\<close>

definition header_get :: "string list gomap \<Rightarrow> string \<Rightarrow> string" where
  "header_get h name = (case map_of h (canonical_key name) of Some (v # _) \<Rightarrow> v | _ \<Rightarrow> [])"

text \<open>\<^verbatim>\<open>html.EscapeString\<close>.\<close>

definition entities :: "(char \<times> string) list" where
  "entities = [(CHR ''&'', ''amp;''), (CHR 0x27, ''#39;''), (CHR ''<'', ''lt;''), (CHR ''>'', ''gt;''), (CHR 0x22, ''#34;'')]"

definition escape_char :: "char \<Rightarrow> string" where
  "escape_char c = (case map_of entities c of None \<Rightarrow> [c] | Some e \<Rightarrow> CHR ''&'' # e)"

definition EscapeString :: "string \<Rightarrow> string" where
  "EscapeString s = concat (map escape_char s)"

text \<open>
  \<^verbatim>\<open>fmt.Fprintf\<close> for formats with no verb but \<^verbatim>\<open>%s\<close> and \<^verbatim>\<open>%%\<close> and arguments that are
  strings, with what it prints for arguments that are missing or left over.
\<close>

datatype piece = Plain char | Verb

fun format_pieces :: "string \<Rightarrow> piece list" where
  "format_pieces [] = []"
| "format_pieces [c] = [Plain c]"
| "format_pieces (c # d # s) =
     (if c = CHR ''%'' \<and> d = CHR ''s'' then Verb # format_pieces s
      else if c = CHR ''%'' \<and> d = CHR ''%'' then Plain (CHR ''%'') # format_pieces s
      else Plain c # format_pieces (d # s))"

fun render_pieces :: "piece list \<Rightarrow> string list \<Rightarrow> string" where
  "render_pieces [] [] = []"
| "render_pieces [] args = ''%!(EXTRA '' @ join '', '' (map ((@) ''string='') args) @ '')''"
| "render_pieces (Plain c # ps) args = c # render_pieces ps args"
| "render_pieces (Verb # ps) [] = ''%!s(MISSING)'' @ render_pieces ps []"
| "render_pieces (Verb # ps) (a # args) = a @ render_pieces ps args"

definition sprintf :: "string \<Rightarrow> string list \<Rightarrow> string" where
  "sprintf fmt args = render_pieces (format_pieces fmt) args"

subsection \<open>The handlers\<close>

record DemoRequest =
  dmMethod :: string
  dmPath :: string
  dmRawQuery :: string
  dmHeader :: "string list gomap"

text \<open>An answer is its content type and its bytes; its status is 200.\<close>

type_synonym demo_answer = "string \<times> bytes"

definition demo_health :: demo_answer where
  "demo_health = (''application/json'',
     ''{'' @ [CHR 0x22] @ ''status'' @ [CHR 0x22] @ '':'' @ [CHR 0x22] @ ''ok'' @ [CHR 0x22] @ '','' @ [CHR 0x22] @ ''component'' @ [CHR 0x22]
       @ '':'' @ [CHR 0x22] @ ''demo-backend'' @ [CHR 0x22] @ ''}'')"

definition echo_members :: "DemoRequest \<Rightarrow> goval gomap" where
  "echo_members r =
     [(''method'', GString (dmMethod r)), (''path'', GString (dmPath r)), (''query'', GString (dmRawQuery r)),
      (''request_id'', GString (header_get (dmHeader r) ''X-Request-ID'')),
      (''client_ip'', GString (header_get (dmHeader r) ''X-Real-IP''))]"

text \<open>The encoder ends its output with a newline; on an error it writes nothing.\<close>

definition echoJSON :: "DemoRequest \<Rightarrow> demo_answer" where
  "echoJSON r = (''application/json; charset=utf-8'',
     case marshal (GMap (echo_members r)) of Inl _ \<Rightarrow> [] | Inr b \<Rightarrow> b @ [CHR 0x0A])"

definition unlines :: "string list \<Rightarrow> string" where
  "unlines ls = concat (map (\<lambda>l. l @ [CHR 0x0A]) ls)"

definition demo_head :: "string list" where
  "demo_head =
     [''<!doctype html>'',
      ''<html lang='' @ [CHR 0x22] @ ''es'' @ [CHR 0x22] @ ''><head><meta charset='' @ [CHR 0x22] @ ''utf-8'' @ [CHR 0x22] @ ''>'',
      ''<title>Aplicaci'' @ [CHR 0xC3, CHR 0xB3] @ ''n protegida '' @ [CHR 0xE2, CHR 0x80, CHR 0x94] @ '' open-shield</title>'',
      ''<style>'']"

definition demo_style :: "string list" where
  "demo_style =
     ['' body{font-family:system-ui,sans-serif;margin:3rem auto;max-width:48rem;'',
      ''      padding:0 1.5rem;line-height:1.6;color:#1c1f24;background:#f7f8fa}'',
      '' .ok{background:#e6f4ea;border-left:4px solid #1e8e3e;padding:.75rem 1rem;'',
      ''     border-radius:.25rem;margin:1.5rem 0}'',
      '' table{border-collapse:collapse;width:100%%;margin-top:1rem;background:#fff;'',
      ''       border-radius:.4rem;overflow:hidden;font-size:.9rem}'',
      '' th,td{padding:.5rem .75rem;text-align:left;border-bottom:1px solid #e8eaee;'',
      ''       vertical-align:top}'',
      '' th{width:14rem;font-weight:600;color:#4a5058}'',
      '' code{background:#e8eaee;padding:.15rem .35rem;border-radius:.25rem}'']"

definition demo_intro :: "string list" where
  "demo_intro =
     [''</style></head><body>'',
      [],
      ''<h1>Aplicaci'' @ [CHR 0xC3, CHR 0xB3] @ ''n protegida</h1>'',
      [],
      ''<div class='' @ [CHR 0x22] @ ''ok'' @ [CHR 0x22] @ ''>'',
      ''  Esta petici'' @ [CHR 0xC3, CHR 0xB3] @ ''n atraves'' @ [CHR 0xC3, CHR 0xB3] @ '' el proxy y el motor de reglas la permiti'' @ [CHR 0xC3, CHR 0xB3] @ ''.'',
      ''</div>'',
      [],
      ''<p>Identificador de correlaci'' @ [CHR 0xC3, CHR 0xB3] @ ''n '' @ [CHR 0xE2, CHR 0x80, CHR 0x94] @ '' el mismo que aparece en el log de auditor'' @ [CHR 0xC3, CHR 0xAD] @ ''a:</p>'']"

definition demo_table :: "string list" where
  "demo_table =
     [''<p><code>%s</code></p>'',
      [],
      ''<table>'',
      '' <tr><th>M'' @ [CHR 0xC3, CHR 0xA9] @ ''todo</th><td>%s</td></tr>'',
      '' <tr><th>Ruta</th><td>%s</td></tr>'',
      '' <tr><th>Query</th><td>%s</td></tr>'',
      '' <tr><th>IP de origen (X-Real-IP)</th><td>%s</td></tr>'',
      '' %s'']"

definition demo_end :: "string list" where
  "demo_end =
     [''</table>'',
      [],
      ''<p style='' @ [CHR 0x22] @ ''margin-top:2rem;font-size:.9rem;color:#4a5058'' @ [CHR 0x22] @ ''>'',
      '' Prueba a pedir <code>/?id=1'' @ [CHR 0x27] @ '' OR '' @ [CHR 0x27] @ ''1'' @ [CHR 0x27] @ ''='' @ [CHR 0x27] @ ''1</code> '' @ [CHR 0xE2, CHR 0x80, CHR 0x94] @ '' el motor deber'' @ [CHR 0xC3, CHR 0xAD] @ ''a bloquearla'',
      '' antes de que llegue hasta aqu'' @ [CHR 0xC3, CHR 0xAD] @ ''.'',
      ''</p>'',
      ''</body></html>'']"

definition demoPage :: string where
  "demoPage = unlines (demo_head @ demo_style @ demo_intro @ demo_table @ demo_end)"

definition shown_request_id :: "DemoRequest \<Rightarrow> string" where
  "shown_request_id r =
     (let requestID = header_get (dmHeader r) ''X-Request-ID''
      in if requestID = [] then ''(none '' @ [CHR 0xE2, CHR 0x80, CHR 0x94] @ '' this request did not come through the proxy)''
         else requestID)"

definition header_row :: "DemoRequest \<Rightarrow> string \<Rightarrow> string" where
  "header_row r name = sprintf ''<tr><th>%s</th><td>%s</td></tr>''
     [EscapeString name, EscapeString (header_get (dmHeader r) name)]"

definition page_body :: "DemoRequest \<Rightarrow> bytes" where
  "page_body r =
     (let names = sort (keys (dmHeader r));
          headers = concat (map (header_row r) names)
      in sprintf demoPage
           [EscapeString (shown_request_id r), EscapeString (dmMethod r), EscapeString (dmPath r),
            EscapeString (dmRawQuery r), EscapeString (header_get (dmHeader r) ''X-Real-IP''), headers])"

definition page :: "DemoRequest \<Rightarrow> demo_answer" where
  "page r = (''text/html; charset=utf-8'', page_body r)"

subsection \<open>The program\<close>

datatype demo_route = DemoHealth | DemoEcho | DemoPage

definition demo_routes :: "(string \<times> segment list \<times> demo_route) list" where
  "demo_routes = [(''GET'', [Lit ''healthz''], DemoHealth), ([], [Lit ''api'', Lit ''echo''], DemoEcho), ([], [Rest], DemoPage)]"

definition demo_Handler :: "DemoRequest \<Rightarrow> int + demo_answer" where
  "demo_Handler r =
     (case route demo_routes (dmMethod r) (path_segments (dmPath r)) of
        Inl st \<Rightarrow> Inl st
      | Inr DemoHealth \<Rightarrow> Inr demo_health
      | Inr DemoEcho \<Rightarrow> Inr (echoJSON r)
      | Inr DemoPage \<Rightarrow> Inr (page r))"

definition demo_addr :: "environ \<Rightarrow> string" where
  "demo_addr env = (let addr = getenv env ''DEMO_ADDR'' in if addr = [] then '':3000'' else addr)"

text \<open>
  The program: what it logs and its exit status, or no status while it serves. \<open>listen\<close> is the outcome of
  serving at an address, which is never without an error once it ends.
\<close>

definition demo_main :: "(string \<Rightarrow> string option) \<Rightarrow> environ \<Rightarrow> string list \<times> int option" where
  "demo_main listen env =
     (let addr = demo_addr env; started = ''demo backend listening on '' @ addr
      in case listen addr of None \<Rightarrow> ([started], None) | Some err \<Rightarrow> ([started, err], Some 1))"

text \<open>Every path has a handler.\<close>

lemma demo_always_answers:
  assumes "CHR ''/'' \<in> set (dmPath r)"
  shows "\<exists>a. demo_Handler r = Inr a"
proof -
  have "path_segments p \<noteq> []" if "CHR ''/'' \<in> set p" for p
  proof -
    have "1 < length (split_on (CHR ''/'') p)" using that by (induction p) (auto split: list.splits)
    then show ?thesis by (cases "split_on (CHR ''/'') p") (auto simp: path_segments_def)
  qed
  then show ?thesis using assms
    by (auto simp: demo_Handler_def route_def demo_routes_def slash_redirect_def method_match_def split: demo_route.splits option.splits)
qed

subsection \<open>Reading a page\<close>

text \<open>
  A page is read into its tags, each with the text behind it. The frame has no comment and no \<^verbatim>\<open>>\<close>
  inside an attribute, so a tag ends at the first one.
\<close>

datatype reader = InText string string | InTag string

fun read_char :: "(string \<times> string) list \<times> reader \<Rightarrow> char \<Rightarrow> (string \<times> string) list \<times> reader" where
  "read_char (toks, InText t tx) c =
     (if c = CHR ''<'' then (toks @ [(t, tx)], InTag []) else (toks, InText t (tx @ [c])))"
| "read_char (toks, InTag t) c = (if c = CHR ''>'' then (toks, InText t []) else (toks, InTag (t @ [c])))"

definition scan :: "(string \<times> string) list \<times> reader \<Rightarrow> string \<Rightarrow> (string \<times> string) list \<times> reader" where
  "scan st s = foldl read_char st s"

fun finish :: "(string \<times> string) list \<times> reader \<Rightarrow> (string \<times> string) list" where
  "finish (toks, InText t tx) = toks @ [(t, tx)]"
| "finish (toks, InTag t) = toks"

definition read_html :: "string \<Rightarrow> (string \<times> string) list" where
  "read_html s = finish (scan ([], InText [] []) s)"

text \<open>The text a reader sees: the references that escaping writes stand for their characters.\<close>

function html_unescape :: "string \<Rightarrow> string" where
  "html_unescape [] = []"
| "html_unescape (c # s) =
     (if c = CHR ''&'' then
        (case find (\<lambda>(d, e). has_prefix s e) entities of
           Some (d, e) \<Rightarrow> d # html_unescape (drop (length e) s)
         | None \<Rightarrow> c # html_unescape s)
      else c # html_unescape s)"
  by pat_completeness auto
termination by (relation "measure length") auto

definition tags :: "string \<Rightarrow> string list" where
  "tags s = map fst (read_html s)"

definition cells :: "string \<Rightarrow> string \<Rightarrow> string list" where
  "cells tag s = map (html_unescape \<circ> snd) (filter (\<lambda>(t, tx). t = tag) (read_html s))"

lemma unescape_escape [simp]: "html_unescape (EscapeString s) = s"
proof (induction s)
  case (Cons c s)
  have "html_unescape (escape_char c @ r) = c # html_unescape r" for r
    by (auto simp: escape_char_def entities_def has_prefix_def split: option.splits)
  then show ?case using Cons.IH by (simp add: EscapeString_def)
qed (simp add: EscapeString_def)

lemma escaped_no_tag: "CHR ''<'' \<notin> set (EscapeString s)"
  by (auto simp: EscapeString_def escape_char_def entities_def split: if_splits)

lemma scan_append [simp]: "scan st (x @ y) = scan (scan st x) y"
  by (simp add: scan_def)

lemma scan_simps [simp]: "scan st [] = st" "scan st (c # s) = scan (read_char st c) s"
  by (simp_all add: scan_def)

lemma scan_tokens: "scan (toks, m) s = (toks @ fst (scan ([], m) s), snd (scan ([], m) s))"
proof (induction s arbitrary: toks m)
  case (Cons c s)
  obtain ts m' where first: "read_char ([], m) c = (ts, m')" by fastforce
  then have "read_char (toks, m) c = (toks @ ts, m')" by (cases m) (auto split: if_splits)
  then show ?case using first Cons.IH [of "toks @ ts" m'] Cons.IH [of ts m'] by simp
qed simp

lemma scan_text: "CHR ''<'' \<notin> set x \<Longrightarrow> scan (toks, InText t tx) x = (toks, InText t (tx @ x))"
  by (induction x arbitrary: tx) auto

lemma scan_escaped [simp]: "scan (toks, InText t tx) (EscapeString s) = (toks, InText t (tx @ EscapeString s))"
  by (rule scan_text) (rule escaped_no_tag)

subsection \<open>The frame\<close>

lemma unlines_simps: "unlines [] = []" "unlines (l # ls) = (l @ [CHR 0x0A]) @ unlines ls"
  "unlines (ls @ ls') = unlines ls @ unlines ls'"
  by (simp_all add: unlines_def)

lemma pieces_append: "x = [] \<or> last x \<noteq> CHR ''%'' \<Longrightarrow> format_pieces (x @ y) = format_pieces x @ format_pieces y"
proof (induction x rule: format_pieces.induct)
  case (2 c)
  then show ?case by (cases y) auto
next
  case (3 c d s)
  then show ?case by (cases s) auto
qed simp

lemma pieces_unlines: "format_pieces (unlines ls @ y) = concat (map (\<lambda>l. format_pieces (l @ [CHR 0x0A])) ls) @ format_pieces y"
proof (induction ls)
  case (Cons l ls)
  show ?case using pieces_append [of "l @ [CHR 0x0A]" "unlines ls @ y"] Cons.IH by (simp add: unlines_simps)
qed (simp add: unlines_simps)

lemma pieces_plain: "CHR ''%'' \<notin> set l \<Longrightarrow> format_pieces l = map Plain l"
  by (induction l rule: format_pieces.induct) auto

lemma render_append: "Verb \<notin> set ps \<Longrightarrow> render_pieces (ps @ qs) args = render_pieces ps [] @ render_pieces qs args"
  by (induction ps "[] :: string list" rule: render_pieces.induct) auto

lemma render_plain [simp]: "render_pieces (map Plain l @ ps) args = l @ render_pieces ps args" "render_pieces (map Plain l) [] = l"
  by (induction l) simp_all

lemma render_line:
  "CHR ''%'' \<notin> set l \<Longrightarrow> render_pieces (format_pieces (l @ [CHR 0x0A]) @ ps) args = l @ CHR 0x0A # render_pieces ps args"
  using render_plain(1) [of "l @ [CHR 0x0A]" ps args] by (simp add: pieces_plain)

lemma render_verb:
  assumes "CHR ''%'' \<notin> set a" "CHR ''%'' \<notin> set b"
  shows "render_pieces (format_pieces ((a @ CHR ''%'' # CHR ''s'' # b) @ [CHR 0x0A]) @ ps) (x # args) = a @ x @ b @ CHR 0x0A # render_pieces ps args"
proof -
  have "format_pieces ((a @ CHR ''%'' # CHR ''s'' # b) @ [CHR 0x0A]) = map Plain a @ Verb # map Plain (b @ [CHR 0x0A])"
    using assms pieces_append [of a "CHR ''%'' # CHR ''s'' # b @ [CHR 0x0A]"] pieces_plain [of "b @ [CHR 0x0A]"]
    by (cases a rule: rev_cases) (auto simp: pieces_plain)
  then show ?thesis by (simp del: map_append add: render_plain(1) [of "b @ [CHR 0x0A]"])
qed

text \<open>The page for given arguments: the frame, and in it the arguments as they are.\<close>

abbreviation demo_top :: "string list" where
  "demo_top \<equiv> demo_head @ demo_style @ demo_intro"

definition style_top :: string where
  "style_top = render_pieces (format_pieces (unlines demo_top)) []"

lemma top_no_verb: "Verb \<notin> set (format_pieces (unlines demo_top))"
  using pieces_unlines [of demo_top "[]"] by (simp add: demo_head_def demo_style_def demo_intro_def)

lemma end_plain: "CHR ''%'' \<notin> set (unlines demo_end)"
  by (simp add: demo_end_def unlines_def)

lemma table_lines: "demo_table =
    [''<p><code>'' @ CHR ''%'' # CHR ''s'' # ''</code></p>'', [], ''<table>'',
     ('' <tr><th>M'' @ [CHR 0xC3, CHR 0xA9] @ ''todo</th><td>'') @ CHR ''%'' # CHR ''s'' # ''</td></tr>'',
     '' <tr><th>Ruta</th><td>'' @ CHR ''%'' # CHR ''s'' # ''</td></tr>'',
     '' <tr><th>Query</th><td>'' @ CHR ''%'' # CHR ''s'' # ''</td></tr>'',
     '' <tr><th>IP de origen (X-Real-IP)</th><td>'' @ CHR ''%'' # CHR ''s'' # ''</td></tr>'',
     '' '' @ CHR ''%'' # CHR ''s'' # []]"
  by (simp add: demo_table_def)

lemma table_verbs:
  "render_pieces (format_pieces ((''<p><code>'' @ CHR ''%'' # CHR ''s'' # ''</code></p>'') @ [CHR 0x0A]) @ ps) (x # args)
     = ''<p><code>'' @ x @ ''</code></p>'' @ CHR 0x0A # render_pieces ps args"
  "render_pieces (format_pieces ((('' <tr><th>M'' @ [CHR 0xC3, CHR 0xA9] @ ''todo</th><td>'') @ CHR ''%'' # CHR ''s'' # ''</td></tr>'') @ [CHR 0x0A]) @ ps) (x # args)
     = ('' <tr><th>M'' @ [CHR 0xC3, CHR 0xA9] @ ''todo</th><td>'') @ x @ ''</td></tr>'' @ CHR 0x0A # render_pieces ps args"
  "render_pieces (format_pieces (('' <tr><th>Ruta</th><td>'' @ CHR ''%'' # CHR ''s'' # ''</td></tr>'') @ [CHR 0x0A]) @ ps) (x # args)
     = '' <tr><th>Ruta</th><td>'' @ x @ ''</td></tr>'' @ CHR 0x0A # render_pieces ps args"
  "render_pieces (format_pieces (('' <tr><th>Query</th><td>'' @ CHR ''%'' # CHR ''s'' # ''</td></tr>'') @ [CHR 0x0A]) @ ps) (x # args)
     = '' <tr><th>Query</th><td>'' @ x @ ''</td></tr>'' @ CHR 0x0A # render_pieces ps args"
  "render_pieces (format_pieces (('' <tr><th>IP de origen (X-Real-IP)</th><td>'' @ CHR ''%'' # CHR ''s'' # ''</td></tr>'') @ [CHR 0x0A]) @ ps) (x # args)
     = '' <tr><th>IP de origen (X-Real-IP)</th><td>'' @ x @ ''</td></tr>'' @ CHR 0x0A # render_pieces ps args"
  "render_pieces (format_pieces (('' '' @ CHR ''%'' # CHR ''s'' # []) @ [CHR 0x0A]) @ ps) (x # args)
     = '' '' @ x @ CHR 0x0A # render_pieces ps args"
  "render_pieces (format_pieces ([] @ [CHR 0x0A]) @ ps) args = CHR 0x0A # render_pieces ps args"
  "render_pieces (format_pieces (''<table>'' @ [CHR 0x0A]) @ ps) args = ''<table>'' @ CHR 0x0A # render_pieces ps args"
  by (rule render_verb, simp, simp)+ (simp_all add: render_line)

lemma demo_page_filled:
  "sprintf demoPage [a, b, c, d, e, f] = style_top
     @ (''<p><code>'' @ a @ ''</code></p>'' @ [CHR 0x0A])
     @ [CHR 0x0A] @ ''<table>'' @ [CHR 0x0A]
     @ (('' <tr><th>M'' @ [CHR 0xC3, CHR 0xA9] @ ''todo</th><td>'') @ b @ ''</td></tr>'' @ [CHR 0x0A])
     @ ('' <tr><th>Ruta</th><td>'' @ c @ ''</td></tr>'' @ [CHR 0x0A])
     @ ('' <tr><th>Query</th><td>'' @ d @ ''</td></tr>'' @ [CHR 0x0A])
     @ ('' <tr><th>IP de origen (X-Real-IP)</th><td>'' @ e @ ''</td></tr>'' @ [CHR 0x0A])
     @ ('' '' @ f @ [CHR 0x0A]) @ unlines demo_end"
proof -
  have "sprintf demoPage [a, b, c, d, e, f]
      = render_pieces (format_pieces (unlines demo_top) @ format_pieces (unlines demo_table @ unlines demo_end)) [a, b, c, d, e, f]"
    using pieces_unlines [of demo_top "[]"] pieces_unlines [of demo_top "unlines demo_table @ unlines demo_end"]
    by (simp only: sprintf_def demoPage_def unlines_simps(3) append_Nil2 append_assoc format_pieces.simps(1))
  also have "\<dots> = style_top @ render_pieces (format_pieces (unlines demo_table @ unlines demo_end)) [a, b, c, d, e, f]"
    by (simp only: render_append [OF top_no_verb] style_top_def)
  also have "render_pieces (format_pieces (unlines demo_table @ unlines demo_end)) [a, b, c, d, e, f]
      = render_pieces (concat (map (\<lambda>l. format_pieces (l @ [CHR 0x0A])) demo_table) @ map Plain (unlines demo_end)) [a, b, c, d, e, f]"
    by (simp only: pieces_unlines pieces_plain [OF end_plain])
  finally show ?thesis
    unfolding table_lines list.map concat.simps append_assoc [where 'a = piece] append_Nil [where 'a = piece]
    by (simp only: table_verbs) (simp only: render_plain append_assoc append_Nil append_Cons)
qed

lemma style_top_lines: "style_top = concat (map (\<lambda>l. sprintf (l @ [CHR 0x0A]) []) demo_top)"
proof -
  have "Verb \<notin> set (concat pss) \<Longrightarrow> render_pieces (concat pss) [] = concat (map (\<lambda>ps. render_pieces ps []) pss)" for pss
  proof (induction pss)
    case (Cons ps pss)
    then show ?case using render_append [of ps "concat pss" "[]"] by simp
  qed simp
  from this [of "map (\<lambda>l. format_pieces (l @ [CHR 0x0A])) demo_top"] show ?thesis
    using top_no_verb pieces_unlines [of demo_top "[]"] by (simp add: style_top_def sprintf_def o_def)
qed

definition top_tags :: "string list" where
  "top_tags = [[], ''!doctype html'', ''html lang='' @ [CHR 0x22] @ ''es'' @ [CHR 0x22], ''head'',
     ''meta charset='' @ [CHR 0x22] @ ''utf-8'' @ [CHR 0x22], ''title'', ''/title'', ''style'', ''/style'', ''/head'', ''body'',
     ''h1'', ''/h1'', ''div class='' @ [CHR 0x22] @ ''ok'' @ [CHR 0x22], ''/div'', ''p'', ''/p'']"

definition end_tags :: "string list" where
  "end_tags = [''/table'', ''p style='' @ [CHR 0x22] @ ''margin-top:2rem;font-size:.9rem;color:#4a5058'' @ [CHR 0x22],
     ''code'', ''/code'', ''/p'', ''/body'', ''/html'']"

definition style_text :: string where
  "style_text = concat (map (\<lambda>l. sprintf (l @ [CHR 0x0A]) []) demo_style)"

lemma style_text_plain: "CHR ''<'' \<notin> set style_text"
  by (simp add: style_text_def demo_style_def sprintf_def)

text \<open>The tags behind which the page shows something of the request.\<close>

definition shows_data :: "string \<times> string \<Rightarrow> bool" where
  "shows_data tok \<longleftrightarrow> fst tok \<in> {''code'', ''th'', ''td''}"

lemma head_read: "\<exists>toks. scan ([], InText [] []) (concat (map (\<lambda>l. sprintf (l @ [CHR 0x0A]) []) demo_head)) = (toks, InText ''style'' [CHR 0x0A])
    \<and> map fst toks @ [''style''] = take 8 top_tags \<and> filter shows_data toks = []"
  by (simp add: demo_head_def sprintf_def top_tags_def shows_data_def)

lemma intro_read: "\<exists>toks. scan (toks0, InText t tx) (concat (map (\<lambda>l. sprintf (l @ [CHR 0x0A]) []) demo_intro))
     = (toks0 @ (t, tx) # toks, InText ''/p'' [CHR 0x0A]) \<and> map fst toks @ [''/p''] = drop 8 top_tags \<and> filter shows_data toks = []"
  by (simp add: demo_intro_def sprintf_def top_tags_def shows_data_def)

lemma end_read: "\<exists>toks. scan (toks0, InText t tx) (unlines demo_end) = (toks0 @ (t, tx) # toks, InText ''/html'' [CHR 0x0A])
    \<and> map fst toks @ [''/html''] = end_tags
    \<and> filter shows_data toks = [(''code'', ''/?id=1'' @ [CHR 0x27] @ '' OR '' @ [CHR 0x27] @ ''1'' @ [CHR 0x27] @ ''='' @ [CHR 0x27] @ ''1'')]"
  by (simp add: unlines_def demo_end_def end_tags_def shows_data_def)

lemma top_read: "\<exists>toks. scan ([], InText [] []) style_top = (toks, InText ''/p'' [CHR 0x0A])
    \<and> map fst toks @ [''/p''] = top_tags \<and> filter shows_data toks = []"
proof -
  obtain ts where ts: "scan ([], InText [] []) (concat (map (\<lambda>l. sprintf (l @ [CHR 0x0A]) []) demo_head)) = (ts, InText ''style'' [CHR 0x0A])"
    "map fst ts @ [''style''] = take 8 top_tags" "filter shows_data ts = []" using head_read by blast
  obtain us where us: "scan (ts, InText ''style'' (CHR 0x0A # style_text)) (concat (map (\<lambda>l. sprintf (l @ [CHR 0x0A]) []) demo_intro))
      = (ts @ (''style'', CHR 0x0A # style_text) # us, InText ''/p'' [CHR 0x0A])" "map fst us @ [''/p''] = drop 8 top_tags" "filter shows_data us = []"
    using intro_read by blast
  have "top_tags = (map fst ts @ [''style'']) @ (map fst us @ [''/p''])"
    unfolding ts(2) us(2) by (rule append_take_drop_id [symmetric])
  then have "map fst (ts @ (''style'', CHR 0x0A # style_text) # us) @ [''/p''] = top_tags" by simp
  moreover have "scan ([], InText [] []) style_top = (ts @ (''style'', CHR 0x0A # style_text) # us, InText ''/p'' [CHR 0x0A])"
    unfolding style_top_lines map_append concat_append scan_append ts(1) style_text_def [symmetric]
    by (simp only: scan_text [OF style_text_plain] append.simps us(1))
  moreover have "filter shows_data (ts @ (''style'', CHR 0x0A # style_text) # us) = []"
    using ts(3) us(3) by (simp add: shows_data_def)
  ultimately show ?thesis by blast
qed

subsection \<open>The rows\<close>

definition row_tags :: "string list" where
  "row_tags = [''tr'', ''th'', ''/th'', ''td'', ''/td'', ''/tr'']"

lemma header_row_text: "header_row r n
    = ''<tr><th>'' @ EscapeString n @ ''</th><td>'' @ EscapeString (header_get (dmHeader r) n) @ ''</td></tr>''"
  by (simp add: header_row_def sprintf_def)

lemma rows_read:
  assumes "\<not> shows_data (t, [])"
  shows "\<exists>toks t' tx'. scan (toks0, InText t tx) (concat (map (header_row r) ns)) = (toks0 @ toks, InText t' tx')
    \<and> map fst toks @ [t'] = t # concat (map (\<lambda>_. row_tags) ns) \<and> \<not> shows_data (t', [])
    \<and> filter shows_data toks
       = concat (map (\<lambda>n. [(''th'', EscapeString n), (''td'', EscapeString (header_get (dmHeader r) n))]) ns)"
  using assms
proof (induction ns arbitrary: toks0 t tx)
  case (Cons n ns)
  have not_tr: "\<not> shows_data (''/tr'', [])" by (simp add: shows_data_def)
  let ?row = "[(t, tx), (''tr'', []), (''th'', EscapeString n), (''/th'', []), (''td'', EscapeString (header_get (dmHeader r) n)), (''/td'', [])]"
  obtain toks t' tx' where ih: "scan (toks0 @ ?row, InText ''/tr'' []) (concat (map (header_row r) ns)) = ((toks0 @ ?row) @ toks, InText t' tx')"
    "map fst toks @ [t'] = ''/tr'' # concat (map (\<lambda>_. row_tags) ns)" "\<not> shows_data (t', [])"
    "filter shows_data toks = concat (map (\<lambda>n. [(''th'', EscapeString n), (''td'', EscapeString (header_get (dmHeader r) n))]) ns)"
    using Cons.IH [OF not_tr, of "toks0 @ ?row" "[]"] by auto
  have "scan (toks0, InText t tx) (header_row r n) = (toks0 @ ?row, InText ''/tr'' [])"
    by (simp add: header_row_text)
  then have "scan (toks0, InText t tx) (concat (map (header_row r) (n # ns))) = (toks0 @ ?row @ toks, InText t' tx')"
    using ih(1) by simp
  moreover have "map fst (?row @ toks) @ [t'] = t # concat (map (\<lambda>_. row_tags) (n # ns))"
    using ih(2) by (simp add: row_tags_def)
  moreover have "filter shows_data ?row = [(''th'', EscapeString n), (''td'', EscapeString (header_get (dmHeader r) n))]"
    using Cons.prems by (simp add: shows_data_def)
  then have "filter shows_data (?row @ toks)
      = concat (map (\<lambda>n. [(''th'', EscapeString n), (''td'', EscapeString (header_get (dmHeader r) n))]) (n # ns))"
    unfolding filter_append ih(4) by simp
  ultimately show ?case using ih(3) by blast
qed auto

subsection \<open>The whole page\<close>

definition table_text :: "DemoRequest \<Rightarrow> string" where
  "table_text r = (''<p><code>'' @ EscapeString (shown_request_id r) @ ''</code></p>'' @ [CHR 0x0A]) @ [CHR 0x0A] @ ''<table>'' @ [CHR 0x0A]
     @ (('' <tr><th>M'' @ [CHR 0xC3, CHR 0xA9] @ ''todo</th><td>'') @ EscapeString (dmMethod r) @ ''</td></tr>'' @ [CHR 0x0A])
     @ ('' <tr><th>Ruta</th><td>'' @ EscapeString (dmPath r) @ ''</td></tr>'' @ [CHR 0x0A])
     @ ('' <tr><th>Query</th><td>'' @ EscapeString (dmRawQuery r) @ ''</td></tr>'' @ [CHR 0x0A])
     @ ('' <tr><th>IP de origen (X-Real-IP)</th><td>'' @ EscapeString (header_get (dmHeader r) ''X-Real-IP'') @ ''</td></tr>'' @ [CHR 0x0A]) @ '' ''"

definition table_tokens :: "DemoRequest \<Rightarrow> (string \<times> string) list" where
  "table_tokens r = [(''p'', []), (''code'', EscapeString (shown_request_id r)), (''/code'', []), (''/p'', [CHR 0x0A, CHR 0x0A]),
     (''table'', [CHR 0x0A, CHR 0x20]),
     (''tr'', []), (''th'', ''M'' @ [CHR 0xC3, CHR 0xA9] @ ''todo''), (''/th'', []), (''td'', EscapeString (dmMethod r)), (''/td'', []), (''/tr'', [CHR 0x0A, CHR 0x20]),
     (''tr'', []), (''th'', ''Ruta''), (''/th'', []), (''td'', EscapeString (dmPath r)), (''/td'', []), (''/tr'', [CHR 0x0A, CHR 0x20]),
     (''tr'', []), (''th'', ''Query''), (''/th'', []), (''td'', EscapeString (dmRawQuery r)), (''/td'', []), (''/tr'', [CHR 0x0A, CHR 0x20]),
     (''tr'', []), (''th'', ''IP de origen (X-Real-IP)''), (''/th'', []),
     (''td'', EscapeString (header_get (dmHeader r) ''X-Real-IP'')), (''/td'', [])]"

lemma table_read: "scan (toks, InText t tx) (table_text r) = (toks @ (t, tx) # table_tokens r, InText ''/tr'' [CHR 0x0A, CHR 0x20])"
  by (simp add: table_text_def table_tokens_def)

lemma row_cells: "filter (\<lambda>(u, x). u = tag) (concat (map (\<lambda>n. [(''th'', f n), (''td'', g n)]) ns))
    = (if tag = ''th'' then map (\<lambda>n. (''th'', f n)) ns else if tag = ''td'' then map (\<lambda>n. (''td'', g n)) ns else [])"
  by (induction ns) auto

lemma page_text: "page_body r = style_top @ table_text r @ concat (map (header_row r) (sort (keys (dmHeader r)))) @ [CHR 0x0A] @ unlines demo_end"
  unfolding page_body_def Let_def demo_page_filled table_text_def by (simp only: append_assoc)

lemma page_read:
  obtains ts rs t tx es where "read_html (page_body r) = ts @ (''/p'', [CHR 0x0A]) # table_tokens r @ rs @ (t, tx) # es @ [(''/html'', [CHR 0x0A])]"
    "map fst ts @ [''/p''] = top_tags" "filter shows_data ts = []"
    "map fst rs @ [t] = ''/tr'' # concat (map (\<lambda>_. row_tags) (sort (keys (dmHeader r))))" "\<not> shows_data (t, tx)"
    "filter shows_data rs = concat (map (\<lambda>n. [(''th'', EscapeString n), (''td'', EscapeString (header_get (dmHeader r) n))]) (sort (keys (dmHeader r))))"
    "map fst es @ [''/html''] = end_tags"
    "filter shows_data es = [(''code'', ''/?id=1'' @ [CHR 0x27] @ '' OR '' @ [CHR 0x27] @ ''1'' @ [CHR 0x27] @ ''='' @ [CHR 0x27] @ ''1'')]"
proof -
  let ?nl = "[CHR 0x0A]"
  obtain ts where ts: "scan ([], InText [] []) style_top = (ts, InText ''/p'' ?nl)" "map fst ts @ [''/p''] = top_tags"
    "filter shows_data ts = []" using top_read by blast
  have "\<not> shows_data (''/tr'', [])" by (simp add: shows_data_def)
  from rows_read [OF this] obtain rs t tx where
    rs: "scan (ts @ (''/p'', ?nl) # table_tokens r, InText ''/tr'' [CHR 0x0A, CHR 0x20]) (concat (map (header_row r) (sort (keys (dmHeader r)))))
        = ((ts @ (''/p'', ?nl) # table_tokens r) @ rs, InText t tx)"
      "map fst rs @ [t] = ''/tr'' # concat (map (\<lambda>_. row_tags) (sort (keys (dmHeader r))))" "\<not> shows_data (t, [])"
      "filter shows_data rs = concat (map (\<lambda>n. [(''th'', EscapeString n), (''td'', EscapeString (header_get (dmHeader r) n))]) (sort (keys (dmHeader r))))"
    by blast
  have nl: "scan (toks, InText t tx) ?nl = (toks, InText t (tx @ ?nl))" for toks by simp
  obtain es where es: "scan ((ts @ (''/p'', ?nl) # table_tokens r) @ rs, InText t (tx @ ?nl)) (unlines demo_end)
        = (((ts @ (''/p'', ?nl) # table_tokens r) @ rs) @ (t, tx @ ?nl) # es, InText ''/html'' ?nl)"
    "map fst es @ [''/html''] = end_tags"
    "filter shows_data es = [(''code'', ''/?id=1'' @ [CHR 0x27] @ '' OR '' @ [CHR 0x27] @ ''1'' @ [CHR 0x27] @ ''='' @ [CHR 0x27] @ ''1'')]"
    using end_read by blast
  have "read_html (page_body r) = ts @ (''/p'', ?nl) # table_tokens r @ rs @ (t, tx @ ?nl) # es @ [(''/html'', ?nl)]"
    unfolding read_html_def page_text scan_append ts(1) table_read rs(1) nl es(1) by simp
  moreover have "\<not> shows_data (t, tx @ ?nl)" using rs(3) by (simp add: shows_data_def)
  ultimately show thesis using that ts(2,3) rs(2,4) es(2,3) by blast
qed

subsection \<open>Properties\<close>

text \<open>C17: A request cannot write into the page. Read by a browser, the page has exactly the tags of its frame and
  one row per header, in this order and whatever the request was; and the texts it shows are the request:
  behind the first \<^verbatim>\<open>code\<close> its identifier, in the cells the method, the path, the query and the client,
  then the headers by name, each with its first value, byte for byte.\<close>

theorem page_shows_request:
  "tags (page_body r) = top_tags @ [''p'', ''code'', ''/code'', ''/p'', ''table'']
       @ concat (replicate (4 + length (dmHeader r)) row_tags) @ end_tags
   \<and> hd (cells ''code'' (page_body r)) = shown_request_id r
   \<and> drop 4 (cells ''th'' (page_body r)) = sort (keys (dmHeader r))
   \<and> cells ''td'' (page_body r) = [dmMethod r, dmPath r, dmRawQuery r, header_get (dmHeader r) ''X-Real-IP'']
       @ map (header_get (dmHeader r)) (sort (keys (dmHeader r)))"
proof -
  let ?ns = "sort (keys (dmHeader r))"
  obtain ts rs t tx es where read: "read_html (page_body r) = ts @ (''/p'', [CHR 0x0A]) # table_tokens r @ rs @ (t, tx) # es @ [(''/html'', [CHR 0x0A])]"
    and fr: "map fst ts @ [''/p''] = top_tags" "filter shows_data ts = []" "map fst es @ [''/html''] = end_tags"
      "filter shows_data es = [(''code'', ''/?id=1'' @ [CHR 0x27] @ '' OR '' @ [CHR 0x27] @ ''1'' @ [CHR 0x27] @ ''='' @ [CHR 0x27] @ ''1'')]"
    and rows: "map fst rs @ [t] = ''/tr'' # concat (map (\<lambda>_. row_tags) ?ns)" "\<not> shows_data (t, tx)"
      "filter shows_data rs = concat (map (\<lambda>n. [(''th'', EscapeString n), (''td'', EscapeString (header_get (dmHeader r) n))]) ?ns)"
    by (rule page_read [of r]) (rule that; assumption)
  have "tags (page_body r) = (map fst ts @ [''/p'']) @ map fst (table_tokens r) @ (map fst rs @ [t]) @ (map fst es @ [''/html''])"
    by (simp add: tags_def read)
  also have "\<dots> = top_tags @ [''p'', ''code'', ''/code'', ''/p'', ''table''] @ concat (replicate (4 + length (dmHeader r)) row_tags) @ end_tags"
    unfolding fr(1,3) rows(1) by (simp add: table_tokens_def row_tags_def numeral_eq_Suc map_replicate_const keys_def)
  finally have tags: "tags (page_body r) = \<dots>" .
  have pick: "filter (\<lambda>(u, x). u = tag) xs = filter (\<lambda>(u, x). u = tag) (filter shows_data xs)"
    if "tag \<in> {''code'', ''th'', ''td''}" for tag xs
    using that by (induction xs) (auto simp: shows_data_def)
  have data: "filter shows_data (read_html (page_body r)) = filter shows_data (table_tokens r) @ filter shows_data rs @ filter shows_data es"
    using rows(2) fr(2) by (simp add: read shows_data_def)
  have rows_of: "filter (\<lambda>(u, x). u = ''th'') (filter shows_data rs) = map (\<lambda>n. (''th'', EscapeString n)) ?ns"
    "filter (\<lambda>(u, x). u = ''td'') (filter shows_data rs) = map (\<lambda>n. (''td'', EscapeString (header_get (dmHeader r) n))) ?ns"
    "filter (\<lambda>(u, x). u = ''code'') (filter shows_data rs) = []"
    unfolding rows(3) row_cells by simp_all
  have cell: "cells tag (page_body r) = map (html_unescape \<circ> snd) (filter (\<lambda>(u, x). u = tag)
      (filter shows_data (table_tokens r) @ filter shows_data rs @ filter shows_data es))"
    if "tag \<in> {''code'', ''th'', ''td''}" for tag
    unfolding cells_def data [symmetric] using pick [OF that] by metis
  have "hd (cells ''code'' (page_body r)) = shown_request_id r"
    "drop 4 (cells ''th'' (page_body r)) = ?ns"
    "cells ''td'' (page_body r) = [dmMethod r, dmPath r, dmRawQuery r, header_get (dmHeader r) ''X-Real-IP''] @ map (header_get (dmHeader r)) ?ns"
    unfolding cell [OF insertI1] cell [OF insertI2 [OF insertI1]] cell [OF insertI2 [OF insertI2 [OF insertI1]]]
      filter_append rows_of fr(4)
    by (simp_all add: table_tokens_def shows_data_def o_def)
  then show ?thesis using tags by blast
qed

text \<open>The echo reads back as the request, with bytes that are no UTF-8 replaced.\<close>

lemma echo_reads_back:
  obtains b t where "snd (echoJSON r) = b @ [CHR 0x0A]" "tree_value 0 (b @ [CHR 0x0A]) = Some (t, [CHR 0x0A])"
    "erase t = GMap (posted (echo_members r))"
proof -
  have m: "text_members (echo_members r)"
    by (simp add: text_members_def echo_members_def text_value_def keys_def utf8_valid_ascii ascii_def code_def)
  note t = text_members_tree [OF m]
  obtain b where b: "marshal (GMap (echo_members r)) = Inr b" using t(6) by (metis sum.collapse(2))
  have "tree_value 0 (b @ [CHR 0x0A]) = Some (tree_of (GMap (echo_members r)), [CHR 0x0A])"
    using t(5) [of max_depth] by (intro tree_marshal [OF b]) (simp_all add: max_depth_def num_stop_def is_digit_def code_def)
  then show thesis using that b t(3) by (simp add: echoJSON_def del: marshal.simps)
qed

text \<open>The page does not depend on the order in which the headers are visited.\<close>

lemma page_visit_order:
  assumes "mset hs = mset (dmHeader r)" "distinct (keys (dmHeader r))"
  shows "page_body (r\<lparr>dmHeader := hs\<rparr>) = page_body r"
proof -
  have get: "header_get hs = header_get (dmHeader r)"
    using map_of_perm [of "dmHeader r" hs] assms by (simp add: header_get_def fun_eq_iff)
  have names: "sort (keys hs) = sort (keys (dmHeader r))"
    using keys_perm [OF assms(1)] by (metis properties_for_sort sorted_sort mset_sort)
  have "header_row (r\<lparr>dmHeader := hs\<rparr>) = header_row r" "shown_request_id (r\<lparr>dmHeader := hs\<rparr>) = shown_request_id r"
    by (simp_all add: header_row_def shown_request_id_def get fun_eq_iff)
  then show ?thesis by (simp add: page_body_def get names)
qed

end
