(* ===== verification/Spec2Isabelle.thy ===== *)
theory Spec2Isabelle
  imports Engine_Main Dash_Main Demo_Backend
begin

text \<open>
  Open-Shield is a web application firewall of two Go programs. The \<^bold>\<open>engine\<close> is asked by a
  reverse proxy to decide on every request: a chain of rules (an access list of IP prefixes, a rate limit,
  and signatures for SQL injection and cross-site scripting) allows or blocks it, and every decision is
  queued for an audit log, a hash chain in PostgreSQL of which the engine is the only writer. The
  \<^bold>\<open>dashboard\<close> reads that log, verifies it, shows it live, and changes the rules and the access list; a
  change is first put on the record through the engine, then made in the database, and then announced to the
  engine, which reloads its configuration on an announcement and on a timer. This development models the Go
  code of both programs and proves what makes them correct, component by component and then end to end. A
  third, small program stands for the application that is protected in the demonstration stack.

  \<^bold>\<open>The library under the components.\<close> \<open>OS_Prelude\<close>: types (\<open>bytes\<close>, \<open>gomap\<close>, \<open>time\<close>, \<open>result\<close>), the
  collections of the development, 64-bit wrap-around, Go maps as association lists. \<open>Go_Strings\<close>, \<open>Go_Utf8\<close>,
  \<open>Go_Time\<close>, \<open>Go_TimeParse\<close>, \<open>Go_Float\<close>, \<open>Go_Sha256\<close>, \<open>Go_Json\<close> with \<open>Json_Facts\<close>, \<open>Go_Decode\<close> with
  \<open>Decode_Facts\<close>, \<open>Netip\<close> and \<open>Go_Http\<close>: what the code uses of the packages \<^verbatim>\<open>strings\<close>, \<^verbatim>\<open>strconv\<close>, \<^verbatim>\<open>encoding\<close>, \<^verbatim>\<open>unicode/utf8\<close>, \<^verbatim>\<open>time\<close>,
  \<^verbatim>\<open>crypto/sha256\<close> and \<^verbatim>\<open>crypto/hmac\<close>, \<^verbatim>\<open>encoding/json\<close>, \<^verbatim>\<open>net/netip\<close> and
  \<^verbatim>\<open>net/http\<close>. Strings and byte slices are lists of characters, one per byte; instants are integers of
  nanoseconds from year 1; SHA-256 is defined on 32-bit words and evaluated on a standard test vector. JSON
  is read into a tree and from there into structs field by field, unknown, repeated and wrongly typed
  members included; numbers become correctly rounded \<^verbatim>\<open>float64\<close> values; what the encoder writes is read
  back (\<open>tree_marshal\<close>), and so is every formatted instant (\<open>parse_format_rfc3339\<close>).

  \<^bold>\<open>The audit log\<close> (\<^verbatim>\<open>src/internal/model\<close>, \<^verbatim>\<open>src/internal/audit\<close>). \<open>Canonical\<close>
  (\<^verbatim>\<open>canonical.go\<close>): the encoding hashed for a payload; it is independent of map order, equal exactly for
  equal data, and read back as the same data. \<open>Model\<close> (\<^verbatim>\<open>model.go\<close>, \<^verbatim>\<open>rules.go\<close>, \<^verbatim>\<open>audit.go\<close>): the
  entry, its hash and its sealing; the hash covers every field. \<open>Audit_Verify\<close> (\<^verbatim>\<open>verify.go\<close>): the walker
  accepts exactly intact chains and names the first break; two intact histories with one head are equal or
  exhibit a collision. \<open>Audit_Memory\<close> (\<^verbatim>\<open>memory.go\<close>) and \<open>Audit_Postgres\<close> (\<^verbatim>\<open>postgres.go\<close>): the two
  repositories; \<open>Audit_Repository\<close> (\<^verbatim>\<open>repository.go\<close>) states what the writer relies on as the locale
  \<open>audit_repository\<close>, which the memory store meets and the PostgreSQL store for every faithful database. \<open>Audit_Writer\<close> (\<^verbatim>\<open>writer.go\<close>): the queue and the writing loop
  as a step relation over callers, loop and store; the locale \<open>audit_writer\<close> carries the invariant that the
  log stays a chain, that every call is accounted for, and that a call answered without error is in the log.

  \<^bold>\<open>The engine\<close> (\<^verbatim>\<open>src/engine\<close>). \<open>Rules_Engine\<close> (\<^verbatim>\<open>rules.go\<close>): the chain, with the contract of a
  rule as a locale that the rules interpret. \<open>IPBlock\<close>, \<open>RateLimit\<close>, \<open>Patterns\<close>: the rules; the access
  list blocks exactly what is denied and not allowed, the Redis script admits exactly what a sliding-window
  reference admits, a signature rule blocks exactly when a signature matches. \<open>Engine_Http\<close>
  (\<^verbatim>\<open>httpapi.go\<close>): the handlers; the record of a decision is the decision answered, without body and
  credentials. \<open>Engine_Main\<close> (\<^verbatim>\<open>cmd/engine/main.go\<close>): starting, reloading, stopping.

  \<^bold>\<open>Shared\<close> (\<^verbatim>\<open>src/internal\<close>). \<open>Config\<close>, \<open>Migrate\<close>, \<open>Rulestore\<close>, \<open>Events\<close>: the environment, the
  migrations, the two tables of the configuration (the locale \<open>access_list\<close>: a finite map), and Redis
  publication with its two lossy subscriptions (the locale \<open>lossy_relay\<close>). \<open>Wire\<close>: the JSON forms of values.

  \<^bold>\<open>The dashboard\<close> (\<^verbatim>\<open>src/dashboard/api\<close>). \<open>Auth\<close> (\<^verbatim>\<open>auth.go\<close>): a token is accepted exactly when
  it carries the HMAC of its body and is fresh. \<open>Dash_Support\<close> (\<^verbatim>\<open>support.go\<close>): the sign-in throttle and
  the client's address. \<open>Dash_Http\<close> (\<^verbatim>\<open>httpapi.go\<close>, \<^verbatim>\<open>auditclient.go\<close>): every handler and the routing;
  nothing changes off the record, nothing is served without a session, and only a well-typed body acts. \<open>Dash_Record\<close>: over any sequence of
  requests the record accounts for the tables. \<open>Ws_Hub\<close> (\<^verbatim>\<open>hub.go\<close>): the live feed as interleaved steps
  over a store of clients; no interleaving closes a channel twice. \<open>Dash_Main\<close> (\<^verbatim>\<open>cmd/api/main.go\<close>):
  starting, ending with everything given back, and the tool for the password hash.

  \<^bold>\<open>The demo backend\<close> (\<^verbatim>\<open>src/examples/demo-backend\<close>). \<open>Demo_Backend\<close>: its routes and its page, which read as
  HTML has the tags of its frame only and shows the request byte for byte.

  \<^bold>\<open>End to end\<close>, in this theory: a change made through the dashboard is in the log, told in full, and the log
  verifies (\<open>change_is_in_the_log\<close>); a prefix denied through the dashboard is refused by the engine from its
  next tick (\<open>denied_prefix_is_refused\<close>).

  \<^bold>\<open>How code becomes definitions.\<close> A struct is a record, a method a function on it; a handler is a function
  from what it reads to the answer and the state it leaves. Errors are values of sum or option types, a panic
  is \<^const>\<open>None\<close>. Locks make a method one step; where goroutines meet without one (writer, hub,
  subscriptions) the steps are listed and interleaved in any order, with an inductive reachability relation.
  Loops are structural recursions over what is left to do, so there is no fuel; a loop driven from outside
  takes the list of its events. Integers are unbounded except where the code can wrap: durations in
  \<open>Config\<close> are wrapped to 64 bits, hashes and IPv4 addresses are words.

  \<^bold>\<open>What is an argument.\<close> PostgreSQL (which statements commit, what its types do to a value), Redis (its
  sorted-set commands, what it answers to a publication), bcrypt, the matching of regular expressions, the texts
  of errors the library makes, file contents, clocks, random identifiers and Unicode tables. What is relied on
  is a named predicate (\<open>db_faithful\<close>, \<open>honest_outcome\<close>, \<open>cidr_ok\<close>) or a locale (\<open>redis_zset\<close>), and here
  \<open>talks_to\<close> and \<open>answers_from\<close>, met by the concrete instances the examples use. The decoding of request
  bodies, of messages and files, of times and of durations is defined, not assumed.

  \<^bold>\<open>What the code does differently from what it says\<close> is stated as lemmas: \<open>lost_reply_forks_chain\<close>,
  \<open>range_check_false_alarm\<close>, \<open>tail_deletion_undetected\<close>, \<open>malformed_escape_hides_payload\<close>,
  \<open>window_overflow_accepted\<close>, \<open>failures_not_bounded\<close>, \<open>second_line_ignored\<close>, \<open>recorded_but_not_applied\<close>.

  \<^bold>\<open>Not modelled.\<close> Logging, signals, flags, sockets, connection pools and timeouts other than as outcomes;
  the WebSocket protocol; the embedding of files; the test harness and its corpus; the Lua
  code of the proxy, the SQL of the migrations, and the React application, which are not Go.
\<close>

subsection \<open>From the dashboard to the engine\<close>

lemma added_deny_rule:
  assumes "decodeJSON ip_fields no_rule r = Some rule" "parsePrefix (CIDR rule) = Inr (Prefix_String p)"
    "handleAddIPRule srv actor r st = (resp, st')" "rstatus resp = 201"
  shows "Action rule = ActionAllow \<or> Action rule = ActionDeny"
    "d_tables st' = add_prefix (s_sql srv) (s_now srv) (Note rule) actor p (Action rule) (d_tables st)"
proof -
  let ?rule = "rule\<lparr>CIDR := Prefix_String p\<rparr>"
  let ?det = "add_details ?rule (clientIP (s_trusted srv) r)"
  show act: "Action rule = ActionAllow \<or> Action rule = ActionDeny"
    using assms by (auto simp: handleAddIPRule_def Let_def dash_writeJSON_def split: if_splits)
  obtain err st1 where rec: "RecordAdmin srv actor ''ipblock.add'' ?det st = (err, st1)" by fastforce
  then have "d_tables st' = snd (AddIPRule (s_sql srv) True (s_now srv) ?rule actor (d_tables st))"
  proof (cases rule: RecordAdmin_cases)
    case failed
    then show ?thesis
      using assms act rec by (auto simp: handleAddIPRule_def Let_def refuseUnaudited_def dash_writeJSON_def)
  next
    case recorded
    have "s_store_up srv"
      using assms act rec recorded
      by (cases "s_store_up srv") (auto simp: handleAddIPRule_def Let_def AddIPRule_def fail_def dash_writeJSON_def)
    then show ?thesis
      using assms act rec recorded by (auto simp: handleAddIPRule_def Let_def split: prod.splits sum.splits)
  qed
  also have "\<dots> = add_prefix (s_sql srv) (s_now srv) (Note rule) actor p (Action rule) (d_tables st)"
    using AddIPRule_add_prefix [of ?rule p "s_sql srv" "s_now srv" actor "d_tables st"] by simp
  finally show "d_tables st' = add_prefix (s_sql srv) (s_now srv) (Note rule) actor p (Action rule) (d_tables st)" .
qed

lemma add_prefix_rules: "rules_table (add_prefix sql now nt actor p act db) = rules_table db"
  by (simp add: add_prefix_def AddIPRule_def Let_def split: option.splits)

text \<open>C2: What the administrator denies, the engine refuses. When the dashboard has answered a request to deny
  a prefix with status 201, then from the engine's next tick on that reads the tables, whatever notifications
  were lost, every request from an address in the prefix, unless another entry allows it, is blocked by the
  access list with status 403 and a reason, before any other rule sees or counts it.\<close>

theorem denied_prefix_is_refused:
  assumes "list_inv (s_sql srv) (d_tables st)" "cidr_ok (s_sql srv) p"
    "decodeJSON ip_fields no_rule r = Some rule" "parsePrefix (CIDR rule) = Inr (Prefix_String p)" "Action rule = ActionDeny"
    "handleAddIPRule srv actor r st = (resp, st')" "rstatus resp = 201"
    "CtxDone \<notin> set evs" "whole snap" "tables snap = d_tables st'"
    "rules chain = rules (engine_chain redis lower printable cfg sigs)"
    "\<exists>row \<in> set (rules_table (d_tables st)). rr_name row = ''ipblock'' \<and> rr_enabled row"
    "watchConfig (reload (s_sql srv)) live (evs @ [Tick snap]) (chain, s) = (chain', s')"
    "ParseAddr (IP req) = Some a" "Contains p a"
    "\<not> (\<exists>q. q \<noteq> p \<and> access (d_tables st) q = Some ActionAllow \<and> Contains q a)"
  shows "\<exists>reason. reason \<noteq> [] \<and> Decide chain' micros req s' =
    (\<lparr>DVerdict = Block, DRule = ''ipblock'', DReason = reason, DStatus = 403, DecisionMicros = micros\<rparr>, s')"
proof (rule denied_client_never_counted)
  have tab: "tables snap = add_prefix (s_sql srv) (s_now srv) (Note rule) actor p ActionDeny (d_tables st)"
    using added_deny_rule [OF assms(3,4,6,7)] assms(5,10) by simp
  note add = add_prefix_inv [OF assms(1,2), of ActionDeny "s_now srv" "Note rule" actor]
  have inv: "list_inv (s_sql srv) (tables snap)" and acc: "access (tables snap) = (access (d_tables st))(p \<mapsto> ActionDeny)"
    using add tab by simp_all
  note tick = tick_enforces [OF assms(8) inv assms(9,13)]
  show rules: "rules chain' = rules (engine_chain redis lower printable cfg sigs)" using tick(2) assms(11) by simp
  have "Names chain' = [''ipblock'', ''ratelimit'', ''sqli'', ''xss'']"
    using rules engine_chain_names [of redis lower printable cfg sigs] by (simp add: Names_map)
  then show "map_get False (enabled chain') ''ipblock''"
    using tick(1) assms(12) unfolding enforces_def tab add_prefix_rules by simp
  have "\<exists>q. access (tables snap) q = Some ActionDeny \<and> Contains q a" using acc assms(15) by auto
  moreover have "\<not> (\<exists>q. access (tables snap) q = Some ActionAllow \<and> Contains q a)"
    using acc assms(16) by (auto simp: ActionAllow_def ActionDeny_def split: if_splits)
  ultimately show "fst (fst (ipblock_Evaluate req (ips s'))) = Block"
    using tick(1) assms(14) unfolding enforces_def by blast
qed


definition deny_request :: HttpRequest where
  "deny_request = with_body [(''cidr'', GString (Prefix_String office)), (''action'', GString ActionDeny), (''note'', GString ''lan'')] edge_request"

lemma deny_request_body: "decodeJSON ip_fields no_rule deny_request = Some office_rule"
proof -
  let ?m = "[(''cidr'', GString (Prefix_String office)), (''action'', GString ActionDeny), (''note'', GString ''lan'')]"
  have str: "Prefix_String office = ''10.0.0.0/8''" unfolding office_def by code_simp
  have asc: "ascii ''cidr''" "ascii ''action''" "ascii ''note''" "ascii ''10.0.0.0/8''" "ascii ''deny''" "ascii ''lan''"
    by (simp_all add: ascii_def code_def)
  have le: "''action'' \<le> ''cidr''" "''cidr'' \<le> ''note''" "\<not> ''cidr'' \<le> ''action''" "''action'' \<le> ''note''" by code_simp+
  have q: "length (json_quote True s) \<le> 100" if "ascii s" "length s \<le> 16" for s
    using json_quote_length [OF that(1), of True] that(2) by simp
  have "decodeJSON ip_fields no_rule (with_body ?m edge_request)
      = set_members True ip_fields (map (\<lambda>kv. (fst kv, tree_of (snd kv))) (sort_key fst ?m)) no_rule"
  proof (rule decodeJSON_body)
    show "text_members ?m" using asc by (simp add: text_members_def keys_def text_value_def utf8_valid_ascii)
    show "2 + sum_list (map (\<lambda>kv. length (json_quote True (fst kv)) + part_size (marshal (snd kv)) + 2) ?m) \<le> 1048576"
      using asc [THEN q] by (simp add: part_size_def str ActionDeny_def)
  qed
  also have "\<dots> = Some office_rule"
    using asc by (simp add: le field_named_def ip_fields_def set_string_def no_rule_def office_rule_def str ActionDeny_def
        utf8_coerce_id utf8_valid_ascii)
  finally show ?thesis by (simp add: deny_request_def)
qed

definition guarded_state :: Dash where
  "guarded_state = demo_state\<lparr>d_tables := \<lparr>rules_table = [\<lparr>rr_name = ''ipblock'', rr_enabled = True, rr_config = ''{}'',
     rr_updated = 0, rr_by = []\<rparr>], ip_table = []\<rparr>\<rparr>"

lemma office_prefix: "parsePrefix (Prefix_String office) = Inr (Prefix_String office)"
proof -
  have str: "Prefix_String office = ''10.0.0.0/8''" unfolding office_def by code_simp
  have "graphic ''10.0.0.0/8''" by (simp add: graphic_def code_def)
  then have "trim_space ''10.0.0.0/8'' = ''10.0.0.0/8''" by (rule trim_space_graphic)
  moreover have "netip_ParsePrefix ''10.0.0.0/8'' = Some office" unfolding office_def by code_simp
  moreover have "Masked office = office" unfolding office_def by code_simp
  ultimately show ?thesis unfolding str by (simp add: parsePrefix_def str)
qed

lemma deny_answered:
  "\<exists>resp st'. handleAddIPRule demo_server ''admin'' deny_request guarded_state = (resp, st') \<and> rstatus resp = 201"
proof -
  have rule: "CIDR office_rule = Prefix_String office" "Action office_rule = ActionDeny" "office_rule\<lparr>CIDR := Prefix_String office\<rparr> = office_rule"
    by (simp_all add: office_rule_def)
  have "cidr_in plain_sql (Prefix_String office) = Some office" using office_ok by (simp add: cidr_ok_def)
  then have add: "\<exists>x t. AddIPRule plain_sql True now office_rule ''admin'' db = (Inr x, t)" for now db
    by (simp add: AddIPRule_def rule Let_def scan_ip_def)
  have "RecordAdmin demo_server ''admin'' ''ipblock.add'' (add_details office_rule ip) st =
      (None, st\<lparr>d_journal := d_journal st @ [admin_payload ''admin'' ''ipblock.add'' (add_details office_rule ip)]\<rparr>)" for ip st
    by (rule RecordAdmin_confirmed) (simp_all add: details_facts demo_server_def)
  moreover note deny_request_body
  moreover have "s_sql demo_server = plain_sql" "s_store_up demo_server" by (simp_all add: demo_server_def)
  moreover obtain x t where "AddIPRule plain_sql True (s_now demo_server) office_rule ''admin'' (d_tables guarded_state) = (Inr x, t)"
    using add by blast
  ultimately show ?thesis by (simp add: handleAddIPRule_def Let_def rule office_prefix dash_writeJSON_def)
qed

theorem denied_prefix_is_refused_witness:
  "\<exists>resp st' chain' s' reason.
    handleAddIPRule demo_server ''admin'' deny_request guarded_state = (resp, st') \<and> rstatus resp = 201
    \<and> watchConfig (reload plain_sql) True [NotificationsClosed, Tick (empty_snapshot\<lparr>tables := d_tables st'\<rparr>)]
        (engine_chain documented_redis id (\<lambda>_. True) (fst (LoadEngine sample_env)) \<lparr>SQLi = [quote_or], XSS = []\<rparr>,
         \<lparr>ips = NewIPBlock, rate = quiet_counters\<rparr>) = (chain', s')
    \<and> Decide chain' 5 encoded_request s' =
        (\<lparr>DVerdict = Block, DRule = ''ipblock'', DReason = reason, DStatus = 403, DecisionMicros = 5\<rparr>, s')"
proof -
  let ?c = "engine_chain documented_redis id (\<lambda>_. True) (fst (LoadEngine sample_env)) \<lparr>SQLi = [quote_or], XSS = []\<rparr>"
  let ?s = "\<lparr>ips = NewIPBlock, rate = quiet_counters\<rparr>"
  obtain resp st' where add: "handleAddIPRule demo_server ''admin'' deny_request guarded_state = (resp, st')" "rstatus resp = 201"
    using deny_answered by blast
  let ?snap = "empty_snapshot\<lparr>tables := d_tables st'\<rparr>"
  obtain chain' s' where w: "watchConfig (reload (s_sql demo_server)) True ([NotificationsClosed] @ [Tick ?snap]) (?c, ?s) = (chain', s')"
    by fastforce
  have sql: "s_sql demo_server = plain_sql" by (simp add: demo_server_def)
  have inv: "list_inv plain_sql (d_tables guarded_state)"
  proof -
    have "\<not> isl (DecodeJSONPayload ''{}'')" by code_simp
    then show ?thesis by (simp add: list_inv_def tables_ok_def guarded_state_def)
  qed
  have pre: "parsePrefix (CIDR office_rule) = Inr (Prefix_String office)" "Action office_rule = ActionDeny"
    using office_prefix by (simp_all add: office_rule_def)
  have addr: "ParseAddr (IP encoded_request) = Some (V4 0x0A000001)" "Contains office (V4 0x0A000001)"
    unfolding office_def by code_simp+
  have no: "\<not> (\<exists>q. q \<noteq> office \<and> access (d_tables guarded_state) q = Some ActionAllow \<and> Contains q (V4 0x0A000001))"
    by (simp add: access_def guarded_state_def)
  have row: "\<exists>row \<in> set (rules_table (d_tables guarded_state)). rr_name row = ''ipblock'' \<and> rr_enabled row"
    by (simp add: guarded_state_def)
  have snap: "whole ?snap" "tables ?snap = d_tables st'" by (simp_all add: whole_def empty_snapshot_def)
  note result = denied_prefix_is_refused [where micros = 5, OF inv [folded sql] office_ok [folded sql] deny_request_body pre add _ snap refl row w addr no]
  then obtain reason where "Decide chain' 5 encoded_request s' =
      (\<lparr>DVerdict = Block, DRule = ''ipblock'', DReason = reason, DStatus = 403, DecisionMicros = 5\<rparr>, s')" by auto
  with add w [unfolded sql] show ?thesis by auto
qed


subsection \<open>From the dashboard to the log\<close>

text \<open>
  The dashboard posts to the engine's handler: an answer it receives has the handler's status. And a call of
  the writer that returned without an error was answered so by the writer.
\<close>

definition talks_to :: "DashServer \<Rightarrow> (bytes \<Rightarrow> Response) \<Rightarrow> bool" where
  "talks_to srv h \<longleftrightarrow> (\<forall>body status reply. s_engine srv body = Inr (status, reply) \<longrightarrow> status = rstatus (h body))"

definition answers_from :: "(string \<Rightarrow> string \<Rightarrow> payload \<Rightarrow> string option) \<Rightarrow> Row list system \<Rightarrow> bool" where
  "answers_from recordSync y \<longleftrightarrow>
     (\<forall>kind rid p. recordSync kind rid p = None
        \<longrightarrow> (\<exists>it uuid now. (it, None) \<in> set (replies (wr y)) \<and> qentry it = build uuid now kind rid p))"

text \<open>An entry of the log that holds the data of a payload.\<close>

definition holds_payload :: "goval gomap \<Rightarrow> AuditEntry \<Rightarrow> bool" where
  "holds_payload p l \<longleftrightarrow> Kind l = KindAdmin
     \<and> (\<exists>n. NormalizePayload (Some p) = Inr n \<and> same_data (payload_value n) (payload_value (Payload l)))"

lemma confirmed_recorded:
  assumes "talks_to srv (handleAudit recordSync)" "confirmed srv p" "text_members p"
  shows "recordSync KindAdmin [] (Some (posted p)) = None"
proof -
  obtain body reply where body: "marshal (GMap [(''kind'', GString KindAdmin), (''payload'', GMap p)]) = Inr body"
    "s_engine srv body = Inr (201, reply)" using assms(2) unfolding confirmed_def by blast
  then have st: "rstatus (handleAudit recordSync body) = 201" using assms(1) unfolding talks_to_def by metis
  then obtain req where req: "decode_audit (take maxDecideBody body) = Some req"
    by (cases "decode_audit (take maxDecideBody body)") (auto simp: handleAudit_def writeJSON_def)
  then show ?thesis
    using st posted_entry_read(1) [OF body(1) assms(3) req]
    by (cases "recordSync KindAdmin [] (Some (posted p))") (auto simp: handleAudit_def writeJSON_def)
qed

text \<open>C1: Every change of the configuration is in the log, and the log verifies. Put together, the dashboard,
  the engine's interface, the writer and the PostgreSQL store have this property: whenever a request to the
  dashboard has changed the tables, it carried the session of an administrator, and in every state the
  writer has reached after answering, with any other traffic in between, the log holds an administrative entry
  whose data names that administrator and tells the change, and verifying the whole log succeeds.\<close>

theorem change_is_in_the_log:
  assumes "db_faithful db" "NewWriter True buffer pub (pg_Head db True rows) = Inr w"
    "pg_inv rows" "chained GenesisHash (pg_log rows)"
    "wreach (pg_Append db) honest_outcome (pg_built db) (start w rows) y"
    "answers_from recordSync y" "talks_to srv (handleAudit recordSync)"
    "dash_Handler srv r st = (resp, st')" "d_tables st' \<noteq> d_tables st"
  shows "\<exists>user p l. session srv r = Some user \<and> map_of p ''actor'' = Some (GString user)
    \<and> d_tables st' = replay_admin (s_sql srv) (s_now srv) p (d_tables st)
    \<and> l \<in> set (pg_log (system.store y)) \<and> holds_payload p l
    \<and> OK (pg_verify db (system.store y))"
proof -
  obtain user where user: "session srv r = Some user" "on_the_record srv r user st st'"
    using handler_on_the_record [OF assms(8)] assms(9) by blast
  then obtain p where p: "confirmed srv p" "text_members p" "map_of p ''actor'' = Some (GString user)"
    "d_tables st' = replay_admin (s_sql srv) (s_now srv) p (d_tables st)"
    unfolding on_the_record_def by blast
  obtain it uuid now where it: "(it, None) \<in> set (replies (wr y))" "qentry it = build uuid now KindAdmin [] (Some (posted p))"
    using assms(6) confirmed_recorded [OF assms(7) p(1,2)] unfolding answers_from_def by blast
  note reach = pg_reachable [OF assms(1-5)]
  obtain l where l: "l \<in> set (pg_log (system.store y))" "records (qentry it) l" using reach(5) [OF it(1)] by blast
  have "holds_payload p l"
    using l(2) it(2) Normalize_posted [OF p(2)] by (auto simp: records_def build_def holds_payload_def)
  moreover have "OK (pg_verify db (system.store y))"
    using reach(2,3) by (simp add: pg_verify_log walk_ok_iff newChainWalker_def)
  ultimately show ?thesis using user(1) p(3,4) l(1) by blast
qed


text \<open>A system that meets all this: the engine reads and records one entry.\<close>

definition switch_payload :: "goval gomap" where
  "switch_payload = admin_payload ''admin'' ''rule.set_enabled'' (patch_details ''sqli'' False ''10.0.0.2'')"

definition posted_body :: bytes where
  "posted_body = (case marshal (GMap [(''kind'', GString KindAdmin), (''payload'', GMap switch_payload)]) of
     Inl _ \<Rightarrow> [] | Inr body \<Rightarrow> body)"

definition one_sync :: "string \<Rightarrow> string \<Rightarrow> payload \<Rightarrow> string option" where
  "one_sync kind rid p = (if kind = KindAdmin \<and> rid = [] \<and> p = Some (posted switch_payload) then None else Some ''down'')"

definition log_server :: DashServer where
  "log_server = demo_server\<lparr>s_engine := \<lambda>body. Inr (rstatus (handleAudit one_sync body), [])\<rparr>"

lemma switch_payload_members:
  "switch_payload = [(''actor'', GString ''admin''), (''action'', GString ''rule.set_enabled''), (''rule'', GString ''sqli''),
     (''enabled'', GBool False), (''ip'', GString ''10.0.0.2'')]"
  by (simp add: switch_payload_def admin_payload_def admin_step_def patch_details_def)

lemma switch_texts: "text_members switch_payload"
  unfolding switch_payload_def by (intro admin_payload_texts details_facts)

lemma posted_body_ok:
  "marshal (GMap [(''kind'', GString KindAdmin), (''payload'', GMap switch_payload)]) = Inr posted_body"
proof -
  from admin_payload_encodes [OF details_facts(1)] obtain body where
    "marshal (GMap [(''kind'', GString KindAdmin), (''payload'', GMap switch_payload)]) = Inr body"
    unfolding switch_payload_def by blast
  then show ?thesis by (simp only: posted_body_def sum.case)
qed

lemma posted_body_short: "length posted_body < maxDecideBody"
proof -
  have q: "length (json_quote True s) \<le> 100" if "ascii s" "length s \<le> 16" for s
    using json_quote_length [OF that(1), of True] that(2) by simp
  have strs: "ascii ''kind''" "ascii KindAdmin" "ascii ''payload''" "ascii ''actor''" "ascii ''admin''" "ascii ''action''"
    "ascii ''rule.set_enabled''" "ascii ''rule''" "ascii ''sqli''" "ascii ''enabled''" "ascii ''ip''" "ascii ''10.0.0.2''"
    by (simp_all add: ascii_def code_def KindAdmin_def)
  obtain x where x: "marshal (GMap switch_payload) = Inr x"
    using posted_body_ok unfolding outer_body by (cases "marshal (GMap switch_payload)") simp_all
  have "length x \<le> 2 + 5 * 202"
    using object_length [OF x] q [OF strs(4)] q [OF strs(5)] q [OF strs(6)] q [OF strs(7)] q [OF strs(8)] q [OF strs(9)]
      q [OF strs(10)] q [OF strs(11)] q [OF strs(12)]
    unfolding switch_payload_members by (simp add: part_size_def)
  moreover have "part_size (marshal (GMap switch_payload)) = length x" by (simp only: x part_size_def sum.case)
  ultimately have "length posted_body \<le> 2 + (202 + (202 + 1012))"
    using object_length [OF posted_body_ok] q [OF strs(1)] q [OF strs(2)] q [OF strs(3)]
    by (simp add: part_size_def KindAdmin_def del: marshal.simps(9))
  then show ?thesis by (simp add: maxDecideBody_def)
qed

lemma switch_normal: "NormalizePayload (Some (posted switch_payload)) = Inr q \<Longrightarrow> plain_payload q"
  "\<exists>q. NormalizePayload (Some (posted switch_payload)) = Inr q"
proof -
  have le: "''action'' \<le> ''actor''" "''actor'' \<le> ''enabled''" "''enabled'' \<le> ''ip''" "''ip'' \<le> ''rule''" by code_simp+
  have eq: "NormalizePayload (Some (posted switch_payload)) = Inr (Some (posted switch_payload))"
    using Normalize_texts [OF text_members_tree(7) [OF switch_texts]] text_members_tree(8) [OF switch_texts] by simp
  then show "\<exists>q. NormalizePayload (Some (posted switch_payload)) = Inr q" by blast
  show "plain_payload q" if "NormalizePayload (Some (posted switch_payload)) = Inr q"
    using that unfolding eq
    by (auto simp: plain_payload_def payload_value_def list_all_iff posted_def switch_payload_members coerce_text_def)
qed

theorem change_is_in_the_log_witness:
  "\<exists>y p l. sample_reach y \<and> l \<in> set (pg_log (system.store y)) \<and> holds_payload p l
    \<and> map_of p ''actor'' = Some (GString ''admin'') \<and> OK (pg_verify ideal_db (system.store y))"
proof -
  let ?e = "build ''u1'' 0 KindAdmin [] (Some (posted switch_payload))"
  obtain q where q: "NormalizePayload (Some (posted switch_payload)) = Inr q" using switch_normal(2) by blast
  have "pg_built ideal_db ?e"
    using switch_normal(1) by (auto simp: pg_built_def build_def truncate_idem ideal_db_def)
  then obtain y where y: "sample_reach y" "(\<lparr>qentry = ?e, qdone = True\<rparr>, None) \<in> set (replies (wr y))"
    using ideal_run [of ?e q] q by (auto simp: build_def)
  have ans: "answers_from one_sync y" unfolding answers_from_def
  proof (intro allI impI)
    fix kind rid p
    assume "one_sync kind rid p = None"
    then have "kind = KindAdmin" "rid = []" "p = Some (posted switch_payload)" by (auto simp: one_sync_def split: if_splits)
    then show "\<exists>it uuid now. (it, None) \<in> set (replies (wr y)) \<and> qentry it = build uuid now kind rid p"
      using y(2) by (intro exI [where x = "\<lparr>qentry = ?e, qdone = True\<rparr>"]) auto
  qed
  have talks: "talks_to log_server (handleAudit one_sync)" by (simp add: talks_to_def log_server_def)
  have "rstatus (handleAudit one_sync posted_body) = 201"
    using posted_entry_reads [OF posted_body_ok switch_texts] posted_body_short
    by (simp add: handleAudit_def one_sync_def writeJSON_def KindSystem_def)
  then have "RecordAdmin log_server ''admin'' ''rule.set_enabled'' (patch_details ''sqli'' False ''10.0.0.2'') demo_state
      = (None, demo_state\<lparr>d_journal := d_journal demo_state @ [switch_payload]\<rparr>)"
    unfolding RecordAdmin_def Let_def switch_payload_def [symmetric] posted_body_ok by (simp add: log_server_def)
  from demo_patch_changes [OF this [unfolded log_server_def]]
  have changed: "session log_server demo_patch = Some ''admin''"
    "d_tables (snd (dash_Handler log_server demo_patch demo_state)) \<noteq> d_tables demo_state"
    by (simp_all add: log_server_def)
  obtain resp st' where h: "dash_Handler log_server demo_patch demo_state = (resp, st')" by fastforce
  have "d_tables st' \<noteq> d_tables demo_state" using changed(2) h by simp
  from change_is_in_the_log [OF ideal_db_faithful sample_start _ _ y(1) ans talks h this]
  show ?thesis using changed(1) y(1) by (auto simp: pg_inv_def)
qed

subsection \<open>From the log to the browser\<close>

lemma subseq_map_preimage: "subseq xs (map f ys) \<Longrightarrow> \<exists>zs. xs = map f zs \<and> subseq zs ys"
proof (induction ys arbitrary: xs)
  case (Cons y ys)
  show ?case
  proof (cases "subseq xs (map f ys)")
    case True
    then show ?thesis using Cons.IH by blast
  next
    case False
    then obtain xs' where "xs = f y # xs'" "subseq xs' (map f ys)"
      using Cons.prems by (cases xs) (auto split: if_splits)
    then show ?thesis using Cons.IH [of xs'] by (metis list.map(2) subseq_Cons2)
  qed
qed (auto dest: list_emb_Nil2)

lemma subseq_emb: "list_emb P ys zs \<Longrightarrow> subseq xs ys \<Longrightarrow> list_emb P xs zs"
proof (induction arbitrary: xs rule: list_emb.induct)
  case (list_emb_Cons2 y z ys zs)
  show ?case
  proof (cases "subseq xs ys")
    case True
    then show ?thesis using list_emb_Cons2.IH by blast
  next
    case False
    then obtain xs' where "xs = y # xs'" "subseq xs' ys"
      using list_emb_Cons2.prems by (cases xs) (auto split: if_splits)
    then show ?thesis using list_emb_Cons2.IH [of xs'] list_emb_Cons2.hyps(1) by auto
  qed
qed (auto dest: list_emb_Nil2)

text \<open>The entries of a stream of hub events.\<close>

definition stream_entries :: "hub_event list \<Rightarrow> AuditEntry list" where
  "stream_entries evs = concat (map (\<lambda>ev. case ev of StreamEntry e \<Rightarrow> [e] | _ \<Rightarrow> []) evs)"

lemma streamed_entries: "streamed evs = map entry_value (stream_entries evs)"
  by (induction evs) (auto simp: stream_entries_def split: hub_event.splits)

text \<open>C3: What the live view shows is in the log. The writer publishes what it has stored, Redis may lose
  publications, the subscription drops what its reader cannot keep up with, and the hub does the same for each
  browser. Whatever is lost on the way: the frames that have been written to a browser or wait for it show, in the
  order of the log and none twice, entries that are stored in the log, with the identifiers, instant, data and
  hash they have there, in which only the numbers of the payload have become floats; and the log verifies.\<close>

theorem live_view_is_in_the_log:
  assumes "db_faithful db" "NewWriter True buffer pub (pg_Head db True rows) = Inr w"
    "pg_inv rows" "chained GenesisHash (pg_log rows)"
    "wreach (pg_Append db) honest_outcome (pg_built db) (start w rows) y"
    "subseq es (published (wr y))" "publications redis p es (sub_messages sevs)"
    "taken (Subscribe n sevs) = before @ stream_entries hevs @ rest"
    "hub_reachable v" "hub_run hevs (handler_connect v) = Some v'" "c = length (conns v)"
  shows "\<exists>shown. fed c v' = map (\<lambda>e. entry_value (received e)) shown
    \<and> list_emb stored_as shown (pg_log (system.store y)) \<and> OK (pg_verify db (system.store y))"
proof -
  note reach = pg_reachable [OF assms(1-5)]
  let ?sub = "Subscribe n sevs"
  have "subseq (taken ?sub @ pending ?sub) (map received es)"
    using subscription_faithful [OF assms(7) refl, where n = n] by simp
  moreover have "subseq (stream_entries hevs) (taken ?sub @ pending ?sub)"
    unfolding assms(8) by (intro list_emb_prefix list_emb_append2) simp
  ultimately have "subseq (stream_entries hevs) (map received es)" using subseq_order.trans by blast
  then have "subseq (streamed hevs) (map (entry_value \<circ> received) es)"
    by (metis streamed_entries subseq_map map_map)
  moreover have "subseq (fed c v') (streamed hevs)" using live_feed_selects [OF assms(9,10,11)] .
  ultimately obtain zs where zs: "fed c v' = map (entry_value \<circ> received) zs" "subseq zs es"
    using subseq_map_preimage subseq_order.trans by metis
  have "list_emb stored_as zs (pg_log (system.store y))"
    using subseq_emb [OF reach(6)] zs(2) assms(6) subseq_order.trans by blast
  moreover have "OK (pg_verify db (system.store y))"
    using reach(2,3) by (simp add: pg_verify_log walk_ok_iff newChainWalker_def)
  ultimately show ?thesis using zs(1) by (auto simp: o_def)
qed

end
